(* ===== verification/Prelude.thy ===== *)
theory Prelude
  imports Main "HOL-Library.Word"
begin

text \<open>
  Shared vocabulary of the development: bytes and 16-bit big-endian fields, Go strings as
  character lists, the error values of the program, Go slices with their run-time bounds check,
  and the fact collections the component theories fill and use.

  Collections: \<^verbatim>\<open>go_io\<close> holds the unfolding rules of the connection operations,
  \<^verbatim>\<open>go_slice\<close> the rules that decide bounds checks.
\<close>

named_theorems go_io "unfolding rules of connection reads and writes"
named_theorems go_slice "bounds-checked reads of byte slices"

unbundle bit_operations_syntax

section \<open>Bytes, strings and errors\<close>

type_synonym byte = "8 word"
type_synonym bytes = "8 word list"

text \<open>
  The error values that occur. \<^verbatim>\<open>NetError n\<close> is an error raised by the operating system or a
  third-party package (its identity is a number); \<^verbatim>\<open>Errorf\<close> carries the message of an
  \<^verbatim>\<open>errors.New\<close> or \<^verbatim>\<open>fmt.Errorf\<close>, in English where the source writes Chinese.
\<close>

datatype go_error =
    EOF
  | UnexpectedEOF
  | NetErrClosed
  | ErrClosedPipe
  | ErrInvalidHandshake
  | Timeout
  | NetError nat
  | Errorf string

type_synonym 'a res = "go_error + 'a"

definition ord_of :: "char \<Rightarrow> nat" where
  "ord_of c = of_char c"

definition byte_of_char :: "char \<Rightarrow> byte" where
  "byte_of_char c = of_nat (of_char c)"

definition char_of_byte :: "byte \<Rightarrow> char" where
  "char_of_byte b = char_of (unat b)"

text \<open>The conversions \<^verbatim>\<open>[]byte(s)\<close> and \<^verbatim>\<open>string(b)\<close>.\<close>

definition str_bytes :: "string \<Rightarrow> bytes" where
  "str_bytes s = List.map byte_of_char s"

definition bytes_str :: "bytes \<Rightarrow> string" where
  "bytes_str b = List.map char_of_byte b"

lemma char_of_byte_of_char [simp]: "char_of_byte (byte_of_char c) = c"
proof -
  have "of_char c < (256::nat)"
    by (cases c) (simp add: of_char_def horner_sum_simps of_bool_def)
  then show ?thesis
    by (simp add: char_of_byte_def byte_of_char_def unat_of_nat)
qed

lemma byte_of_char_of_byte [simp]: "byte_of_char (char_of_byte b) = b"
proof -
  have "unat b < 256"
    using unsigned_less [of b] by simp
  then show ?thesis
    by (simp add: char_of_byte_def byte_of_char_def of_char_of)
qed

lemma bytes_str_inverse [simp]: "bytes_str (str_bytes s) = s"
  by (simp add: bytes_str_def str_bytes_def o_def)

lemma str_bytes_inverse [simp]: "str_bytes (bytes_str b) = b"
  by (simp add: bytes_str_def str_bytes_def o_def)

lemma length_str_bytes [simp]: "length (str_bytes s) = length s"
  by (simp add: str_bytes_def)

lemma length_bytes_str [simp]: "length (bytes_str b) = length b"
  by (simp add: bytes_str_def)

lemma str_bytes_simps [simp]:
  "str_bytes [] = []"
  "str_bytes (c # s) = byte_of_char c # str_bytes s"
  "str_bytes (s @ t) = str_bytes s @ str_bytes t"
  by (simp_all add: str_bytes_def)

lemma bytes_str_simps [simp]:
  "bytes_str [] = []"
  "bytes_str (b # bs) = char_of_byte b # bytes_str bs"
  "bytes_str (bs @ cs) = bytes_str bs @ bytes_str cs"
  by (simp_all add: bytes_str_def)

lemma str_bytes_eq_iff [simp]: "str_bytes s = str_bytes t \<longleftrightarrow> s = t"
  by (metis bytes_str_inverse)

lemma bytes_str_eq_iff [simp]: "bytes_str s = bytes_str t \<longleftrightarrow> s = t"
  by (metis str_bytes_inverse)

lemma str_bytes_eq_Nil [simp]: "str_bytes s = [] \<longleftrightarrow> s = []"
  by (simp add: str_bytes_def)

lemma bytes_str_eq_Nil [simp]: "bytes_str b = [] \<longleftrightarrow> b = []"
  by (simp add: bytes_str_def)

section \<open>16-bit big-endian fields\<close>

text \<open>\<^verbatim>\<open>binary.BigEndian.PutUint16\<close> and \<^verbatim>\<open>binary.BigEndian.Uint16\<close>.\<close>

definition put_u16 :: "16 word \<Rightarrow> bytes" where
  "put_u16 v = [ucast (drop_bit 8 v), ucast v]"

definition get_u16 :: "byte \<Rightarrow> byte \<Rightarrow> 16 word" where
  "get_u16 hi lo = push_bit 8 (ucast hi) OR ucast lo"

lemma get_put_u16 [simp]: "get_u16 (ucast (drop_bit 8 v)) (ucast v) = v"
  unfolding get_u16_def
  by (rule bit_word_eqI) (auto simp: bit_simps)

lemma length_put_u16 [simp]: "length (put_u16 v) = 2"
  by (simp add: put_u16_def)

lemma put_u16_neq_Nil [simp]: "put_u16 v \<noteq> []"
  by (simp add: put_u16_def)

lemma put_u16_nth [simp]:
  "put_u16 v ! 0 = ucast (drop_bit 8 v)" "put_u16 v ! Suc 0 = ucast v"
  by (simp_all add: put_u16_def)

lemma unat_u16_of_nat [simp]: "n < 65536 \<Longrightarrow> unat (of_nat n :: 16 word) = n"
  by (simp add: unat_of_nat)

lemma unat_u8_of_nat [simp]: "n < 256 \<Longrightarrow> unat (of_nat n :: 8 word) = n"
  by (simp add: unat_of_nat)

lemma unat_byte_less [simp]: "unat (b :: byte) < 256"
  using unsigned_less [of b] by simp

lemma unat_u16_less [simp]: "unat (v :: 16 word) < 65536"
  using unsigned_less [of v] by simp

lemma put_get_u16 [simp]:
  "ucast (drop_bit 8 (get_u16 a b)) = a" "(ucast (get_u16 a b) :: byte) = b"
  unfolding get_u16_def
  by (rule bit_word_eqI; auto simp: bit_simps dest: bit_imp_le_length)+

section \<open>Slices with the run-time bounds check\<close>

text \<open>
  \<^verbatim>\<open>index_at b i\<close> is \<^verbatim>\<open>b[i]\<close> and \<^verbatim>\<open>slice b lo hi\<close> is \<^verbatim>\<open>b[lo:hi]\<close> on a byte slice whose
  capacity is its length; \<^verbatim>\<open>None\<close> is the run-time panic.
\<close>

definition index_at :: "'a list \<Rightarrow> nat \<Rightarrow> 'a option" where
  "index_at b i = (if i < length b then Some (b ! i) else None)"

definition slice :: "'a list \<Rightarrow> nat \<Rightarrow> nat \<Rightarrow> 'a list option" where
  "slice b lo hi = (if lo \<le> hi \<and> hi \<le> length b then Some (take (hi - lo) (drop lo b)) else None)"

definition u16_at :: "bytes \<Rightarrow> nat \<Rightarrow> 16 word option" where
  "u16_at b i = (case slice b i (i + 2) of
     None \<Rightarrow> None | Some f \<Rightarrow> Some (get_u16 (f ! 0) (f ! 1)))"

lemma index_at_Some [go_slice]: "i < length b \<Longrightarrow> index_at b i = Some (b ! i)"
  by (simp add: index_at_def)

lemma slice_Some [go_slice]:
  "lo \<le> hi \<Longrightarrow> hi \<le> length b \<Longrightarrow> slice b lo hi = Some (take (hi - lo) (drop lo b))"
  by (simp add: slice_def)

lemma u16_at_Some [go_slice]:
  assumes "i + 2 \<le> length b"
  shows "u16_at b i = Some (get_u16 (b ! i) (b ! (i + 1)))"
  using assms by (simp add: u16_at_def slice_def)

lemma u16_at_None [go_slice]: "length b < i + 2 \<Longrightarrow> u16_at b i = None"
  by (simp add: u16_at_def slice_def)

lemma index_at_append [go_slice]:
  "length a \<le> i \<Longrightarrow> index_at (a @ b) i = index_at b (i - length a)"
  by (auto simp: index_at_def nth_append)

lemma u16_at_append [go_slice]:
  "length a \<le> i \<Longrightarrow> u16_at (a @ b) i = u16_at b (i - length a)"
  by (auto simp: u16_at_def slice_def)

lemma slice_append [go_slice]:
  "length a \<le> lo \<Longrightarrow> lo \<le> hi \<Longrightarrow> slice (a @ b) lo hi = slice b (lo - length a) (hi - length a)"
  by (auto simp: slice_def)

section \<open>Signed 64-bit integers\<close>

text \<open>Go's \<^verbatim>\<open>int\<close> and \<^verbatim>\<open>int64\<close> arithmetic, wrapped to 64 bits of two's complement.\<close>

definition wrap64 :: "int \<Rightarrow> int" where
  "wrap64 x = signed_take_bit 63 x"

lemma wrap64_id: "- (2 ^ 63) \<le> x \<Longrightarrow> x < 2 ^ 63 \<Longrightarrow> wrap64 x = x"
  unfolding wrap64_def by (simp add: signed_take_bit_int_eq_self)

section \<open>Lists\<close>

lemma take_append_length [simp]: "length a = n \<Longrightarrow> take n (a @ b) = a"
  by simp

lemma drop_append_length [simp]: "length a = n \<Longrightarrow> drop n (a @ b) = b"
  by simp

lemma relpowp_snoc: "(R ^^ n) x y \<Longrightarrow> R y z \<Longrightarrow> m = Suc n \<Longrightarrow> (R ^^ m) x z"
  using relpowp_Suc_I [of n R x y z] by simp

lemma foldl_append_concat: "foldl (@) a xs = a @ concat xs"
  by (induction xs arbitrary: a) simp_all

lemma take_tail [simp]: "\<exists>t. b @ c = take k b @ t"
  by (rule exI [of _ "drop k b @ c"]) simp

end
