(* ===== verification/Lifecycle.thy ===== *)
theory Lifecycle
  imports Prelude
begin

text \<open>
  Three contracts that several components share: an operation that takes effect once
  (\<^verbatim>\<open>sync.Once\<close>, \<^verbatim>\<open>run_once\<close>), a close that may be called any number of times, from
  several goroutines (\<^verbatim>\<open>closable\<close>), and steps of goroutines that come to an end (\<^verbatim>\<open>converging\<close>).
\<close>

locale closable =
  fixes close :: "'s \<Rightarrow> 's" and closed :: "'s \<Rightarrow> bool"
  assumes close_closes: "closed (close s)"
    and close_again: "closed s \<Longrightarrow> close s = s"
begin

lemma close_idem: "close (close s) = close s"
  by (simp add: close_again close_closes)

lemma close_many: "(close ^^ Suc n) s = close s"
  by (induction n) (simp_all add: close_idem)

text \<open>Closing once more at the end of any closing sequence changes nothing.\<close>

lemma close_absorbs: "closed s \<Longrightarrow> (close ^^ n) s = s"
  by (induction n) (simp_all add: close_again)

end

text \<open>\<^verbatim>\<open>run a s\<close> is a call with argument \<open>a\<close>; \<^verbatim>\<open>result\<close> reads what a finished state reports.\<close>

locale run_once =
  fixes run :: "'a \<Rightarrow> 's \<Rightarrow> 'r \<times> 's" and finished :: "'s \<Rightarrow> bool" and outcome :: "'s \<Rightarrow> 'r"
  assumes run_finishes: "finished (snd (run a s))"
    and run_reports: "fst (run a s) = outcome (snd (run a s))"
    and run_again: "finished s \<Longrightarrow> run a s = (outcome s, s)"
begin

lemma later_call: "run b (snd (run a s)) = run a s"
  by (metis prod.collapse run_again run_finishes run_reports)

lemma later_calls: "foldl (\<lambda>s' b. snd (run b s')) (snd (run a s)) bs = snd (run a s)"
  by (induction bs) (simp_all add: later_call)

lemma call_after_calls: "run c (foldl (\<lambda>s' b. snd (run b s')) (snd (run a s)) bs) = run a s"
  by (simp add: later_calls later_call)

end

sublocale run_once \<subseteq> once_closed: closable "\<lambda>s. snd (run a s)" finished for a
  by unfold_locales (simp_all add: run_finishes run_again)

text \<open>Steps that keep an invariant and use up a measure: runs are bounded, and every run can be led to a state without steps.\<close>

locale converging =
  fixes step :: "'s \<Rightarrow> 's \<Rightarrow> bool" and inv :: "'s \<Rightarrow> bool" and left_over :: "'s \<Rightarrow> nat"
  assumes step_converges: "step x y \<Longrightarrow> inv x \<Longrightarrow> inv y \<and> left_over y < left_over x"
begin

lemma run_bound: "(step ^^ n) x y \<Longrightarrow> inv x \<Longrightarrow> inv y \<and> n + left_over y \<le> left_over x"
proof (induction n arbitrary: y)
  case (Suc n)
  then obtain z where z: "(step ^^ n) x z" "step z y" by auto
  with Suc.IH [OF z(1) Suc.prems(2)] step_converges [OF z(2)] show ?case by auto
qed simp

lemma run_ends: "inv x \<Longrightarrow> \<exists>y. step\<^sup>*\<^sup>* x y \<and> inv y \<and> (\<nexists>z. step y z)"
proof (induction "left_over x" arbitrary: x rule: less_induct)
  case less
  show ?case
  proof (cases "\<exists>z. step x z")
    case True
    then obtain z where z: "step x z" by blast
    with less step_converges [OF z] obtain y where "step\<^sup>*\<^sup>* z y" "inv y" "\<nexists>u. step y u" by blast
    with z show ?thesis by (meson converse_rtranclp_into_rtranclp)
  qed (use less.prems in blast)
qed

lemma no_infinite_run: "inv (f 0) \<Longrightarrow> \<exists>k. \<not> step (f k) (f (Suc k))"
proof (rule ccontr)
  assume "inv (f 0)" "\<nexists>k. \<not> step (f k) (f (Suc k))"
  then have run: "(step ^^ n) (f 0) (f n)" for n
    by (induction n) (auto intro: relpowp_Suc_I)
  from run_bound [OF run \<open>inv (f 0)\<close>, of "Suc (left_over (f 0))"] show False by simp
qed

end

end
