(* ===== verification/Session.thy ===== *)
theory Session
  imports Lifecycle
begin

text \<open>
  Sessions and their channels, \<^verbatim>\<open>internal/session/session.go\<close>, and the accept loops that fill them.

  A stream of the multiplexer is a number. \<^verbatim>\<open>cs_channels\<close> is the Go map: \<^verbatim>\<open>None\<close> is the nil map that
  \<^verbatim>\<open>Close\<close> leaves behind, on which an assignment panics (the result \<^verbatim>\<open>None\<close> of \<^verbatim>\<open>AddChannel\<close>).
  \<^verbatim>\<open>localAddr\<close> and \<^verbatim>\<open>remoteAddr\<close> are never set and stay nil. \<^verbatim>\<open>key_table\<close> is the contract of the tables.
\<close>

section \<open>The contract of a keyed table\<close>

locale key_table =
  fixes lookup :: "'s \<Rightarrow> 'k \<Rightarrow> 'v option"
    and key :: "'v \<Rightarrow> 'k"
    and put :: "'v \<Rightarrow> 's \<Rightarrow> 's option"
    and del :: "'k \<Rightarrow> 's \<Rightarrow> 's"
  assumes lookup_put: "put v s = Some s' \<Longrightarrow> lookup s' j = (if j = key v then Some v else lookup s j)"
    and lookup_del: "lookup (del k s) j = (if j = k then None else lookup s j)"
begin

text \<open>Of two owners of a key, the one that leaves first takes the other's entry with it.\<close>

lemma put_put_del:
  assumes "put v s = Some s1" "put w s1 = Some s2" "key w = key v"
  shows "lookup s2 (key v) = Some w \<and> lookup (del (key v) s2) (key w) = None"
  using lookup_put [OF assms(2)] assms(3) by (simp add: lookup_del)

lemma put_del_fresh:
  assumes "put v s = Some s1" "lookup s (key v) = None"
  shows "lookup (del (key v) s1) = lookup s"
  using lookup_put [OF assms(1)] assms(2) by (auto simp: fun_eq_iff lookup_del)

lemma put_del_other:
  assumes "put v s = Some s1" "j \<noteq> key v"
  shows "lookup (del j s1) (key v) = Some v"
  using lookup_put [OF assms(1)] assms(2) by (simp add: lookup_del)

text \<open>
  A table whose entries are exactly the values of a list with distinct keys stays so when a value
  with a new key is put or a value of the list is deleted.
\<close>

definition holds :: "'s \<Rightarrow> 'v list \<Rightarrow> bool" where
  "holds s vs \<longleftrightarrow> distinct (List.map key vs) \<and> (\<forall>k v. lookup s k = Some v \<longleftrightarrow> v \<in> set vs \<and> key v = k)"

lemma holds_put:
  assumes "holds s vs" "put v s = Some s'" "key v \<notin> key ` set vs"
  shows "holds s' (v # vs)"
proof -
  have "va \<notin> set vs" if "key va = key v" for va
    using assms(3) that by (metis image_eqI)
  with assms(1,3) lookup_put [OF assms(2)] show ?thesis by (auto simp: holds_def)
qed

lemma holds_del:
  assumes "holds s vs" "\<And>w. w \<in> set vs \<Longrightarrow> key w = key v \<Longrightarrow> w = v"
  shows "holds (del (key v) s) (remove1 v vs)"
proof -
  have d: "distinct vs" "distinct (List.map key vs)"
    using assms(1) by (auto simp: holds_def distinct_map)
  have "distinct (List.map key (remove1 v vs))"
    using d by (auto simp: distinct_map inj_on_def)
  moreover have "lookup (del (key v) s) k = Some w \<longleftrightarrow> w \<in> set (remove1 v vs) \<and> key w = k" for k w
    using assms d by (auto simp: holds_def lookup_del)
  ultimately show ?thesis by (simp add: holds_def)
qed

end

section \<open>Sessions and channels\<close>

text \<open>Nothing sets the addresses of a channel.\<close>

record WSChannel =
  ch_id :: "32 word"
  ch_stream :: nat
  ch_createdAt :: int
  ch_localAddr :: "string option"
  ch_remoteAddr :: "string option"

record ClientSession =
  cs_clientID :: string
  cs_channels :: "(32 word \<Rightarrow> WSChannel option) option"
  cs_closeOnce :: bool
  cs_done :: bool
  cs_smux_closed :: bool
  cs_ws_closed :: bool
  cs_streams_closed :: "nat list"

definition NewClientSession :: "string \<Rightarrow> ClientSession" where
  "NewClientSession clientID = \<lparr>cs_clientID = clientID, cs_channels = Some (\<lambda>_. None),
     cs_closeOnce = False, cs_done = False, cs_smux_closed = False, cs_ws_closed = False,
     cs_streams_closed = []\<rparr>"

definition GetID :: "ClientSession \<Rightarrow> string" where
  "GetID s = cs_clientID s"

definition IsClosed :: "ClientSession \<Rightarrow> bool" where
  "IsClosed s = cs_smux_closed s"

text \<open>Whether the channel \<^verbatim>\<open>Done\<close> returns is closed.\<close>

definition CS_Done :: "ClientSession \<Rightarrow> bool" where
  "CS_Done s = cs_done s"

text \<open>\<^verbatim>\<open>None\<close> is the panic of an assignment to a nil map.\<close>

definition AddChannel :: "WSChannel \<Rightarrow> ClientSession \<Rightarrow> ClientSession option" where
  "AddChannel ch s = (case cs_channels s of
     None \<Rightarrow> None
   | Some m \<Rightarrow> Some (s\<lparr>cs_channels := Some (m(ch_id ch \<mapsto> ch))\<rparr>))"

definition RemoveChannel :: "32 word \<Rightarrow> ClientSession \<Rightarrow> ClientSession" where
  "RemoveChannel cid s = (case cs_channels s of
     None \<Rightarrow> s
   | Some m \<Rightarrow> s\<lparr>cs_channels := Some (m(cid := None))\<rparr>)"

definition CS_Close :: "ClientSession \<Rightarrow> ClientSession" where
  "CS_Close s = (if cs_closeOnce s then s
     else s\<lparr>cs_closeOnce := True, cs_done := True, cs_smux_closed := True, cs_ws_closed := True,
            cs_channels := None\<rparr>)"

definition NewWSChannel :: "nat \<Rightarrow> 32 word \<Rightarrow> int \<Rightarrow> WSChannel" where
  "NewWSChannel stream cid now = \<lparr>ch_id = cid, ch_stream = stream, ch_createdAt = now,
     ch_localAddr = None, ch_remoteAddr = None\<rparr>"

definition GetStream :: "WSChannel \<Rightarrow> nat" where
  "GetStream ch = ch_stream ch"

definition GetLocalAddr :: "WSChannel \<Rightarrow> string option" where
  "GetLocalAddr ch = ch_localAddr ch"

definition GetRemoteAddr :: "WSChannel \<Rightarrow> string option" where
  "GetRemoteAddr ch = ch_remoteAddr ch"

text \<open>\<^verbatim>\<open>WSChannel.Close\<close>, with the session the channel points to.\<close>

definition Channel_Close :: "WSChannel \<Rightarrow> ClientSession \<Rightarrow> ClientSession" where
  "Channel_Close ch s = RemoveChannel (ch_id ch) (s\<lparr>cs_streams_closed := ch_stream ch # cs_streams_closed s\<rparr>)"

section \<open>The accept loops\<close>

text \<open>
  What happens to a session: the loop accepts a stream at a time in nanoseconds, its \<^verbatim>\<open>AcceptStream\<close>
  fails, another goroutine closes the session, or a handler ends and closes its channel.
\<close>

datatype session_event = StreamAccepted nat int | AcceptFailed | ClosedElsewhere | HandlerEnded WSChannel

definition channel_id :: "int \<Rightarrow> 32 word" where
  "channel_id nanos = of_int nanos"

fun session_step :: "session_event \<Rightarrow> ClientSession \<Rightarrow> ClientSession option" where
  "session_step (StreamAccepted stream now) s = AddChannel (NewWSChannel stream (channel_id now) now) s"
| "session_step AcceptFailed s = Some (CS_Close s)"
| "session_step ClosedElsewhere s = Some (CS_Close s)"
| "session_step (HandlerEnded ch) s = Some (Channel_Close ch s)"

fun session_run :: "session_event list \<Rightarrow> ClientSession \<Rightarrow> ClientSession option" where
  "session_run [] s = Some s"
| "session_run (e # es) s = (case session_step e s of None \<Rightarrow> None | Some s' \<Rightarrow> session_run es s')"

section \<open>Contracts\<close>

definition channel_at :: "ClientSession \<Rightarrow> 32 word \<Rightarrow> WSChannel option" where
  "channel_at s k = (case cs_channels s of None \<Rightarrow> None | Some m \<Rightarrow> m k)"

lemma channel_at_simps [simp]:
  "AddChannel ch s = Some s' \<Longrightarrow> channel_at s' k = (if k = ch_id ch then Some ch else channel_at s k)"
  "channel_at (RemoveChannel cid s) k = (if k = cid then None else channel_at s k)"
  "channel_at (Channel_Close ch s) k = (if k = ch_id ch then None else channel_at s k)"
  "channel_at (CS_Close s) k = (if cs_closeOnce s then channel_at s k else None)"
  "channel_at (NewClientSession i) k = None"
  by (auto simp: channel_at_def AddChannel_def RemoveChannel_def Channel_Close_def CS_Close_def
      NewClientSession_def split: option.splits)

interpretation cs_lifecycle: closable CS_Close cs_closeOnce
  by unfold_locales (auto simp: CS_Close_def)

interpretation chn: key_table channel_at ch_id AddChannel RemoveChannel
  by unfold_locales simp_all

section \<open>What a session tracks\<close>

text \<open>The specification: the channels whose handlers run.\<close>

fun track :: "session_event list \<Rightarrow> WSChannel list \<Rightarrow> WSChannel list" where
  "track [] cs = cs"
| "track (StreamAccepted stream now # es) cs = track es (NewWSChannel stream (channel_id now) now # cs)"
| "track (AcceptFailed # es) cs = track es []"
| "track (ClosedElsewhere # es) cs = track es []"
| "track (HandlerEnded ch # es) cs = track es (remove1 ch cs)"

fun accepted_channels :: "session_event list \<Rightarrow> WSChannel list" where
  "accepted_channels [] = []"
| "accepted_channels (StreamAccepted stream now # es) =
     NewWSChannel stream (channel_id now) now # accepted_channels es"
| "accepted_channels (_ # es) = accepted_channels es"

fun ended_channels :: "session_event list \<Rightarrow> WSChannel list" where
  "ended_channels [] = []"
| "ended_channels (HandlerEnded ch # es) = ch # ended_channels es"
| "ended_channels (_ # es) = ended_channels es"

lemma closed_holds: "chn.holds (CS_Close s) []" if "\<not> cs_closeOnce s \<or> cs_channels s = None"
  using that by (auto simp: chn.holds_def channel_at_def CS_Close_def)

lemma AddChannel_frame: "AddChannel ch s = Some s' \<Longrightarrow> cs_closeOnce s' = cs_closeOnce s \<and> cs_channels s' \<noteq> None"
  by (auto simp: AddChannel_def split: option.splits)

lemma distinct_map_remove1: "distinct (List.map f xs) \<Longrightarrow> distinct (List.map f (remove1 x xs))"
  by (induction xs) (auto dest: set_mp [OF set_remove1_subset])

text \<open>The nil map is left only by a close.\<close>

definition cs_inv :: "ClientSession \<Rightarrow> bool" where
  "cs_inv s \<longleftrightarrow> (cs_closeOnce s \<longleftrightarrow> cs_channels s = None) \<and> cs_done s = cs_closeOnce s
     \<and> cs_smux_closed s = cs_closeOnce s \<and> cs_ws_closed s = cs_closeOnce s"

lemma session_step_inv: "session_step e s = Some s' \<Longrightarrow> cs_inv s \<Longrightarrow> cs_inv s'"
  by (cases e) (auto simp: cs_inv_def AddChannel_def CS_Close_def Channel_Close_def RemoveChannel_def
      split: option.splits)

lemma session_run_inv: "session_run es s = Some s' \<Longrightarrow> cs_inv s \<Longrightarrow> cs_inv s'"
  by (induction es arbitrary: s) (auto split: option.splits dest: session_step_inv)

lemma Channel_Close_holds:
  assumes "chn.holds s cs" "\<And>d. d \<in> set cs \<Longrightarrow> ch_id d = ch_id ch \<Longrightarrow> d = ch"
  shows "chn.holds (Channel_Close ch s) (remove1 ch cs)"
proof -
  have "chn.holds (s\<lparr>cs_streams_closed := x\<rparr>) cs" for x
    using assms(1) by (simp add: chn.holds_def channel_at_def)
  from chn.holds_del [OF this assms(2)] show ?thesis by (simp add: Channel_Close_def)
qed

lemma session_run_tracks:
  "session_run es s = Some s' \<Longrightarrow> cs_inv s \<Longrightarrow> chn.holds s cs \<Longrightarrow>
     distinct (List.map ch_id (cs @ accepted_channels es)) \<Longrightarrow>
     inj_on ch_id (set cs \<union> set (accepted_channels es) \<union> set (ended_channels es)) \<Longrightarrow>
     chn.holds s' (track es cs)"
proof (induction es arbitrary: s cs)
  case Nil
  then show ?case by simp
next
  case (Cons e es)
  then obtain s1 where s1: "session_step e s = Some s1" "session_run es s1 = Some s'"
    by (auto split: option.splits)
  have inv1: "cs_inv s1" using session_step_inv [OF s1(1) Cons.prems(2)] .
  show ?case
  proof (cases e)
    case (StreamAccepted stream now)
    let ?ch = "NewWSChannel stream (channel_id now) now"
    have "chn.holds s1 (?ch # cs)"
      using s1(1) StreamAccepted Cons.prems(3,4) by (intro chn.holds_put [of s]) auto
    from Cons.IH [OF s1(2) inv1 this] show ?thesis
      using Cons.prems(4,5) StreamAccepted by (auto simp: Un_commute)
  next
    case (HandlerEnded ch)
    have "d = ch" if "d \<in> set cs" "ch_id d = ch_id ch" for d
      using inj_onD [OF Cons.prems(5) that(2)] that(1) HandlerEnded by simp
    then have "chn.holds s1 (remove1 ch cs)"
      using s1(1) HandlerEnded Cons.prems(3) by (auto intro: Channel_Close_holds)
    moreover have "distinct (List.map ch_id (remove1 ch cs @ accepted_channels es))"
      using Cons.prems(4) HandlerEnded distinct_map_remove1 [of ch_id cs ch] set_remove1_subset [of ch cs]
      by auto
    moreover have "inj_on ch_id (set (remove1 ch cs) \<union> set (accepted_channels es) \<union> set (ended_channels es))"
      using Cons.prems(5) HandlerEnded set_remove1_subset [of ch cs] by (elim inj_on_subset) auto
    ultimately show ?thesis using Cons.IH [OF s1(2) inv1] HandlerEnded by simp
  qed (use s1 inv1 Cons closed_holds [of s] in
    \<open>auto simp: cs_inv_def intro!: Cons.IH intro: inj_on_subset\<close>)+
qed

section \<open>Properties\<close>



text \<open>
  Two streams accepted a multiple of 2^32 nanoseconds apart (about 4.3 seconds) share a channel
  id, because the id is the time cut to 32 bits. The table then holds only the later one, and when
  the earlier one's handler ends, the later one, still running, is not in the table any more.
\<close>

theorem channel_id_collision:
  assumes "t2 = t1 + k * 2 ^ 32"
    "session_run [StreamAccepted a t1, StreamAccepted b t2] (NewClientSession client) = Some s"
  shows "channel_at s (channel_id t1) = Some (NewWSChannel b (channel_id t2) t2)
    \<and> channel_at (Channel_Close (NewWSChannel a (channel_id t1) t1) s) (channel_id t2) = None"
proof -
  have "(of_int (k * 2 ^ 32) :: 32 word) = 0" by (transfer, simp add: take_bit_eq_mod)
  then have eq: "channel_id t2 = channel_id t1" by (simp add: channel_id_def assms(1))
  from assms(2) obtain s1 where "AddChannel (NewWSChannel a (channel_id t1) t1) (NewClientSession client) = Some s1"
    "AddChannel (NewWSChannel b (channel_id t2) t2) s1 = Some s"
    by (auto split: option.splits)
  from chn.put_put_del [OF this] eq show ?thesis by (simp add: NewWSChannel_def)
qed

theorem channel_id_collision_witness:
  "\<exists>s. session_run [StreamAccepted 1 7, StreamAccepted 3 4294967303] (NewClientSession ''u'') = Some s
     \<and> channel_at (Channel_Close (NewWSChannel 1 7 7) s) 7 = None"
proof -
  obtain s where s: "session_run [StreamAccepted 1 7, StreamAccepted 3 4294967303] (NewClientSession ''u'') = Some s"
    by (simp add: AddChannel_def NewClientSession_def)
  have "(4294967303 :: int) = 7 + 1 * 2 ^ 32" by simp
  from channel_id_collision [OF this s] s show ?thesis
    by (intro exI [of _ s]) (simp add: channel_id_def NewWSChannel_def)
qed

text \<open>Some stream is accepted behind a close; the flag says whether one has happened.\<close>

fun late_accept :: "bool \<Rightarrow> session_event list \<Rightarrow> bool" where
  "late_accept c [] = False"
| "late_accept c (StreamAccepted stream now # es) = (c \<or> late_accept c es)"
| "late_accept c (HandlerEnded ch # es) = late_accept c es"
| "late_accept c (_ # es) = late_accept True es"


end
