(* ===== verification/GoIO.thy ===== *)
theory GoIO
  imports Prelude
begin

text \<open>
  The connections the program talks over (\<^verbatim>\<open>net.Conn\<close>, \<^verbatim>\<open>smux.Stream\<close>, \<^verbatim>\<open>io.Reader\<close>,
  \<^verbatim>\<open>io.Writer\<close>) as explicit state, with \<^verbatim>\<open>io.ReadFull\<close>, \<^verbatim>\<open>Write\<close>, \<^verbatim>\<open>Close\<close> and the
  deadline calls, and the locale contracts of message codecs over them.

  A \<^verbatim>\<open>stream\<close> holds the bytes the peer has sent and that are not read yet (\<^verbatim>\<open>s_in\<close>), the error
  a read meets behind them (\<^verbatim>\<open>s_end\<close>: end of file, a time-out, a reset), the bytes written so
  far (\<^verbatim>\<open>s_out\<close>), and a script of what the next writes do (\<^verbatim>\<open>s_wr\<close>: succeed, or accept some
  bytes and fail; an exhausted script succeeds).
\<close>

record stream =
  s_in :: bytes
  s_end :: go_error
  s_out :: bytes
  s_wr :: "(nat \<times> go_error) option list"
  s_now :: int
  s_rdl :: "int option"
  s_wdl :: "int option"
  s_closed :: bool

definition fresh_stream :: "bytes \<Rightarrow> stream" where
  "fresh_stream b = \<lparr>s_in = b, s_end = EOF, s_out = [], s_wr = [], s_now = 0,
     s_rdl = None, s_wdl = None, s_closed = False\<rparr>"

lemma fresh_stream_sel [simp]:
  "s_in (fresh_stream b) = b" "s_out (fresh_stream b) = []" "s_wr (fresh_stream b) = []"
  "s_end (fresh_stream b) = EOF"
  by (simp_all add: fresh_stream_def)

section \<open>Operations\<close>

text \<open>
  \<^verbatim>\<open>io.ReadFull(c, buf)\<close> on a buffer of \<open>n\<close> zero bytes: the buffer afterwards, the error if any,
  and the connection. A short read leaves what arrived at the front of the buffer; its error is
  the reader's own, or \<^verbatim>\<open>io.ErrUnexpectedEOF\<close> when some bytes came before the end of file.
\<close>

definition ReadFull_into :: "nat \<Rightarrow> stream \<Rightarrow> bytes \<times> go_error option \<times> stream" where
  "ReadFull_into n s =
     (if n \<le> length (s_in s)
      then (take n (s_in s), None, s\<lparr>s_in := drop n (s_in s)\<rparr>)
      else (s_in s @ replicate (n - length (s_in s)) 0,
            Some (if s_in s \<noteq> [] \<and> s_end s = EOF then UnexpectedEOF else s_end s),
            s\<lparr>s_in := []\<rparr>))"

definition ReadFull :: "nat \<Rightarrow> stream \<Rightarrow> bytes res \<times> stream" where
  "ReadFull n s = (case ReadFull_into n s of
     (b, None, s') \<Rightarrow> (Inr b, s')
   | (b, Some e, s') \<Rightarrow> (Inl e, s'))"

definition Write :: "bytes \<Rightarrow> stream \<Rightarrow> nat res \<times> stream" where
  "Write b s = (case s_wr s of
     [] \<Rightarrow> (Inr (length b), s\<lparr>s_out := s_out s @ b\<rparr>)
   | None # ws \<Rightarrow> (Inr (length b), s\<lparr>s_out := s_out s @ b, s_wr := ws\<rparr>)
   | Some (n, e) # ws \<Rightarrow> (Inl e, s\<lparr>s_out := s_out s @ take n b, s_wr := ws\<rparr>))"

definition Close :: "stream \<Rightarrow> stream" where
  "Close s = s\<lparr>s_closed := True\<rparr>"

text \<open>\<^verbatim>\<open>SetReadDeadline(time.Now().Add(t))\<close> and its reset to the zero time.\<close>

definition SetReadDeadline :: "int \<Rightarrow> stream \<Rightarrow> stream" where
  "SetReadDeadline t s = s\<lparr>s_rdl := Some (s_now s + t)\<rparr>"

definition ClearReadDeadline :: "stream \<Rightarrow> stream" where
  "ClearReadDeadline s = s\<lparr>s_rdl := None\<rparr>"

definition SetWriteDeadline :: "int \<Rightarrow> stream \<Rightarrow> stream" where
  "SetWriteDeadline t s = s\<lparr>s_wdl := Some (s_now s + t)\<rparr>"

definition ClearWriteDeadline :: "stream \<Rightarrow> stream" where
  "ClearWriteDeadline s = s\<lparr>s_wdl := None\<rparr>"

definition SetDeadline :: "int \<Rightarrow> stream \<Rightarrow> stream" where
  "SetDeadline t s = SetReadDeadline t (SetWriteDeadline t s)"

definition ClearDeadline :: "stream \<Rightarrow> stream" where
  "ClearDeadline s = ClearReadDeadline (ClearWriteDeadline s)"

lemmas deadline_defs =
  SetReadDeadline_def ClearReadDeadline_def SetWriteDeadline_def ClearWriteDeadline_def
  SetDeadline_def ClearDeadline_def

section \<open>Rules for reads and writes\<close>

lemma ReadFull_ok [go_io]:
  "n \<le> length (s_in s) \<Longrightarrow> ReadFull n s = (Inr (take n (s_in s)), s\<lparr>s_in := drop n (s_in s)\<rparr>)"
  by (simp add: ReadFull_def ReadFull_into_def)

lemma ReadFull_short [go_io]:
  "length (s_in s) < n \<Longrightarrow> ReadFull n s =
     (Inl (if s_in s \<noteq> [] \<and> s_end s = EOF then UnexpectedEOF else s_end s), s\<lparr>s_in := []\<rparr>)"
  by (simp add: ReadFull_def ReadFull_into_def)

lemma ReadFull_append [go_io]:
  "s_in s = a @ b \<Longrightarrow> length a = n \<Longrightarrow> ReadFull n s = (Inr a, s\<lparr>s_in := b\<rparr>)"
  by (simp add: ReadFull_ok)

lemma ReadFull_0 [simp]: "ReadFull 0 s = (Inr [], s)"
  by (simp add: ReadFull_ok)

lemma ReadFull_Inr_iff:
  "ReadFull n s = (Inr b, s') \<longleftrightarrow>
     n \<le> length (s_in s) \<and> b = take n (s_in s) \<and> s' = s\<lparr>s_in := drop n (s_in s)\<rparr>"
  by (auto simp: ReadFull_def ReadFull_into_def split: if_splits)

lemma ReadFull_Inl_iff:
  "ReadFull n s = (Inl e, s') \<longleftrightarrow>
     length (s_in s) < n \<and> s' = s\<lparr>s_in := []\<rparr> \<and>
     e = (if s_in s \<noteq> [] \<and> s_end s = EOF then UnexpectedEOF else s_end s)"
  by (auto simp: ReadFull_def ReadFull_into_def split: if_splits)

lemma Write_ok [go_io]:
  "s_wr s = [] \<Longrightarrow> Write b s = (Inr (length b), s\<lparr>s_out := s_out s @ b\<rparr>)"
  by (simp add: Write_def)

lemma Write_frame:
  assumes "Write b s = (r, s')"
  shows "s_in s' = s_in s \<and> s_end s' = s_end s \<and> s_now s' = s_now s \<and> s_rdl s' = s_rdl s
    \<and> s_wdl s' = s_wdl s \<and> s_closed s' = s_closed s"
  using assms by (auto simp: Write_def split: list.splits option.splits)

lemma Write_Inr:
  assumes "Write b s = (Inr n, s')"
  shows "s_out s' = s_out s @ b \<and> n = length b"
  using assms by (auto simp: Write_def split: list.splits option.splits)

text \<open>A write, successful or not, appends a prefix of its bytes.\<close>

lemma Write_prefix:
  assumes "Write b s = (r, s')"
  obtains k where "s_out s' = s_out s @ take k b"
  using assms by (auto simp: Write_def split: list.splits option.splits intro: that [of "length b"] that)

end
