(* ===== verification/Codec.thy ===== *)
theory Codec
  imports GoIO
begin

text \<open>
  The contract between the two ends of a message format: \<^verbatim>\<open>message_codec\<close> says that a writer
  appends the encoding of a message and that the matching reader takes exactly that encoding off
  the front of its input; \<^verbatim>\<open>framed_codec\<close> adds that a reader never accepts a cut-off message.
  What both give for sequences of messages is proved here once; the handshake, the stream header,
  the chunks and the UDP messages interpret them.
\<close>

text \<open>A writer that appends all of some bytes or fails behind a part of them; such writers in sequence.\<close>

definition appends :: "(stream \<Rightarrow> 'a res \<times> stream) \<Rightarrow> bytes \<Rightarrow> bool" where
  "appends w b \<longleftrightarrow> (\<forall>s x s1. w s = (x, s1) \<longrightarrow>
     (\<forall>v. x = Inr v \<longrightarrow> s_out s1 = s_out s @ b) \<and> (\<exists>k. s_out s1 = s_out s @ take k b))"

lemma appends_Write: "appends (Write b) b"
  using Write_Inr Write_prefix unfolding appends_def by metis

lemma appends_nothing: "appends (\<lambda>s. (Inr v, s)) []"
  by (simp add: appends_def)

lemma appends_if: "length b = n \<Longrightarrow> appends (\<lambda>s. if n > 0 then Write b s else (Inr 0, s)) b"
  using appends_Write [of b] appends_nothing by (cases b) auto

lemma appends_bind:
  assumes "appends w p" "\<And>v. appends (f v) q"
  shows "appends (\<lambda>s. case w s of (Inl e, s1) \<Rightarrow> (Inl e, s1) | (Inr v, s1) \<Rightarrow> f v s1) (p @ q)"
  unfolding appends_def
proof (intro allI impI)
  fix s x s1
  assume r: "(case w s of (Inl e, s1) \<Rightarrow> (Inl e, s1) | (Inr v, s1) \<Rightarrow> f v s1) = (x, s1)"
  obtain y s2 where w: "w s = (y, s2)" by fastforce
  show "(\<forall>v. x = Inr v \<longrightarrow> s_out s1 = s_out s @ p @ q) \<and> (\<exists>k. s_out s1 = s_out s @ take k (p @ q))"
  proof (cases y)
    case (Inl e)
    from assms(1) w obtain k where "s_out s2 = s_out s @ take k p" unfolding appends_def by blast
    then have "s_out s2 = s_out s @ take (min k (length p)) (p @ q)" by (simp add: min_def)
    moreover have "s2 = s1" "\<forall>v. x \<noteq> Inr v" using r w Inl by auto
    ultimately show ?thesis by blast
  next
    case (Inr v)
    with assms(1) w have "s_out s2 = s_out s @ p" unfolding appends_def by blast
    moreover from r w Inr have f: "f v s2 = (x, s1)" by simp
    with assms(2) obtain k where "\<forall>v. x = Inr v \<longrightarrow> s_out s1 = s_out s2 @ q" "s_out s1 = s_out s2 @ take k q"
      unfolding appends_def by meson
    ultimately show ?thesis by (auto intro: exI [of _ "length p + k"])
  qed
qed

text \<open>Writing a list of messages until one fails, and reading a number of them.\<close>

fun write_all :: "('a \<Rightarrow> stream \<Rightarrow> unit res \<times> stream) \<Rightarrow> 'a list \<Rightarrow> stream \<Rightarrow> unit res \<times> stream" where
  "write_all wr [] s = (Inr (), s)"
| "write_all wr (x # xs) s = (case wr x s of
     (Inl e, s') \<Rightarrow> (Inl e, s')
   | (Inr _, s') \<Rightarrow> write_all wr xs s')"

fun read_n :: "(stream \<Rightarrow> 'a res \<times> stream) \<Rightarrow> nat \<Rightarrow> stream \<Rightarrow> 'a list res \<times> stream" where
  "read_n rd 0 s = (Inr [], s)"
| "read_n rd (Suc n) s = (case rd s of
     (Inl e, s') \<Rightarrow> (Inl e, s')
   | (Inr x, s') \<Rightarrow> (case read_n rd n s' of
        (Inl e, s'') \<Rightarrow> (Inl e, s'')
      | (Inr xs, s'') \<Rightarrow> (Inr (x # xs), s'')))"

locale message_codec =
  fixes ok :: "'a \<Rightarrow> bool"
    and enc :: "'a \<Rightarrow> bytes"
    and wr :: "'a \<Rightarrow> stream \<Rightarrow> unit res \<times> stream"
    and rd :: "stream \<Rightarrow> 'a res \<times> stream"
  assumes wr_enc: "ok x \<Longrightarrow> s_wr s = [] \<Longrightarrow>
      \<exists>s'. wr x s = (Inr (), s') \<and> s_out s' = s_out s @ enc x \<and> s_wr s' = []"
    and rd_enc: "ok x \<Longrightarrow> s_in s = enc x @ rest \<Longrightarrow> \<exists>s'. rd s = (Inr x, s') \<and> s_in s' = rest"
begin

lemma write_all_enc:
  "list_all ok xs \<Longrightarrow> s_wr s = [] \<Longrightarrow>
     \<exists>s'. write_all wr xs s = (Inr (), s') \<and> s_out s' = s_out s @ concat (List.map enc xs) \<and> s_wr s' = []"
proof (induction xs arbitrary: s)
  case Nil
  then show ?case by simp
next
  case (Cons x xs)
  then obtain s1 where s1: "wr x s = (Inr (), s1)" "s_out s1 = s_out s @ enc x" "s_wr s1 = []"
    using wr_enc [of x s] by auto
  with Cons.IH [of s1] Cons.prems obtain s' where
    "write_all wr xs s1 = (Inr (), s')" "s_out s' = s_out s1 @ concat (List.map enc xs)" "s_wr s' = []"
    by auto
  with s1 show ?case by simp
qed

lemma read_n_enc:
  "list_all ok xs \<Longrightarrow> s_in s = concat (List.map enc xs) @ rest \<Longrightarrow>
     \<exists>s'. read_n rd (length xs) s = (Inr xs, s') \<and> s_in s' = rest"
proof (induction xs arbitrary: s)
  case Nil
  then show ?case by simp
next
  case (Cons x xs)
  then obtain s1 where s1: "rd s = (Inr x, s1)" "s_in s1 = concat (List.map enc xs) @ rest"
    using rd_enc [of x s "concat (List.map enc xs) @ rest"] by auto
  from Cons.prems have "list_all ok xs" by simp
  from Cons.IH [OF this s1(2)] obtain s' where
    "read_n rd (length xs) s1 = (Inr xs, s')" "s_in s' = rest"
    by blast
  with s1 show ?case by simp
qed

text \<open>End to end: what is written on one end of a connection is read at the other, in order.\<close>

lemma transfer:
  assumes "list_all ok xs" "s_wr w = []" "s_out w = []"
    and "write_all wr xs w = (r, w')" "s_in s = s_out w' @ rest"
  shows "r = Inr () \<and> (\<exists>s'. read_n rd (length xs) s = (Inr xs, s') \<and> s_in s' = rest)"
proof -
  from write_all_enc [OF assms(1,2)] assms(3,4)
  have "r = Inr ()" "s_out w' = concat (List.map enc xs)" by auto
  with read_n_enc [OF assms(1)] assms(5) show ?thesis by auto
qed

lemma prefix_free:
  assumes "ok x" "ok y" "enc x = enc y @ zs"
  shows "x = y \<and> zs = []"
proof -
  let ?s = "fresh_stream (enc x)"
  have s: "s_in ?s = enc x" by (simp add: fresh_stream_def)
  from rd_enc [OF assms(1), of ?s "[]"] s obtain s1 where x: "rd ?s = (Inr x, s1)" "s_in s1 = []"
    by auto
  from s assms(3) have "s_in ?s = enc y @ zs" by simp
  from rd_enc [OF assms(2) this] obtain s2 where "rd ?s = (Inr y, s2)" "s_in s2 = zs"
    by blast
  with x show ?thesis by simp
qed

text \<open>Messages at the front of a sequence of messages are the first of them.\<close>

lemma front_of:
  "list_all ok xs \<Longrightarrow> list_all ok ys \<Longrightarrow> \<forall>x. enc x \<noteq> [] \<Longrightarrow>
     concat (List.map enc ys) = concat (List.map enc xs) @ r \<Longrightarrow> \<exists>zs. ys = xs @ zs"
proof (induction xs arbitrary: ys)
  case (Cons x xs)
  then obtain y ys1 where ys: "ys = y # ys1" by (cases ys) auto
  let ?s = "fresh_stream (concat (List.map enc ys))"
  from Cons.prems ys have ok: "ok x" "ok y" "list_all ok xs" "list_all ok ys1"
    "s_in ?s = enc y @ concat (List.map enc ys1)" "s_in ?s = enc x @ concat (List.map enc xs) @ r" by simp_all
  from rd_enc [OF ok(2,5)] rd_enc [OF ok(1,6)] have
    "y = x" "concat (List.map enc ys1) = concat (List.map enc xs) @ r" by auto
  with Cons.IH [OF ok(3,4) Cons.prems(3)] ys show ?case by auto
qed simp

end

locale framed_codec = message_codec +
  assumes rd_cut: "ok x \<Longrightarrow> k < length (enc x) \<Longrightarrow> s_in s = take k (enc x) \<Longrightarrow>
      \<exists>e s'. rd s = (Inl e, s')"
begin

text \<open>However a sequence of messages is cut off, reading all of them reports an error.\<close>

lemma read_n_cut:
  "list_all ok xs \<Longrightarrow> k < length (concat (List.map enc xs)) \<Longrightarrow>
     s_in s = take k (concat (List.map enc xs)) \<Longrightarrow> \<exists>e s'. read_n rd (length xs) s = (Inl e, s')"
proof (induction xs arbitrary: s k)
  case Nil
  then show ?case by simp
next
  case (Cons x xs)
  show ?case
  proof (cases "k < length (enc x)")
    case True
    then have "\<exists>e s'. rd s = (Inl e, s')"
      using Cons.prems by (intro rd_cut [of x k]) auto
    then show ?thesis by auto
  next
    case False
    then have "s_in s = enc x @ take (k - length (enc x)) (concat (List.map enc xs))"
      using Cons.prems by simp
    then obtain s1 where s1: "rd s = (Inr x, s1)"
        "s_in s1 = take (k - length (enc x)) (concat (List.map enc xs))"
      using rd_enc [of x s "take (k - length (enc x)) (concat (List.map enc xs))"] Cons.prems
      by auto
    moreover have "k - length (enc x) < length (concat (List.map enc xs))"
      using False Cons.prems by auto
    ultimately obtain e s' where "read_n rd (length xs) s1 = (Inl e, s')"
      using Cons.IH [of "k - length (enc x)" s1] Cons.prems by auto
    with s1 show ?thesis by auto
  qed
qed

end

end
