(* ===== verification/Constants.thy ===== *)
theory Constants
  imports Prelude
begin

text \<open>The protocol's numbers, \<^verbatim>\<open>internal/constants/constants.go\<close>.\<close>

definition IPStrategyIPv4Only :: byte where "IPStrategyIPv4Only = 0x01"
definition IPStrategyIPv6Only :: byte where "IPStrategyIPv6Only = 0x02"
definition IPStrategyIPv4Prefer :: byte where "IPStrategyIPv4Prefer = 0x03"
definition IPStrategyIPv6Prefer :: byte where "IPStrategyIPv6Prefer = 0x04"
definition StreamKindPing :: byte where "StreamKindPing = 0x01"
definition StreamKindTCP :: byte where "StreamKindTCP = 0x02"
definition StreamKindUDP :: byte where "StreamKindUDP = 0x03"
definition HandshakeReq :: byte where "HandshakeReq = 0x10"
definition HandshakeResp :: byte where "HandshakeResp = 0x11"
definition HandshakeOK :: byte where "HandshakeOK = 0x00"
definition HandshakeFail :: byte where "HandshakeFail = 0xFF"
definition UUIDLength :: nat where "UUIDLength = 16"

lemmas strategy_consts [simp] =
  IPStrategyIPv4Only_def IPStrategyIPv6Only_def IPStrategyIPv4Prefer_def IPStrategyIPv6Prefer_def

lemmas kind_consts [simp] = StreamKindPing_def StreamKindTCP_def StreamKindUDP_def

lemmas handshake_consts [simp] =
  HandshakeReq_def HandshakeResp_def HandshakeOK_def HandshakeFail_def UUIDLength_def

end
