(* ===== verification/Handshake.thy ===== *)
theory Handshake
  imports Codec Constants
begin

text \<open>
  The authentication handshake, \<^verbatim>\<open>internal/protocol/handshake.go\<close>. The client sends
  \<^verbatim>\<open>0x10\<close> and its 16-byte UUID; the server answers \<^verbatim>\<open>0x11\<close> and a result code. Each routine
  sets a deadline and clears it on every return, which the source does with \<^verbatim>\<open>defer\<close>.
\<close>

definition WriteHandshakeRequest :: "bytes \<Rightarrow> int \<Rightarrow> stream \<Rightarrow> unit res \<times> stream" where
  "WriteHandshakeRequest uuid timeout conn =
     (if timeout \<le> 0 then (Inl (Errorf ''timeout must be > 0''), conn)
      else let s1 = SetWriteDeadline timeout conn;
               buf = HandshakeReq # uuid
        in case Write buf s1 of
             (Inl e, s2) \<Rightarrow> (Inl e, ClearWriteDeadline s2)
           | (Inr _, s2) \<Rightarrow> (Inr (), ClearWriteDeadline s2))"

definition ReadHandshakeRequest :: "int \<Rightarrow> stream \<Rightarrow> bytes res \<times> stream" where
  "ReadHandshakeRequest timeout conn =
     (if timeout \<le> 0 then (Inl (Errorf ''timeout must be > 0''), conn)
      else let s1 = SetReadDeadline timeout conn
        in case ReadFull 1 s1 of
             (Inl e, s2) \<Rightarrow> (Inl e, ClearReadDeadline s2)
           | (Inr typ, s2) \<Rightarrow>
               (if typ ! 0 \<noteq> HandshakeReq then (Inl ErrInvalidHandshake, ClearReadDeadline s2)
                else case ReadFull UUIDLength s2 of
                   (Inl e, s3) \<Rightarrow> (Inl e, ClearReadDeadline s3)
                 | (Inr uuid, s3) \<Rightarrow> (Inr uuid, ClearReadDeadline s3)))"

definition WriteHandshakeResponse :: "byte \<Rightarrow> int \<Rightarrow> stream \<Rightarrow> unit res \<times> stream" where
  "WriteHandshakeResponse code timeout conn =
     (if timeout \<le> 0 then (Inl (Errorf ''timeout must be > 0''), conn)
      else let s1 = SetWriteDeadline timeout conn
        in case Write [HandshakeResp, code] s1 of
             (Inl e, s2) \<Rightarrow> (Inl e, ClearWriteDeadline s2)
           | (Inr _, s2) \<Rightarrow> (Inr (), ClearWriteDeadline s2))"

definition ReadHandshakeResponse :: "int \<Rightarrow> stream \<Rightarrow> byte res \<times> stream" where
  "ReadHandshakeResponse timeout conn =
     (if timeout \<le> 0 then (Inl (Errorf ''timeout must be > 0''), conn)
      else let s1 = SetReadDeadline timeout conn
        in case ReadFull 2 s1 of
             (Inl e, s2) \<Rightarrow> (Inl e, ClearReadDeadline s2)
           | (Inr resp, s2) \<Rightarrow>
               (if resp ! 0 \<noteq> HandshakeResp then (Inl ErrInvalidHandshake, ClearReadDeadline s2)
                else (Inr (resp ! 1), ClearReadDeadline s2)))"

lemmas handshake_defs =
  WriteHandshakeRequest_def ReadHandshakeRequest_def
  WriteHandshakeResponse_def ReadHandshakeResponse_def

text \<open>The two message formats keep the codec contracts for every positive time-out.\<close>

interpretation hsreq: framed_codec
  "\<lambda>u. 0 < t \<and> length u = 16" "\<lambda>u. HandshakeReq # u"
  "\<lambda>u. WriteHandshakeRequest u t" "ReadHandshakeRequest t" for t :: int
proof unfold_locales
  fix u :: bytes and s :: stream and rest
  assume "0 < t \<and> length u = 16" "s_wr s = []"
  then show "\<exists>s'. WriteHandshakeRequest u t s = (Inr (), s') \<and> s_out s' = s_out s @ HandshakeReq # u
      \<and> s_wr s' = []"
    by (simp add: handshake_defs deadline_defs go_io)
next
  fix u :: bytes and s :: stream and rest
  assume "0 < t \<and> length u = 16" "s_in s = (HandshakeReq # u) @ rest"
  then show "\<exists>s'. ReadHandshakeRequest t s = (Inr u, s') \<and> s_in s' = rest"
    by (simp add: handshake_defs deadline_defs ReadFull_ok)
next
  fix u :: bytes and k and s :: stream
  assume a: "0 < t \<and> length u = 16" "k < length (HandshakeReq # u)" "s_in s = take k (HandshakeReq # u)"
  then show "\<exists>e s'. ReadHandshakeRequest t s = (Inl e, s')"
    by (cases k) (auto simp: handshake_defs deadline_defs ReadFull_ok ReadFull_short)
qed

interpretation hsresp: framed_codec
  "\<lambda>c. 0 < t" "\<lambda>c. [HandshakeResp, c]"
  "\<lambda>c. WriteHandshakeResponse c t" "ReadHandshakeResponse t" for t :: int
proof unfold_locales
  fix c :: byte and k and s :: stream
  assume "0 < t" "k < length [HandshakeResp, c]" "s_in s = take k [HandshakeResp, c]"
  then show "\<exists>e s'. ReadHandshakeResponse t s = (Inl e, s')"
    by (simp add: handshake_defs deadline_defs ReadFull_short)
qed (auto simp: handshake_defs deadline_defs go_io)

text \<open>Exactly which inputs a server accepts.\<close>

lemma ReadHandshakeRequest_Inr_iff:
  "(\<exists>s'. ReadHandshakeRequest t s = (Inr u, s')) \<longleftrightarrow>
     0 < t \<and> 17 \<le> length (s_in s) \<and> s_in s ! 0 = HandshakeReq \<and> u = take 16 (drop 1 (s_in s))"
  by (cases "s_in s")
     (auto simp: handshake_defs deadline_defs ReadFull_def ReadFull_into_def Let_def
        split: if_splits)

lemma ReadHandshakeRequest_wrong_type:
  assumes "0 < t" "s_in s = b # rest" "b \<noteq> HandshakeReq"
  shows "fst (ReadHandshakeRequest t s) = Inl ErrInvalidHandshake"
  using assms by (simp add: handshake_defs deadline_defs ReadFull_ok)

text \<open>No routine leaves a deadline behind, whatever happens.\<close>

lemma handshake_deadlines_cleared:
  assumes "s_rdl s = None" "s_wdl s = None"
  shows "s_wdl (snd (WriteHandshakeRequest u t s)) = None \<and> s_rdl (snd (ReadHandshakeRequest t s)) = None
    \<and> s_wdl (snd (WriteHandshakeResponse c t s)) = None \<and> s_rdl (snd (ReadHandshakeResponse t s)) = None"
  using assms
  by (auto simp: handshake_defs deadline_defs Let_def split: prod.splits sum.splits)

end
