(* ===== verification/Framing.thy ===== *)
theory Framing
  imports Codec Constants
begin

text \<open>
  The messages on a multiplexed stream: the open header, the length-prefixed chunks and the UDP
  messages. Readers and writers come from three places, and each is modelled where the source has
  it: \<^verbatim>\<open>internal/protocol/stream.go\<close> (prefix \<^verbatim>\<open>protocol_\<close> where the name clashes),
  \<^verbatim>\<open>cmd/client/main.go\<close> (\<^verbatim>\<open>client_\<close>) and \<^verbatim>\<open>internal/relay/tcp.go\<close> (\<^verbatim>\<open>relay_\<close>).
\<close>

section \<open>Open header\<close>

definition ReadSmuxOpenHeader :: "stream \<Rightarrow> (byte \<times> byte \<times> string) res \<times> stream" where
  "ReadSmuxOpenHeader stream = (case ReadFull 4 stream of
     (Inl e, s1) \<Rightarrow> (Inl e, s1)
   | (Inr header, s1) \<Rightarrow>
       let kind = header ! 0; strategy = header ! 1;
           tlen = unat (get_u16 (header ! 2) (header ! 3))
       in if tlen = 0 then (Inr (kind, strategy, []), s1)
          else case ReadFull tlen s1 of
             (Inl e, s2) \<Rightarrow> (Inl e, s2)
           | (Inr buf, s2) \<Rightarrow> (Inr (kind, strategy, bytes_str buf), s2))"

definition writeSmuxOpenHeader :: "byte \<Rightarrow> byte \<Rightarrow> string \<Rightarrow> stream \<Rightarrow> unit res \<times> stream" where
  "writeSmuxOpenHeader kind strategy target w =
     (if length target > 65535 then (Inl (Errorf ''target address too long''), w)
      else case Write ([kind, strategy] @ put_u16 (of_nat (length target))) w of
         (Inl e, w1) \<Rightarrow> (Inl e, w1)
       | (Inr _, w1) \<Rightarrow>
           (if length target = 0 then (Inr (), w1)
            else case Write (str_bytes target) w1 of
               (Inl e, w2) \<Rightarrow> (Inl e, w2)
             | (Inr _, w2) \<Rightarrow> (Inr (), w2)))"

section \<open>Chunks\<close>

definition protocol_ReadChunk :: "stream \<Rightarrow> bytes res \<times> stream" where
  "protocol_ReadChunk stream = (case ReadFull 2 stream of
     (Inl e, s1) \<Rightarrow> (Inl e, s1)
   | (Inr h, s1) \<Rightarrow>
       let size = unat (get_u16 (h ! 0) (h ! 1))
       in if size = 0 then (Inr [], s1)
          else case ReadFull size s1 of
             (Inl e, s2) \<Rightarrow> (Inl e, s2)
           | (Inr data, s2) \<Rightarrow> (Inr data, s2))"

definition client_writeChunk :: "bytes \<Rightarrow> stream \<Rightarrow> unit res \<times> stream" where
  "client_writeChunk b w =
     (if length b \<ge> 65536 then (Inl (Errorf ''chunk too large''), w)
      else case Write (put_u16 (of_nat (length b))) w of
         (Inl e, w1) \<Rightarrow> (Inl e, w1)
       | (Inr _, w1) \<Rightarrow>
           (if length b = 0 then (Inr (), w1)
            else case Write b w1 of
               (Inl e, w2) \<Rightarrow> (Inl e, w2)
             | (Inr _, w2) \<Rightarrow> (Inr (), w2)))"

definition client_readChunk :: "stream \<Rightarrow> bytes res \<times> stream" where
  "client_readChunk r = (case ReadFull 2 r of
     (Inl e, s1) \<Rightarrow> (Inl e, s1)
   | (Inr h, s1) \<Rightarrow>
       let n = unat (get_u16 (h ! 0) (h ! 1))
       in if n = 0 then (Inr [], s1) else ReadFull n s1)"

definition relay_readChunk :: "stream \<Rightarrow> bytes res \<times> stream" where
  "relay_readChunk r = (case ReadFull 2 r of
     (Inl e, s1) \<Rightarrow> (Inl e, s1)
   | (Inr h, s1) \<Rightarrow>
       let n = unat (get_u16 (h ! 0) (h ! 1))
       in if n = 0 then (Inr [], s1) else ReadFull n s1)"

section \<open>UDP messages\<close>

text \<open>
  \<^verbatim>\<open>relay_writeUDPReply\<close> and \<^verbatim>\<open>client_readUDPReply\<close> are the pair in use: both lengths first,
  then the address and the payload.
\<close>

definition relay_writeUDPReply :: "string \<Rightarrow> bytes \<Rightarrow> stream \<Rightarrow> unit res \<times> stream" where
  "relay_writeUDPReply addr payload w =
     (if length addr > 65535 then (Inl (Errorf ''address too long''), w)
      else case Write (put_u16 (of_nat (length addr)) @ put_u16 (of_nat (length payload))) w of
         (Inl e, w1) \<Rightarrow> (Inl e, w1)
       | (Inr _, w1) \<Rightarrow>
           (case (if length addr > 0 then Write (str_bytes addr) w1 else (Inr 0, w1)) of
              (Inl e, w2) \<Rightarrow> (Inl e, w2)
            | (Inr _, w2) \<Rightarrow>
                (case (if length payload > 0 then Write payload w2 else (Inr 0, w2)) of
                   (Inl e, w3) \<Rightarrow> (Inl e, w3)
                 | (Inr _, w3) \<Rightarrow> (Inr (), w3))))"

definition client_writeUDPReply :: "string \<Rightarrow> bytes \<Rightarrow> stream \<Rightarrow> unit res \<times> stream" where
  "client_writeUDPReply addr payload w =
     (if length addr > 65535 then (Inl (Errorf ''address too long''), w)
      else case Write (put_u16 (of_nat (length addr)) @ put_u16 (of_nat (length payload))) w of
         (Inl e, w1) \<Rightarrow> (Inl e, w1)
       | (Inr _, w1) \<Rightarrow>
           (case (if length addr > 0 then Write (str_bytes addr) w1 else (Inr 0, w1)) of
              (Inl e, w2) \<Rightarrow> (Inl e, w2)
            | (Inr _, w2) \<Rightarrow>
                (case (if length payload > 0 then Write payload w2 else (Inr 0, w2)) of
                   (Inl e, w3) \<Rightarrow> (Inl e, w3)
                 | (Inr _, w3) \<Rightarrow> (Inr (), w3))))"

definition client_readUDPReply :: "stream \<Rightarrow> (string \<times> bytes) res \<times> stream" where
  "client_readUDPReply r = (case ReadFull 4 r of
     (Inl e, s1) \<Rightarrow> (Inl e, s1)
   | (Inr head, s1) \<Rightarrow>
       let addrLen = unat (get_u16 (head ! 0) (head ! 1));
           dataLen = unat (get_u16 (head ! 2) (head ! 3))
       in case (if addrLen > 0 then ReadFull addrLen s1 else (Inr [], s1)) of
            (Inl e, s2) \<Rightarrow> (Inl e, s2)
          | (Inr addrRaw, s2) \<Rightarrow>
              (case (if dataLen > 0 then ReadFull dataLen s2 else (Inr [], s2)) of
                 (Inl e, s3) \<Rightarrow> (Inl e, s3)
               | (Inr data, s3) \<Rightarrow> (Inr (bytes_str addrRaw, data), s3)))"

text \<open>The two formats of \<^verbatim>\<open>stream.go\<close> no caller uses; the first carries no payload length.\<close>

definition WriteUDPReply :: "string \<Rightarrow> bytes \<Rightarrow> stream \<Rightarrow> unit res \<times> stream" where
  "WriteUDPReply addr data stream =
     (if length addr > 65535 then (Inl (Errorf ''addr too long''), stream)
      else case Write (put_u16 (of_nat (length addr)) @ str_bytes addr @ data) stream of
         (Inl e, s1) \<Rightarrow> (Inl e, s1)
       | (Inr _, s1) \<Rightarrow> (Inr (), s1))"

definition WriteUDPChunk :: "string \<Rightarrow> bytes \<Rightarrow> stream \<Rightarrow> unit res \<times> stream" where
  "WriteUDPChunk addr data stream =
     (if length addr > 65535 then (Inl (Errorf ''addr too long''), stream)
      else case Write (put_u16 (of_nat (length addr)) @ str_bytes addr
                       @ put_u16 (of_nat (length data)) @ data) stream of
         (Inl e, s1) \<Rightarrow> (Inl e, s1)
       | (Inr _, s1) \<Rightarrow> (Inr (), s1))"

definition ReadUDPChunk :: "stream \<Rightarrow> (string \<times> bytes) res \<times> stream" where
  "ReadUDPChunk stream = (case ReadFull 2 stream of
     (Inl e, s1) \<Rightarrow> (Inl e, s1)
   | (Inr a, s1) \<Rightarrow>
       (case ReadFull (unat (get_u16 (a ! 0) (a ! 1))) s1 of
          (Inl e, s2) \<Rightarrow> (Inl e, s2)
        | (Inr addrBytes, s2) \<Rightarrow>
            (case ReadFull 2 s2 of
               (Inl e, s3) \<Rightarrow> (Inl e, s3)
             | (Inr d, s3) \<Rightarrow>
                 (case ReadFull (unat (get_u16 (d ! 0) (d ! 1))) s3 of
                    (Inl e, s4) \<Rightarrow> (Inl e, s4)
                  | (Inr data, s4) \<Rightarrow> (Inr (bytes_str addrBytes, data), s4)))))"

section \<open>What each writer appends\<close>

definition header_enc :: "byte \<times> byte \<times> string \<Rightarrow> bytes" where
  "header_enc h = (case h of (kind, strategy, target) \<Rightarrow>
     [kind, strategy] @ put_u16 (of_nat (length target)) @ str_bytes target)"

definition chunk_enc :: "bytes \<Rightarrow> bytes" where
  "chunk_enc b = put_u16 (of_nat (length b)) @ b"

definition udp_reply_enc :: "string \<times> bytes \<Rightarrow> bytes" where
  "udp_reply_enc m = (case m of (addr, data) \<Rightarrow>
     put_u16 (of_nat (length addr)) @ put_u16 (of_nat (length data)) @ str_bytes addr @ data)"

definition udp_chunk_enc :: "string \<times> bytes \<Rightarrow> bytes" where
  "udp_chunk_enc m = (case m of (addr, data) \<Rightarrow>
     put_u16 (of_nat (length addr)) @ str_bytes addr @ put_u16 (of_nat (length data)) @ data)"

lemmas frame_enc_defs = header_enc_def chunk_enc_def udp_reply_enc_def udp_chunk_enc_def

lemmas frame_defs =
  ReadSmuxOpenHeader_def writeSmuxOpenHeader_def client_writeChunk_def relay_readChunk_def
  client_readChunk_def protocol_ReadChunk_def relay_writeUDPReply_def client_readUDPReply_def
  WriteUDPChunk_def ReadUDPChunk_def WriteUDPReply_def client_writeUDPReply_def

lemma duplicate_routines [simp]:
  "client_readChunk = relay_readChunk"
  "client_writeUDPReply = relay_writeUDPReply"
  by (simp_all add: fun_eq_iff frame_defs)

lemma protocol_ReadChunk_eq [simp]: "protocol_ReadChunk = relay_readChunk"
  by (auto simp: fun_eq_iff frame_defs Let_def split: prod.splits sum.splits)

section \<open>Reading a field behind a length\<close>

lemma ReadFull_field [go_io]:
  "s_in s = put_u16 v @ rest \<Longrightarrow> ReadFull 2 s = (Inr (put_u16 v), s\<lparr>s_in := rest\<rparr>)"
  by (simp add: ReadFull_append)

text \<open>A read never lengthens the input, and reading past its end fails.\<close>

lemma relay_readChunk_Inr_iff:
  "(\<exists>s'. relay_readChunk s = (Inr b, s')) \<longleftrightarrow>
     2 \<le> length (s_in s) \<and>
     (let n = unat (get_u16 (s_in s ! 0) (s_in s ! 1))
      in 2 + n \<le> length (s_in s) \<and> b = take n (drop 2 (s_in s)))"
  by (auto simp: relay_readChunk_def ReadFull_def ReadFull_into_def Let_def split: if_splits)

lemma client_readUDPReply_Inr_iff:
  "(\<exists>s'. client_readUDPReply s = (Inr (a, d), s')) \<longleftrightarrow>
     4 \<le> length (s_in s) \<and>
     (let m = unat (get_u16 (s_in s ! 0) (s_in s ! 1)); n = unat (get_u16 (s_in s ! 2) (s_in s ! 3))
      in 4 + m + n \<le> length (s_in s) \<and> a = bytes_str (take m (drop 4 (s_in s)))
         \<and> d = take n (drop (4 + m) (s_in s)))"
  by (auto simp: client_readUDPReply_def ReadFull_def ReadFull_into_def Let_def add.commute
      split: if_splits)

text \<open>What is read is what the encoding of the result puts there.\<close>

lemma client_readUDPReply_split:
  assumes "client_readUDPReply s = (Inr (a, d), s1)"
  shows "s_in s = udp_reply_enc (a, d) @ s_in s1 \<and> length a \<le> 65535 \<and> length d < 65536"
proof -
  have "4 \<le> length (s_in s)"
    using assms client_readUDPReply_Inr_iff [of s a d] by (auto simp: Let_def)
  then obtain h0 h1 h2 h3 rest where h: "s_in s = h0 # h1 # h2 # h3 # rest"
    by (auto simp: Suc_le_length_iff numeral_eq_Suc)
  let ?m = "unat (get_u16 h0 h1)" and ?n = "unat (get_u16 h2 h3)"
  have r: "?m + ?n \<le> length rest" "str_bytes a = take ?m rest" "d = take ?n (drop ?m rest)" "s_in s1 = drop (?m + ?n) rest"
    using assms h by (auto simp: client_readUDPReply_def ReadFull_def ReadFull_into_def Let_def add.commute split: if_splits)
  then have len: "length a = ?m" "length d = ?n" by (auto dest: arg_cong [of _ _ length])
  have "put_u16 (of_nat (length a)) = [h0, h1]" "put_u16 (of_nat (length d)) = [h2, h3]"
    unfolding len by (simp_all add: put_u16_def)
  moreover have "rest = take ?m rest @ take ?n (drop ?m rest) @ drop (?m + ?n) rest"
    by (metis append_take_drop_id drop_drop add.commute)
  moreover have "unat w \<le> 65535" for w :: "16 word" by (rule less_Suc_eq_le [THEN iffD1]) simp
  ultimately show ?thesis using h r len by (simp add: udp_reply_enc_def)
qed

lemma ReadSmuxOpenHeader_Inr_iff:
  "(\<exists>s'. ReadSmuxOpenHeader s = (Inr (k, st, t), s')) \<longleftrightarrow>
     4 \<le> length (s_in s) \<and>
     (let n = unat (get_u16 (s_in s ! 2) (s_in s ! 3))
      in 4 + n \<le> length (s_in s) \<and> k = s_in s ! 0 \<and> st = s_in s ! 1
         \<and> t = bytes_str (take n (drop 4 (s_in s))))"
  by (auto simp: ReadSmuxOpenHeader_def ReadFull_def ReadFull_into_def Let_def split: if_splits)

section \<open>The formats keep the codec contracts\<close>

lemma res_error_cases:
  assumes "\<And>x s'. rd s \<noteq> (Inr x, s')"
  shows "\<exists>e s'. rd s = (Inl e, s')"
  using assms by (cases "rd s"; cases "fst (rd s)") auto

lemma put_u16_Cons: "put_u16 v @ rest = ucast (drop_bit 8 v) # ucast v # rest"
  by (simp add: put_u16_def)

lemma two_cases:
  obtains "k < 2" | j where "k = Suc (Suc j)"
  using less_2_cases_iff [of k] by (cases k rule: nat.exhaust; cases "k - 1" rule: nat.exhaust) auto

lemma four_cases:
  obtains "k < 4" | j where "k = Suc (Suc (Suc (Suc j)))"
proof (cases "k < 4")
  case False
  then have "k = Suc (Suc (Suc (Suc (k - 4))))" by simp
  then show thesis by (rule that(2))
qed (rule that(1))

interpretation opn: framed_codec
  "\<lambda>(k, st, t). length t \<le> 65535" header_enc
  "\<lambda>(k, st, t). writeSmuxOpenHeader k st t" ReadSmuxOpenHeader
proof unfold_locales
  fix x :: "byte \<times> byte \<times> string" and s :: stream
  assume "case x of (k, st, t) \<Rightarrow> length t \<le> 65535" "s_wr s = []"
  then show "\<exists>s'. (case x of (k, st, t) \<Rightarrow> writeSmuxOpenHeader k st t) s = (Inr (), s')
      \<and> s_out s' = s_out s @ header_enc x \<and> s_wr s' = []"
    by (cases x) (auto simp: writeSmuxOpenHeader_def header_enc_def Write_ok)
next
  fix x :: "byte \<times> byte \<times> string" and s :: stream and rest
  assume "case x of (k, st, t) \<Rightarrow> length t \<le> 65535" "s_in s = header_enc x @ rest"
  then show "\<exists>s'. ReadSmuxOpenHeader s = (Inr x, s') \<and> s_in s' = rest"
    by (cases x) (auto simp: ReadSmuxOpenHeader_def header_enc_def ReadFull_ok put_u16_Cons)
next
  fix x :: "byte \<times> byte \<times> string" and k and s :: stream
  assume a: "case x of (k, st, t) \<Rightarrow> length t \<le> 65535" "k < length (header_enc x)"
    "s_in s = take k (header_enc x)"
  show "\<exists>e s'. ReadSmuxOpenHeader s = (Inl e, s')"
  proof (rule res_error_cases)
    fix y s' show "ReadSmuxOpenHeader s \<noteq> (Inr y, s')"
      using a ReadSmuxOpenHeader_Inr_iff [of s "fst y" "fst (snd y)" "snd (snd y)"]
      by (cases x; cases k rule: four_cases) (auto simp: header_enc_def put_u16_Cons Let_def)
  qed
qed

interpretation chk: framed_codec
  "\<lambda>b. length b < 65536" chunk_enc client_writeChunk relay_readChunk
proof unfold_locales
  fix x :: bytes and s :: stream
  assume "length x < 65536" "s_wr s = []"
  then show "\<exists>s'. client_writeChunk x s = (Inr (), s') \<and> s_out s' = s_out s @ chunk_enc x \<and> s_wr s' = []"
    by (auto simp: client_writeChunk_def chunk_enc_def Write_ok)
next
  fix x :: bytes and s :: stream and rest
  assume "length x < 65536" "s_in s = chunk_enc x @ rest"
  then show "\<exists>s'. relay_readChunk s = (Inr x, s') \<and> s_in s' = rest"
    by (auto simp: relay_readChunk_def chunk_enc_def ReadFull_ok put_u16_Cons)
next
  fix x :: bytes and k and s :: stream
  assume a: "length x < 65536" "k < length (chunk_enc x)" "s_in s = take k (chunk_enc x)"
  show "\<exists>e s'. relay_readChunk s = (Inl e, s')"
  proof (rule res_error_cases)
    fix y s' show "relay_readChunk s \<noteq> (Inr y, s')"
      using a relay_readChunk_Inr_iff [of s y]
      by (cases k rule: two_cases) (auto simp: chunk_enc_def put_u16_Cons Let_def)
  qed
qed

text \<open>
  The reader on any reply the relay writes: the payload length is its 16-bit remainder, so a
  payload of 65536 bytes or more leaves its tail in the stream.
\<close>

lemma client_readUDPReply_enc:
  assumes "length a \<le> 65535" "s_in s = udp_reply_enc (a, d) @ rest"
  shows "\<exists>s'. client_readUDPReply s = (Inr (a, take (length d mod 65536) d), s')
      \<and> s_in s' = drop (length d mod 65536) d @ rest"
  using assms
  by (auto simp: client_readUDPReply_def udp_reply_enc_def ReadFull_ok put_u16_Cons unat_of_nat
      Let_def mod_less_eq_dividend)

interpretation udp: framed_codec
  "\<lambda>(a, d). length a \<le> 65535 \<and> length d < 65536" udp_reply_enc
  "\<lambda>(a, d). relay_writeUDPReply a d" client_readUDPReply
proof unfold_locales
  fix x :: "string \<times> bytes" and s :: stream
  assume "case x of (a, d) \<Rightarrow> length a \<le> 65535 \<and> length d < 65536" "s_wr s = []"
  then show "\<exists>s'. (case x of (a, d) \<Rightarrow> relay_writeUDPReply a d) s = (Inr (), s')
      \<and> s_out s' = s_out s @ udp_reply_enc x \<and> s_wr s' = []"
    by (cases x) (auto simp: relay_writeUDPReply_def udp_reply_enc_def Write_ok)
next
  fix x :: "string \<times> bytes" and s :: stream and rest
  assume "case x of (a, d) \<Rightarrow> length a \<le> 65535 \<and> length d < 65536" "s_in s = udp_reply_enc x @ rest"
  then show "\<exists>s'. client_readUDPReply s = (Inr x, s') \<and> s_in s' = rest"
    using client_readUDPReply_enc [of "fst x" s "snd x" rest] by (cases x) auto
next
  fix x :: "string \<times> bytes" and k and s :: stream
  assume a: "case x of (a, d) \<Rightarrow> length a \<le> 65535 \<and> length d < 65536"
    "k < length (udp_reply_enc x)" "s_in s = take k (udp_reply_enc x)"
  show "\<exists>e s'. client_readUDPReply s = (Inl e, s')"
  proof (rule res_error_cases)
    fix y s' show "client_readUDPReply s \<noteq> (Inr y, s')"
      using a client_readUDPReply_Inr_iff [of s "fst y" "snd y"]
      by (cases x; cases k rule: four_cases) (auto simp: udp_reply_enc_def put_u16_Cons Let_def)
  qed
qed

interpretation udpc: message_codec
  "\<lambda>(a, d). length a \<le> 65535 \<and> length d < 65536" udp_chunk_enc
  "\<lambda>(a, d). WriteUDPChunk a d" ReadUDPChunk
proof unfold_locales
  fix x :: "string \<times> bytes" and s :: stream and rest
  assume "case x of (a, d) \<Rightarrow> length a \<le> 65535 \<and> length d < 65536" "s_in s = udp_chunk_enc x @ rest"
  then show "\<exists>s'. ReadUDPChunk s = (Inr x, s') \<and> s_in s' = rest"
    by (cases x) (auto simp: ReadUDPChunk_def udp_chunk_enc_def ReadFull_ok put_u16_Cons)
qed (auto simp: WriteUDPChunk_def udp_chunk_enc_def Write_ok)

text \<open>
  The UDP datagram of the unused \<^verbatim>\<open>WriteUDPReply\<close> has no end: what it writes for a payload is
  what it writes for a shorter payload followed by arbitrary bytes.
\<close>

lemma WriteUDPReply_unframed:
  assumes "length a \<le> 65535" "s_wr s = []"
  shows "s_out (snd (WriteUDPReply a (d @ extra) s)) = s_out (snd (WriteUDPReply a d s)) @ extra"
  using assms by (simp add: WriteUDPReply_def Write_ok)

section \<open>Properties\<close>

text \<open>
  The header a client opens a stream with reaches the relay unchanged: for every kind, strategy
  byte and target of at most 65535 bytes, what \<^verbatim>\<open>writeSmuxOpenHeader\<close> puts on a stream,
  \<^verbatim>\<open>ReadSmuxOpenHeader\<close> reads back as the same triple and leaves what follows unread; a longer
  target is refused before anything is written.
\<close>

theorem open_header_roundtrip:
  assumes "s_wr w = []" "s_out w = []" "writeSmuxOpenHeader k st t w = (r, w')" "s_in s = s_out w' @ rest"
  shows "if length t \<le> 65535
    then r = Inr () \<and> (\<exists>s'. ReadSmuxOpenHeader s = (Inr (k, st, t), s') \<and> s_in s' = rest)
    else isl r \<and> w' = w"
proof (cases "length t \<le> 65535")
  case True
  have "write_all (\<lambda>(k, st, t). writeSmuxOpenHeader k st t) [(k, st, t)] w = (r, w')"
    using assms(3) by (auto split: sum.splits)
  with opn.transfer [of "[(k, st, t)]" w r w' s rest] assms True show ?thesis
    by (auto split: prod.splits sum.splits)
next
  case False
  with assms(3) show ?thesis by (auto simp: writeSmuxOpenHeader_def)
qed

theorem open_header_roundtrip_witness:
  "\<exists>s'. ReadSmuxOpenHeader (fresh_stream (s_out (snd (writeSmuxOpenHeader 2 3 ''a.b:80'' (fresh_stream []))) @ [7]))
     = (Inr (2, 3, ''a.b:80''), s') \<and> s_in s' = [7]"
  using open_header_roundtrip [of "fresh_stream []" 2 3 "''a.b:80''"
      "fst (writeSmuxOpenHeader 2 3 ''a.b:80'' (fresh_stream []))"
      "snd (writeSmuxOpenHeader 2 3 ''a.b:80'' (fresh_stream []))"
      "fresh_stream (s_out (snd (writeSmuxOpenHeader 2 3 ''a.b:80'' (fresh_stream []))) @ [7])" "[7]"]
  by (simp add: fresh_stream_def)

text \<open>
  Datagrams travel from client to relay in order and unmixed. Any sequence of chunks shorter than
  65536 bytes (empty ones included) that \<^verbatim>\<open>writeChunk\<close> puts on a stream is what as many
  \<^verbatim>\<open>readChunk\<close> calls return, with the bytes behind it left unread.
\<close>

theorem chunk_stream_roundtrip:
  assumes "list_all (\<lambda>b. length b < 65536) bs" "s_wr w = []" "s_out w = []"
    and "write_all client_writeChunk bs w = (r, w')" "s_in s = s_out w' @ rest"
  shows "r = Inr () \<and> (\<exists>s'. read_n relay_readChunk (length bs) s = (Inr bs, s') \<and> s_in s' = rest)"
  by (rule chk.transfer [OF assms])

theorem chunk_stream_roundtrip_witness:
  "\<exists>s'. read_n relay_readChunk (length [[1, 2], [], [3 :: byte]])
     (fresh_stream (s_out (snd (write_all client_writeChunk [[1, 2], [], [3]] (fresh_stream []))) @ [9]))
     = (Inr [[1, 2], [], [3]], s') \<and> s_in s' = [9]"
proof -
  have small: "list_all (\<lambda>b. length b < 65536) [[1, 2], [], [3 :: byte]]" by simp
  from chunk_stream_roundtrip [OF small fresh_stream_sel(3) fresh_stream_sel(2) prod.collapse [symmetric]
      fresh_stream_sel(1)]
  show ?thesis by blast
qed

text \<open>
  A UDP reply from relay to client. Its address always arrives. Its payload arrives whole exactly
  when it is shorter than 65536 bytes: the writer has no check on the payload and stores its length
  modulo 65536, so the reader returns that many bytes and the rest is taken for the next message.
\<close>

theorem udp_reply_roundtrip:
  assumes "length a \<le> 65535" "s_wr w = []" "s_out w = []"
    and "relay_writeUDPReply a d w = (r, w')" "s_in s = s_out w' @ rest"
  shows "r = Inr () \<and> (\<exists>s'. client_readUDPReply s = (Inr (a, take (length d mod 65536) d), s')
      \<and> s_in s' = drop (length d mod 65536) d @ rest
      \<and> (take (length d mod 65536) d = d \<longleftrightarrow> length d < 65536))"
proof -
  have "r = Inr ()" "s_out w' = udp_reply_enc (a, d)"
    using assms(1-4) by (auto simp: relay_writeUDPReply_def udp_reply_enc_def Write_ok split: if_splits)
  moreover have "take (length d mod 65536) d = d \<longleftrightarrow> length d < 65536"
  proof (cases "length d < 65536")
    case False
    have "length (take (length d mod 65536) d) < 65536" by simp
    with False have "take (length d mod 65536) d \<noteq> d" by (metis linorder_not_less)
    with False show ?thesis by simp
  qed simp
  ultimately show ?thesis
    using client_readUDPReply_enc [OF assms(1), of s d rest] assms(5) by auto
qed

theorem udp_reply_roundtrip_witness:
  "\<exists>s'. client_readUDPReply (fresh_stream (s_out (snd (relay_writeUDPReply ''1.2.3.4:5'' [1, 2] (fresh_stream []))) @ []))
     = (Inr (''1.2.3.4:5'', take (length [1, 2 :: byte] mod 65536) [1, 2]), s')"
proof -
  have "length ''1.2.3.4:5'' \<le> 65535" by simp
  from udp_reply_roundtrip [OF this fresh_stream_sel(3) fresh_stream_sel(2) prod.collapse [symmetric]
      fresh_stream_sel(1)]
  show ?thesis by blast
qed

text \<open>
  A connection that dies inside a sequence of UDP replies is noticed: however the replies' bytes
  are cut off, reading all of them ends in an error, never in a shortened message.
\<close>

theorem udp_reply_cut_detected:
  assumes "list_all (\<lambda>(a, d). length a \<le> 65535 \<and> length d < 65536) ms"
    and "k < length (concat (List.map udp_reply_enc ms))"
    and "s_in s = take k (concat (List.map udp_reply_enc ms))"
  shows "\<exists>e s'. read_n client_readUDPReply (length ms) s = (Inl e, s')"
  by (rule udp.read_n_cut [OF assms])

theorem udp_reply_cut_detected_witness:
  "\<exists>e s'. read_n client_readUDPReply 1 (fresh_stream (take 9 (udp_reply_enc (''1.2.3.4:5'', [1, 2])))) = (Inl e, s')"
  using udp_reply_cut_detected [of "[(''1.2.3.4:5'', [1, 2])]" 9
      "fresh_stream (take 9 (udp_reply_enc (''1.2.3.4:5'', [1, 2])))"]
  by (simp add: fresh_stream_def udp_reply_enc_def put_u16_def del: read_n.simps)

end
