(* ===== verification/GoStd.thy ===== *)
theory GoStd
  imports Prelude
begin

text \<open>
  What the program uses of Go's \<^verbatim>\<open>strings\<close>, \<^verbatim>\<open>strconv\<close>, \<^verbatim>\<open>encoding/hex\<close> and
  \<^verbatim>\<open>encoding/base64\<close>, on strings as byte sequences.
\<close>

section \<open>strings\<close>

definition HasPrefix :: "string \<Rightarrow> string \<Rightarrow> bool" where
  "HasPrefix s p \<longleftrightarrow> take (length p) s = p"

definition TrimPrefix :: "string \<Rightarrow> string \<Rightarrow> string" where
  "TrimPrefix s p = (if HasPrefix s p then drop (length p) s else s)"

text \<open>\<^verbatim>\<open>strings.SplitN(s, c, 2)\<close> and \<^verbatim>\<open>strings.Split(s, c)\<close> for a one-byte separator.\<close>

definition SplitN2 :: "char \<Rightarrow> string \<Rightarrow> string list" where
  "SplitN2 c s = (if c \<in> set s
     then [takeWhile (\<lambda>x. x \<noteq> c) s, tl (dropWhile (\<lambda>x. x \<noteq> c) s)] else [s])"

fun SplitAll :: "char \<Rightarrow> string \<Rightarrow> string list" where
  "SplitAll c [] = [[]]"
| "SplitAll c (x # xs) = (if x = c then [] # SplitAll c xs
     else (case SplitAll c xs of [] \<Rightarrow> [[x]] | y # ys \<Rightarrow> (x # y) # ys))"

text \<open>\<^verbatim>\<open>strings.ReplaceAll(s, "-", "")\<close> for a one-byte pattern and an empty replacement.\<close>

definition RemoveAll :: "char \<Rightarrow> string \<Rightarrow> string" where
  "RemoveAll c s = List.filter (\<lambda>x. x \<noteq> c) s"

lemma takeWhile_sep: "c \<notin> set a \<Longrightarrow> takeWhile (\<lambda>x. x \<noteq> c) (a @ c # b) = a"
  by (induction a) auto

lemma dropWhile_sep: "c \<notin> set a \<Longrightarrow> dropWhile (\<lambda>x. x \<noteq> c) (a @ c # b) = c # b"
  by (induction a) auto

lemma SplitN2_append [simp]: "c \<notin> set a \<Longrightarrow> SplitN2 c (a @ c # b) = [a, b]"
  by (simp add: SplitN2_def takeWhile_sep dropWhile_sep)

lemma SplitN2_none [simp]: "c \<notin> set a \<Longrightarrow> SplitN2 c a = [a]"
  by (simp add: SplitN2_def)

lemma SplitAll_no_sep [simp]: "c \<notin> set s \<Longrightarrow> SplitAll c s = [s]"
  by (induction s) auto

lemma SplitAll_append [simp]: "c \<notin> set a \<Longrightarrow> SplitAll c (a @ c # b) = a # SplitAll c b"
  by (induction a) auto

lemma TrimPrefix_append [simp]: "TrimPrefix (p @ s) p = s"
  by (simp add: TrimPrefix_def HasPrefix_def)

section \<open>Decimal numbers\<close>

definition is_digit :: "char \<Rightarrow> bool" where
  "is_digit c \<longleftrightarrow> 48 \<le> ord_of c \<and> ord_of c \<le> 57"

definition digit_val :: "char \<Rightarrow> nat" where
  "digit_val c = ord_of c - 48"

definition digit_char :: "nat \<Rightarrow> char" where
  "digit_char d = char_of (48 + d)"

fun dec_of_nat :: "nat \<Rightarrow> string" where
  "dec_of_nat n = (if n < 10 then [digit_char n] else dec_of_nat (n div 10) @ [digit_char (n mod 10)])"

declare dec_of_nat.simps [simp del]

text \<open>\<^verbatim>\<open>strconv.Itoa\<close> and \<^verbatim>\<open>fmt.Sprintf("%d", n)\<close>.\<close>

definition Itoa :: "int \<Rightarrow> string" where
  "Itoa n = (if n < 0 then CHR ''-'' # dec_of_nat (nat (- n)) else dec_of_nat (nat n))"

definition dec_value :: "string \<Rightarrow> nat" where
  "dec_value s = foldl (\<lambda>a c. 10 * a + digit_val c) 0 s"

text \<open>
  \<^verbatim>\<open>strconv.Atoi\<close>: an optional sign, then one or more digits, the value in the range of a 64-bit
  \<^verbatim>\<open>int\<close>; \<^verbatim>\<open>None\<close> is its error.
\<close>

definition signed_dec :: "bool \<Rightarrow> string \<Rightarrow> int option" where
  "signed_dec neg ds = (if ds = [] \<or> \<not> list_all is_digit ds then None
     else let v = int (dec_value ds); x = (if neg then - v else v)
          in if - (2 ^ 63) \<le> x \<and> x < 2 ^ 63 then Some x else None)"

fun Atoi :: "string \<Rightarrow> int option" where
  "Atoi [] = None"
| "Atoi (c # cs) = (if c = CHR ''+'' then signed_dec False cs
     else if c = CHR ''-'' then signed_dec True cs
     else signed_dec False (c # cs))"

text \<open>
  \<^verbatim>\<open>fmt.Sscanf(s, "%d", &v)\<close> on ASCII text: blanks are skipped, then an optional sign and the
  longest run of digits; what follows them is left unread.
\<close>

definition Sscanf_d :: "string \<Rightarrow> int option" where
  "Sscanf_d s = (let t = dropWhile (\<lambda>c. c = CHR '' '' \<or> ord_of c = 9) s in
     case t of [] \<Rightarrow> None
     | c # cs \<Rightarrow> (if c = CHR ''+'' then signed_dec False (takeWhile is_digit cs)
         else if c = CHR ''-'' then signed_dec True (takeWhile is_digit cs)
         else signed_dec False (takeWhile is_digit (c # cs))))"

lemma ord_digit_char [simp]: "d < 10 \<Longrightarrow> ord_of (digit_char d) = 48 + d"
  by (simp add: ord_of_def digit_char_def)

lemma is_digit_digit_char [simp]: "d < 10 \<Longrightarrow> is_digit (digit_char d)"
  by (simp add: is_digit_def)

lemma digit_val_digit_char [simp]: "d < 10 \<Longrightarrow> digit_val (digit_char d) = d"
  by (simp add: digit_val_def)

lemma dec_of_nat_neq_Nil [simp]: "dec_of_nat n \<noteq> []"
  by (subst dec_of_nat.simps) simp

lemma dec_of_nat_digits: "list_all is_digit (dec_of_nat n)"
proof (induction n rule: dec_of_nat.induct)
  case (1 n)
  then show ?case
    by (subst dec_of_nat.simps) auto
qed

lemma dec_value_dec_of_nat [simp]: "dec_value (dec_of_nat n) = n"
proof (induction n rule: dec_of_nat.induct)
  case (1 n)
  show ?case
  proof (cases "n < 10")
    case True
    then show ?thesis
      by (subst dec_of_nat.simps) (simp add: dec_value_def)
  next
    case False
    with 1 have "dec_value (dec_of_nat (n div 10)) = n div 10" by simp
    with False show ?thesis
      by (subst dec_of_nat.simps) (simp add: dec_value_def)
  qed
qed

lemma not_digit_chars [simp]:
  "\<not> is_digit (CHR '':'')" "\<not> is_digit (CHR ''+'')" "\<not> is_digit (CHR ''-'')"
  "\<not> is_digit (CHR ''.'')" "\<not> is_digit (CHR ''['')" "\<not> is_digit (CHR '']'')"
  "\<not> is_digit (CHR '' '')" "\<not> is_digit (CHR ''%'')"
  by (simp_all add: is_digit_def ord_of_def)

lemma dec_of_nat_notin: "\<not> is_digit c \<Longrightarrow> c \<notin> set (dec_of_nat n)"
  using dec_of_nat_digits [of n] by (auto simp: list_all_iff)

lemma signed_dec_dec_of_nat: "n < 2 ^ 63 \<Longrightarrow> signed_dec False (dec_of_nat n) = Some (int n)"
  using dec_of_nat_digits [of n] by (simp add: signed_dec_def)

lemma Atoi_digits: "list_all is_digit s \<Longrightarrow> Atoi s = signed_dec False s"
  by (cases s) (auto simp: signed_dec_def)

lemma Atoi_Itoa: "0 \<le> n \<Longrightarrow> n < 2 ^ 63 \<Longrightarrow> Atoi (Itoa n) = Some n"
  using Atoi_digits [OF dec_of_nat_digits, of "nat n"] signed_dec_dec_of_nat [of "nat n"]
  by (simp add: Itoa_def)

lemma Sscanf_d_dec_of_nat:
  assumes "n < 2 ^ 63"
  shows "Sscanf_d (dec_of_nat n) = Some (int n)"
proof -
  obtain c cs where c: "dec_of_nat n = c # cs"
    by (cases "dec_of_nat n") auto
  from dec_of_nat_digits [of n] c have d: "is_digit c" "list_all is_digit cs"
    by auto
  then have "takeWhile is_digit (c # cs) = c # cs"
    by (auto simp: list_all_iff takeWhile_eq_all_conv)
  moreover have "c \<noteq> CHR '' ''" "c \<noteq> CHR ''+''" "c \<noteq> CHR ''-''" "ord_of c \<noteq> 9"
    using d(1) by (auto simp: is_digit_def ord_of_def)
  ultimately show ?thesis
    using signed_dec_dec_of_nat [OF assms] c by (simp add: Sscanf_d_def)
qed

section \<open>encoding/hex\<close>

definition hex_val :: "char \<Rightarrow> nat option" where
  "hex_val c = (let v = ord_of c in
     if 48 \<le> v \<and> v \<le> 57 then Some (v - 48)
     else if 97 \<le> v \<and> v \<le> 102 then Some (v - 87)
     else if 65 \<le> v \<and> v \<le> 70 then Some (v - 55) else None)"

text \<open>\<^verbatim>\<open>hex.DecodeString\<close>; \<^verbatim>\<open>None\<close> is its error (a bad digit or an odd length).\<close>

fun hex_decode :: "string \<Rightarrow> bytes option" where
  "hex_decode [] = Some []"
| "hex_decode [c] = None"
| "hex_decode (a # b # cs) = (case (hex_val a, hex_val b) of
     (Some x, Some y) \<Rightarrow> map_option ((#) (of_nat (16 * x + y))) (hex_decode cs)
   | _ \<Rightarrow> None)"

definition hex_char :: "nat \<Rightarrow> char" where
  "hex_char d = (if d < 10 then char_of (48 + d) else char_of (87 + d))"

text \<open>The lower-case hexadecimal text of a byte sequence.\<close>

definition hex_encode :: "bytes \<Rightarrow> string" where
  "hex_encode bs = concat (List.map (\<lambda>b. [hex_char (unat b div 16), hex_char (unat b mod 16)]) bs)"

lemma hex_val_hex_char [simp]: "d < 16 \<Longrightarrow> hex_val (hex_char d) = Some d"
  by (auto simp: hex_val_def hex_char_def ord_of_def Let_def)

lemma hex_decode_length: "hex_decode s = Some b \<Longrightarrow> length s = 2 * length b"
  by (induction s arbitrary: b rule: hex_decode.induct) (auto split: option.splits)

lemma hex_decode_encode [simp]: "hex_decode (hex_encode bs) = Some bs"
proof (induction bs)
  case Nil
  then show ?case by (simp add: hex_encode_def)
next
  case (Cons b bs)
  have "unat b div 16 < 16" using unat_byte_less [of b] by linarith
  moreover have "(of_nat (16 * (unat b div 16) + unat b mod 16) :: byte) = b"
    by (simp only: mult_div_mod_eq) simp
  ultimately show ?case
    using Cons by (simp add: hex_encode_def)
qed

end
