(* ===== verification/GoNet.thy ===== *)
theory GoNet
  imports GoStd
begin

text \<open>
  What the program uses of Go's \<^verbatim>\<open>net\<close> package on values: \<^verbatim>\<open>ParseIP\<close>, \<^verbatim>\<open>IP.To4\<close>,
  \<^verbatim>\<open>IP.String\<close>, \<^verbatim>\<open>SplitHostPort\<close> and \<^verbatim>\<open>JoinHostPort\<close>. A \<^verbatim>\<open>net.IP\<close> is its byte slice; a nil
  result is \<^verbatim>\<open>None\<close>.
\<close>

type_synonym ip = bytes

section \<open>Parsing addresses\<close>

text \<open>
  The fields of a dotted address: the rest of the text, whether it stands at the start or behind a
  dot, the value and the digit count of the current octet, the octets so far.
\<close>

fun ipv4_fields :: "string \<Rightarrow> bool \<Rightarrow> nat \<Rightarrow> nat \<Rightarrow> bytes \<Rightarrow> bytes option" where
  "ipv4_fields [] edge v dl fs = (if length fs < 3 then None else Some (fs @ [of_nat v]))"
| "ipv4_fields (c # cs) edge v dl fs =
     (if is_digit c then
        (if dl = 1 \<and> v = 0 then None
         else let v' = v * 10 + digit_val c
              in if v' > 255 then None else ipv4_fields cs False v' (Suc dl) fs)
      else if c = CHR ''.'' then
        (if edge \<or> cs = [] then None
         else if length fs = 3 then None
         else ipv4_fields cs True 0 0 (fs @ [of_nat v]))
      else None)"

definition v4InV6Prefix :: bytes where
  "v4InV6Prefix = [0, 0, 0, 0, 0, 0, 0, 0, 0, 0, 0xff, 0xff]"

definition parse_ipv4 :: "string \<Rightarrow> ip option" where
  "parse_ipv4 s = map_option ((@) v4InV6Prefix) (ipv4_fields s True 0 0 [])"

text \<open>One hexadecimal group: digits read, value, rest.\<close>

fun ipv6_group :: "string \<Rightarrow> nat \<Rightarrow> nat \<Rightarrow> (nat \<times> nat \<times> string) option" where
  "ipv6_group [] off acc = Some (off, acc, [])"
| "ipv6_group (c # cs) off acc = (case hex_val c of
     None \<Rightarrow> Some (off, acc, c # cs)
   | Some d \<Rightarrow> (if off > 3 then None
       else if acc * 16 + d > 65535 then None
       else ipv6_group cs (Suc off) (acc * 16 + d)))"

text \<open>
  The loop over groups; its first argument counts the groups that still fit into 16 bytes. The
  result is the unread text, the bytes and the position of the ellipsis.
\<close>

fun ipv6_loop :: "nat \<Rightarrow> string \<Rightarrow> bytes \<Rightarrow> nat option \<Rightarrow> (string \<times> bytes \<times> nat option) option" where
  "ipv6_loop 0 s a ell = Some (s, a, ell)"
| "ipv6_loop (Suc n) s a ell = (case ipv6_group s 0 0 of
     None \<Rightarrow> None
   | Some (off, acc, rest) \<Rightarrow>
       if off = 0 then None
       else if rest \<noteq> [] \<and> hd rest = CHR ''.'' then
         (if ell = None \<and> length a \<noteq> 12 then None
          else if length a + 4 > 16 then None
          else case ipv4_fields s True 0 0 [] of
             None \<Rightarrow> None | Some f \<Rightarrow> Some ([], a @ f, ell))
       else let a' = a @ [of_nat (acc div 256), of_nat acc] in
         if rest = [] then Some ([], a', ell)
         else if hd rest \<noteq> CHR '':'' then None
         else if tl rest = [] then None
         else let s1 = tl rest in
           if hd s1 = CHR '':'' then
             (if ell \<noteq> None then None
              else if tl s1 = [] then Some ([], a', Some (length a'))
              else ipv6_loop n (tl s1) a' (Some (length a')))
           else ipv6_loop n s1 a' ell)"

definition ipv6_finish :: "string \<times> bytes \<times> nat option \<Rightarrow> ip option" where
  "ipv6_finish r = (case r of (s, a, ell) \<Rightarrow>
     if s \<noteq> [] then None
     else if length a < 16 then
       (case ell of None \<Rightarrow> None
        | Some e \<Rightarrow> Some (take e a @ replicate (16 - length a) 0 @ drop e a))
     else if ell \<noteq> None then None
     else Some a)"

text \<open>An address with a zone parses in \<^verbatim>\<open>netip\<close> but \<^verbatim>\<open>net.ParseIP\<close> returns nil for it.\<close>

definition parse_ipv6 :: "string \<Rightarrow> ip option" where
  "parse_ipv6 s =
     (if CHR ''%'' \<in> set s then None
      else if HasPrefix s ''::'' then
        (if drop 2 s = [] then Some (replicate 16 0)
         else case ipv6_loop 8 (drop 2 s) [] (Some 0) of None \<Rightarrow> None | Some r \<Rightarrow> ipv6_finish r)
      else case ipv6_loop 8 s [] None of None \<Rightarrow> None | Some r \<Rightarrow> ipv6_finish r)"

fun parse_addr :: "string \<Rightarrow> string \<Rightarrow> ip option" where
  "parse_addr whole [] = None"
| "parse_addr whole (c # cs) =
     (if c = CHR ''.'' then parse_ipv4 whole
      else if c = CHR '':'' then parse_ipv6 whole
      else if c = CHR ''%'' then None
      else parse_addr whole cs)"

definition ParseIP :: "string \<Rightarrow> ip option" where
  "ParseIP s = parse_addr s s"

definition To4 :: "ip \<Rightarrow> ip option" where
  "To4 a = (if length a = 4 then Some a
     else if length a = 16 \<and> take 12 a = v4InV6Prefix then Some (drop 12 a) else None)"

section \<open>Printing addresses\<close>

definition dotted :: "bytes \<Rightarrow> string" where
  "dotted a = dec_of_nat (unat (a ! 0)) @ ''.'' @ dec_of_nat (unat (a ! 1)) @ ''.''
     @ dec_of_nat (unat (a ! 2)) @ ''.'' @ dec_of_nat (unat (a ! 3))"

fun hex_of_nat :: "nat \<Rightarrow> string" where
  "hex_of_nat n = (if n < 16 then [hex_char n] else hex_of_nat (n div 16) @ [hex_char (n mod 16)])"

declare hex_of_nat.simps [simp del]

fun ip_groups :: "bytes \<Rightarrow> nat list" where
  "ip_groups (a # b # bs) = unat (get_u16 a b) # ip_groups bs"
| "ip_groups _ = []"

definition zero_run :: "nat list \<Rightarrow> nat \<Rightarrow> nat" where
  "zero_run gs i = length (takeWhile (\<lambda>g. g = 0) (drop i gs))"

text \<open>The first longest run of at least two zero groups, as its start and length.\<close>

definition best_zero_run :: "nat list \<Rightarrow> (nat \<times> nat) option" where
  "best_zero_run gs = foldl (\<lambda>best i. let l = zero_run gs i in
     if 2 \<le> l \<and> (case best of None \<Rightarrow> True | Some (_, m) \<Rightarrow> m < l) then Some (i, l) else best)
     None [0..<length gs]"

fun join_colon :: "string list \<Rightarrow> string" where
  "join_colon [] = []"
| "join_colon [s] = s"
| "join_colon (s # t # ss) = s @ CHR '':'' # join_colon (t # ss)"

definition ipv6_text :: "bytes \<Rightarrow> string" where
  "ipv6_text a = (let gs = ip_groups a in case best_zero_run gs of
     None \<Rightarrow> join_colon (List.map hex_of_nat gs)
   | Some (i, l) \<Rightarrow> join_colon (List.map hex_of_nat (take i gs)) @ ''::''
       @ join_colon (List.map hex_of_nat (drop (i + l) gs)))"

definition IP_String :: "ip \<Rightarrow> string" where
  "IP_String a = (if a = [] then ''<nil>''
     else case To4 a of
       Some p4 \<Rightarrow> dotted p4
     | None \<Rightarrow> (if length a = 16 then ipv6_text a else CHR ''?'' # hex_encode a))"

section \<open>Hosts and ports\<close>

definition JoinHostPort :: "string \<Rightarrow> string \<Rightarrow> string" where
  "JoinHostPort host port = (if CHR '':'' \<in> set host then ''['' @ host @ '']:'' @ port
     else host @ '':'' @ port)"

text \<open>The text before and behind the last occurrence of a character.\<close>

definition split_last :: "char \<Rightarrow> string \<Rightarrow> (string \<times> string) option" where
  "split_last c s = (if c \<in> set s
     then Some (rev (tl (dropWhile (\<lambda>x. x \<noteq> c) (rev s))), rev (takeWhile (\<lambda>x. x \<noteq> c) (rev s)))
     else None)"

definition addr_error :: "'a res" where
  "addr_error = Inl (Errorf ''address error'')"

text \<open>
  \<^verbatim>\<open>net.SplitHostPort\<close>; its distinct messages are one error. In the bracketed case the closing
  bracket is the first one of the text and must stand right before the last colon.
\<close>

definition SplitHostPort :: "string \<Rightarrow> (string \<times> string) res" where
  "SplitHostPort hp = (case split_last (CHR '':'') hp of
     None \<Rightarrow> addr_error
   | Some (front, port) \<Rightarrow>
       (if hp \<noteq> [] \<and> hd hp = CHR ''['' then
          (if CHR '']'' \<notin> set hp then addr_error
           else let host = tl (takeWhile (\<lambda>x. x \<noteq> CHR '']'') hp) in
             if front \<noteq> CHR ''['' # host @ '']'' then addr_error
             else if CHR ''['' \<in> set (tl hp) then addr_error
             else if CHR '']'' \<in> set port then addr_error
             else Inr (host, port))
        else if CHR '':'' \<in> set front then addr_error
        else if CHR ''['' \<in> set hp then addr_error
        else if CHR '']'' \<in> set hp then addr_error
        else Inr (front, port)))"

text \<open>
  The callers that drop the error (\<^verbatim>\<open>host, port, _ := net.SplitHostPort(a)\<close>) see empty strings.
\<close>

definition SplitHostPort_lax :: "string \<Rightarrow> string \<times> string" where
  "SplitHostPort_lax hp = (case SplitHostPort hp of Inl _ \<Rightarrow> ([], []) | Inr r \<Rightarrow> r)"

section \<open>Facts\<close>

lemma split_last_append: "c \<notin> set b \<Longrightarrow> split_last c (a @ c # b) = Some (a, b)"
  using takeWhile_sep [of c "rev b" "rev a"] dropWhile_sep [of c "rev b" "rev a"]
  by (simp add: split_last_def)

text \<open>\<^verbatim>\<open>SplitHostPort\<close> undoes \<^verbatim>\<open>JoinHostPort\<close>.\<close>

lemma SplitHostPort_Join:
  assumes "CHR ''['' \<notin> set h" "CHR '']'' \<notin> set h"
    and "CHR '':'' \<notin> set p" "CHR ''['' \<notin> set p" "CHR '']'' \<notin> set p"
  shows "SplitHostPort (JoinHostPort h p) = Inr (h, p)"
proof (cases "CHR '':'' \<in> set h")
  case True
  have "split_last (CHR '':'') (''['' @ h @ '']:'' @ p) = Some (''['' @ h @ '']'', p)"
    using split_last_append [OF assms(3), of "''['' @ h @ '']''"] by simp
  moreover have "takeWhile (\<lambda>x. x \<noteq> CHR '']'') (CHR ''['' # h @ CHR '']'' # CHR '':'' # p) = CHR ''['' # h"
    using takeWhile_sep [OF assms(2), of "CHR '':'' # p"] by simp
  ultimately show ?thesis
    using True assms by (simp add: SplitHostPort_def JoinHostPort_def)
next
  case False
  have "split_last (CHR '':'') (h @ '':'' @ p) = Some (h, p)"
    using split_last_append [OF assms(3), of h] by simp
  then show ?thesis
    using False assms by (cases h) (auto simp: SplitHostPort_def JoinHostPort_def)
qed

lemma SplitHostPort_no_colon: "CHR '':'' \<notin> set a \<Longrightarrow> SplitHostPort a = addr_error"
  by (simp add: SplitHostPort_def split_last_def)

lemma dec_of_nat_step:
  "d < 10 \<Longrightarrow> 0 < a \<Longrightarrow> dec_of_nat (a * 10 + d) = dec_of_nat a @ [digit_char d]"
  by (subst dec_of_nat.simps) simp

lemma dec_of_nat_digit: "d < 10 \<Longrightarrow> dec_of_nat d = [digit_char d]"
  by (subst dec_of_nat.simps) simp

text \<open>A number below 1000 by its decimal digits.\<close>

lemma digits_cases:
  fixes n :: nat
  assumes "n < 1000"
  obtains (one) a where "n = a" "a < 10"
  | (two) a b where "n = a * 10 + b" "0 < a" "a < 10" "b < 10"
  | (three) a b c where "n = (a * 10 + b) * 10 + c" "0 < a" "a < 10" "b < 10" "c < 10"
proof -
  consider "n < 10" | "10 \<le> n" "n < 100" | "100 \<le> n" by linarith
  then show thesis
  proof cases
    case 1
    then show thesis using one by blast
  next
    case 2
    then show thesis using two [of "n div 10" "n mod 10"] by auto
  next
    case 3
    have "n = (n div 10 div 10 * 10 + n div 10 mod 10) * 10 + n mod 10"
      by (simp only: div_mult_mod_eq)
    moreover have "0 < n div 10 div 10" "n div 10 div 10 < 10" using 3 assms by auto
    ultimately show thesis by (rule three) simp_all
  qed
qed

lemma digit_char_not_dot [simp]: "d < 10 \<Longrightarrow> digit_char d \<noteq> CHR ''.''"
  by (metis is_digit_digit_char not_digit_chars(4))

lemma ipv4_fields_octet:
  assumes "n < 256"
  shows "\<exists>k. ipv4_fields (dec_of_nat n @ rest) True 0 0 fs = ipv4_fields rest False n k fs"
proof -
  from assms have "n < 1000" by simp
  then show ?thesis
  proof (cases rule: digits_cases)
    case (one a)
    then show ?thesis using assms by (auto simp: dec_of_nat_digit)
  next
    case (two a b)
    then show ?thesis using assms by (auto simp: dec_of_nat_digit dec_of_nat_step)
  next
    case (three a b c)
    then have "dec_of_nat n = dec_of_nat (a * 10 + b) @ [digit_char c]"
      using dec_of_nat_step [of c "a * 10 + b"] by simp
    with three assms show ?thesis
      by (auto simp: dec_of_nat_digit dec_of_nat_step)
  qed
qed

lemma ipv4_fields_dot:
  "cs \<noteq> [] \<Longrightarrow> length fs < 3 \<Longrightarrow>
     ipv4_fields (CHR ''.'' # cs) False v k fs = ipv4_fields cs True 0 0 (fs @ [of_nat v])"
  by simp

lemma parse_addr_digits:
  assumes "list_all is_digit ds"
  shows "parse_addr w (ds @ CHR ''.'' # rest) = parse_ipv4 w"
  using assms
proof (induction ds)
  case (Cons d ds)
  then have "d \<noteq> CHR ''.''" "d \<noteq> CHR '':''" "d \<noteq> CHR ''%''" by auto
  with Cons show ?case by simp
qed simp

lemma ParseIP_dotted:
  assumes "length a = 4"
  shows "ParseIP (dotted a) = Some (v4InV6Prefix @ a)"
proof -
  obtain w x y z where a: "a = [w, x, y, z]"
    using assms by (auto simp: length_Suc_conv numeral_eq_Suc)
  note oct = ipv4_fields_octet [OF unat_byte_less]
  obtain k1 where k1: "ipv4_fields (dec_of_nat (unat w) @ r) True 0 0 [] = ipv4_fields r False (unat w) k1 []"
    if "r = ''.'' @ dec_of_nat (unat x) @ ''.'' @ dec_of_nat (unat y) @ ''.'' @ dec_of_nat (unat z)" for r
    using oct by blast
  obtain k2 where k2: "ipv4_fields (dec_of_nat (unat x) @ r) True 0 0 [w] = ipv4_fields r False (unat x) k2 [w]"
    if "r = ''.'' @ dec_of_nat (unat y) @ ''.'' @ dec_of_nat (unat z)" for r
    using oct by blast
  obtain k3 where k3: "ipv4_fields (dec_of_nat (unat y) @ r) True 0 0 [w, x] = ipv4_fields r False (unat y) k3 [w, x]"
    if "r = ''.'' @ dec_of_nat (unat z)" for r
    using oct by blast
  obtain k4 where k4: "ipv4_fields (dec_of_nat (unat z)) True 0 0 [w, x, y] = ipv4_fields [] False (unat z) k4 [w, x, y]"
    using oct [of z "[]"] by auto
  have "ipv4_fields (dotted a) True 0 0 [] = Some a"
    by (simp add: dotted_def a k1 k2 k3 k4)
  moreover have "parse_addr (dotted a) (dotted a) = parse_ipv4 (dotted a)"
    using parse_addr_digits [OF dec_of_nat_digits] by (simp add: dotted_def)
  ultimately show ?thesis by (simp add: ParseIP_def parse_ipv4_def)
qed

lemma length_dec_of_nat:
  "n < 10 \<Longrightarrow> length (dec_of_nat n) \<le> 1" "n < 100 \<Longrightarrow> length (dec_of_nat n) \<le> 2"
  "n < 1000 \<Longrightarrow> length (dec_of_nat n) \<le> 3" "n < 10000 \<Longrightarrow> length (dec_of_nat n) \<le> 4"
  "n < 100000 \<Longrightarrow> length (dec_of_nat n) \<le> 5"
proof -
  have 1: "length (dec_of_nat n) \<le> 1" if "n < 10" for n using that by (simp add: dec_of_nat_digit)
  have 2: "length (dec_of_nat n) \<le> 2" if "n < 100" for n
    using that 1 [of "n div 10"] by (subst dec_of_nat.simps) simp
  have 3: "length (dec_of_nat n) \<le> 3" if "n < 1000" for n
    using that 2 [of "n div 10"] by (subst dec_of_nat.simps) simp
  have 4: "length (dec_of_nat n) \<le> 4" if "n < 10000" for n
    using that 3 [of "n div 10"] by (subst dec_of_nat.simps) simp
  have 5: "length (dec_of_nat n) \<le> 5" if "n < 100000" for n
    using that 4 [of "n div 10"] by (subst dec_of_nat.simps) simp
  show "n < 10 \<Longrightarrow> length (dec_of_nat n) \<le> 1" "n < 100 \<Longrightarrow> length (dec_of_nat n) \<le> 2"
    "n < 1000 \<Longrightarrow> length (dec_of_nat n) \<le> 3" "n < 10000 \<Longrightarrow> length (dec_of_nat n) \<le> 4"
    "n < 100000 \<Longrightarrow> length (dec_of_nat n) \<le> 5" by (rule 1 2 3 4 5; assumption)+
qed

lemma length_dotted: "length (dotted a) \<le> 15"
proof -
  have "length (dec_of_nat (unat (b :: byte))) \<le> 3" for b
    using unat_byte_less [of b] by (intro length_dec_of_nat(3)) linarith
  from this [of "a ! 0"] this [of "a ! 1"] this [of "a ! 2"] this [of "a ! 3"]
  show ?thesis by (simp add: dotted_def)
qed

lemma length_dec_u16: "length (dec_of_nat (unat (v :: 16 word))) \<le> 5"
  using unat_u16_less [of v] by (intro length_dec_of_nat(5)) linarith

lemma To4_mapped [simp]: "length a = 4 \<Longrightarrow> To4 (v4InV6Prefix @ a) = Some a"
  by (simp add: To4_def v4InV6Prefix_def)

lemma To4_length: "To4 a = Some b \<Longrightarrow> length b = 4"
  by (auto simp: To4_def v4InV6Prefix_def split: if_splits)

text \<open>Text without a dot, a colon or a percent sign is no address.\<close>

lemma parse_addr_plain:
  "CHR ''.'' \<notin> set s \<Longrightarrow> CHR '':'' \<notin> set s \<Longrightarrow> parse_addr w s = None"
  by (induction s) auto

lemma ParseIP_plain: "CHR ''.'' \<notin> set s \<Longrightarrow> CHR '':'' \<notin> set s \<Longrightarrow> ParseIP s = None"
  by (simp add: ParseIP_def parse_addr_plain)

lemma ParseIP_Nil [simp]: "ParseIP [] = None"
  by (simp add: ParseIP_def)

text \<open>Every parsed address has 16 bytes.\<close>

lemma ipv4_fields_length:
  "ipv4_fields s edge v dl fs = Some b \<Longrightarrow> length fs \<le> 3 \<Longrightarrow> length b = 4"
  by (induction s edge v dl fs rule: ipv4_fields.induct) (auto split: if_splits simp: Let_def)

definition ell_ok :: "nat option \<Rightarrow> bytes \<Rightarrow> bool" where
  "ell_ok ell a \<longleftrightarrow> (case ell of None \<Rightarrow> True | Some e \<Rightarrow> e \<le> length a)"

lemma ell_ok_simps [simp]:
  "ell_ok None a" "ell_ok (Some e) a \<longleftrightarrow> e \<le> length a" "ell_ok ell a \<Longrightarrow> ell_ok ell (a @ b)"
  by (auto simp: ell_ok_def split: option.splits)

lemma ipv6_loop_length:
  "ipv6_loop n s a ell = Some (s', b, ell') \<Longrightarrow> length a + 2 * n = 16 \<Longrightarrow> ell_ok ell a \<Longrightarrow>
     length b \<le> 16 \<and> ell_ok ell' b"
proof (induction n arbitrary: s a ell)
  case 0
  then show ?case by simp
next
  case (Suc n)
  obtain off acc rest where g: "ipv6_group s 0 0 = Some (off, acc, rest)" "off \<noteq> 0"
    using Suc.prems(1) by (auto split: option.splits if_splits)
  let ?a = "a @ [of_nat (acc div 256), of_nat acc]"
  have len: "length ?a + 2 * n = 16" using Suc.prems(2) by simp
  note IH = Suc.IH [OF _ len]
  consider (dot) "rest \<noteq> [] \<and> hd rest = CHR ''.''" | (stop) "rest = []"
    | (colon) "rest \<noteq> []" "hd rest \<noteq> CHR ''.''" by blast
  then show ?case
  proof cases
    case dot
    with Suc.prems g show ?thesis
      by (auto split: option.splits if_splits dest!: ipv4_fields_length)
  next
    case stop
    with Suc.prems g show ?thesis by auto
  next
    case colon
    with Suc.prems g have c: "hd rest = CHR '':''" "tl rest \<noteq> []"
      by (auto simp: Let_def split: if_splits)
    show ?thesis
    proof (cases "hd (tl rest) = CHR '':''")
      case True
      with Suc.prems(1) g colon c consider
        "tl (tl rest) = []" "(s', b, ell') = ([], ?a, Some (length ?a))"
        | "ipv6_loop n (tl (tl rest)) ?a (Some (length ?a)) = Some (s', b, ell')"
        by (auto simp: Let_def split: if_splits)
      then show ?thesis
        using IH [of "tl (tl rest)" "Some (length ?a)"] len by cases auto
    next
      case False
      with Suc.prems(1) g colon c have "ipv6_loop n (tl rest) ?a ell = Some (s', b, ell')"
        by (simp add: Let_def)
      from IH [OF this] Suc.prems(3) show ?thesis by simp
    qed
  qed
qed

lemma ipv6_finish_length:
  "ipv6_finish (s, a, ell) = Some b \<Longrightarrow> length a \<le> 16 \<Longrightarrow> ell_ok ell a \<Longrightarrow> length b = 16"
  by (auto simp: ipv6_finish_def split: if_splits option.splits)

lemma ParseIP_length:
  assumes "ParseIP s = Some a"
  shows "length a = 16"
proof -
  have loop: "length b = 16"
    if "(case ipv6_loop 8 t [] ell of None \<Rightarrow> None | Some r \<Rightarrow> ipv6_finish r) = Some b" "ell_ok ell []" for t ell b
    using that ipv6_loop_length [of 8 t "[]" ell] by (auto split: option.splits dest: ipv6_finish_length)
  have "parse_addr s t = Some a \<Longrightarrow> length a = 16" for t
  proof (induction t)
    case (Cons c t)
    then show ?case
      by (auto simp: parse_ipv4_def v4InV6Prefix_def parse_ipv6_def split: if_splits
          dest: ipv4_fields_length loop)
  qed simp
  with assms show ?thesis by (simp add: ParseIP_def)
qed

end
