(* ===== verification/Dial.thy ===== *)
theory Dial
  imports GoNet Constants "HOL-Library.Multiset"
begin

text \<open>
  Dialling under an IP strategy, \<^verbatim>\<open>internal/relay/dial.go\<close>, and resolving the target of a UDP
  stream, \<^verbatim>\<open>resolveUDPAddr\<close> of \<^verbatim>\<open>internal/relay/udp.go\<close>.

  Parameters: \<open>lookup host\<close> is the resolver's answer, \<open>dial network address\<close> the outcome of a
  connection attempt. The race of \<^verbatim>\<open>DialTCPWithRace\<close> is a step relation whose attempts finish in any
  order; the connection of the attempt number \<open>k\<close> is named \<open>k\<close>.
\<close>

section \<open>Resolving\<close>

fun filterIPv4 :: "ip list \<Rightarrow> ip list" where
  "filterIPv4 [] = []"
| "filterIPv4 (a # as) = (if To4 a \<noteq> None then a # filterIPv4 as else filterIPv4 as)"

fun filterIPv6 :: "ip list \<Rightarrow> ip list" where
  "filterIPv6 [] = []"
| "filterIPv6 (a # as) = (if To4 a = None then a # filterIPv6 as else filterIPv6 as)"

definition resolveIPsForDial :: "(string \<Rightarrow> ip list res) \<Rightarrow> string \<Rightarrow> byte \<Rightarrow> ip list" where
  "resolveIPsForDial lookup host strategy = (case ParseIP host of
     Some a \<Rightarrow>
       (if strategy = IPStrategyIPv4Only \<and> To4 a = None then []
        else if strategy = IPStrategyIPv6Only \<and> To4 a \<noteq> None then []
        else [a])
   | None \<Rightarrow> (case lookup host of
       Inl e \<Rightarrow> []
     | Inr ips \<Rightarrow>
         if strategy = IPStrategyIPv4Only then filterIPv4 ips
         else if strategy = IPStrategyIPv6Only then filterIPv6 ips
         else if strategy = IPStrategyIPv4Prefer then
           (let v4 = filterIPv4 ips; v6 = filterIPv6 ips in if length v4 > 0 then v4 @ v6 else v6)
         else if strategy = IPStrategyIPv6Prefer then
           (let v4 = filterIPv4 ips; v6 = filterIPv6 ips in if length v6 > 0 then v6 @ v4 else v4)
         else ips))"

definition resolveUDPAddr :: "(string \<Rightarrow> ip list res) \<Rightarrow> string \<Rightarrow> byte \<Rightarrow> (ip \<times> int) res" where
  "resolveUDPAddr lookup addr strategy =
    (let (host, portStr) = (case SplitHostPort addr of Inl _ \<Rightarrow> (addr, ''0'') | Inr hp \<Rightarrow> hp)
     in case Atoi portStr of
          None \<Rightarrow> Inl (Errorf (''invalid port: '' @ portStr))
        | Some port \<Rightarrow>
            if port < 0 \<or> port > 65535 then Inl (Errorf (''invalid port: '' @ portStr))
            else case ParseIP host of
              Some a \<Rightarrow>
                (if strategy = IPStrategyIPv4Only \<and> To4 a = None then Inl (Errorf ''IPv6 not allowed by strategy'')
                 else if strategy = IPStrategyIPv6Only \<and> To4 a \<noteq> None then
                   Inl (Errorf ''IPv4 not allowed by strategy'')
                 else Inr (a, port))
            | None \<Rightarrow> (case resolveIPsForDial lookup host strategy of
                [] \<Rightarrow> Inl (Errorf (''no IP resolved for '' @ host))
              | a # _ \<Rightarrow> Inr (a, port)))"

section \<open>Dialling one after the other\<close>

text \<open>The results are the connection or the error, and the attempts made: network and address.\<close>

type_synonym attempts = "(string \<times> string) list"

fun dial_each :: "(string \<Rightarrow> string \<Rightarrow> 'c res) \<Rightarrow> string \<Rightarrow> string \<Rightarrow> ip list \<Rightarrow> 'c res \<times> attempts" where
  "dial_each dial host port [] = (Inl (Errorf (''no reachable IP for '' @ host)), [])"
| "dial_each dial host port (a # as) =
     (let target = JoinHostPort (IP_String a) port
      in case dial ''tcp'' target of
           Inr c \<Rightarrow> (Inr c, [(''tcp'', target)])
         | Inl _ \<Rightarrow> (case dial_each dial host port as of (r, tried) \<Rightarrow> (r, (''tcp'', target) # tried)))"

definition DialTCPWithStrategy ::
  "(string \<Rightarrow> ip list res) \<Rightarrow> (string \<Rightarrow> string \<Rightarrow> 'c res) \<Rightarrow> string \<Rightarrow> byte \<Rightarrow> 'c res \<times> attempts"
where
  "DialTCPWithStrategy lookup dial addr strategy = (case SplitHostPort addr of
     Inl _ \<Rightarrow> (dial ''tcp'' addr, [(''tcp'', addr)])
   | Inr (host, port) \<Rightarrow>
       if ParseIP host \<noteq> None then (dial ''tcp'' addr, [(''tcp'', addr)])
       else if strategy = IPStrategyIPv4Only then (dial ''tcp4'' addr, [(''tcp4'', addr)])
       else if strategy = IPStrategyIPv6Only then (dial ''tcp6'' addr, [(''tcp6'', addr)])
       else if strategy = IPStrategyIPv4Prefer \<or> strategy = IPStrategyIPv6Prefer then
         dial_each dial host port (resolveIPsForDial lookup host strategy)
       else (dial ''tcp'' addr, [(''tcp'', addr)]))"

section \<open>The race\<close>

text \<open>What \<^verbatim>\<open>DialTCPWithRace\<close> decides before it starts goroutines.\<close>

datatype race_plan = RaceError go_error | RaceSingle | RaceTargets "string list"

definition plan_race ::
  "(string \<Rightarrow> ip list res) \<Rightarrow> string \<Rightarrow> byte \<Rightarrow> int \<Rightarrow> int \<Rightarrow> race_plan"
where
  "plan_race lookup addr strategy concur timeout =
    (if concur \<le> 0 then RaceError (Errorf ''concur must be > 0'')
     else if timeout \<le> 0 then RaceError (Errorf ''timeout must be > 0'')
     else if concur \<le> 1 then RaceSingle
     else case SplitHostPort addr of
       Inl e \<Rightarrow> RaceError e
     | Inr (host, port) \<Rightarrow>
         let ips = resolveIPsForDial lookup host strategy
         in if length ips = 0 then RaceError (Errorf (''no IP addresses resolved for '' @ host))
            else RaceTargets (List.map (\<lambda>i. JoinHostPort (IP_String (ips ! (i mod length ips))) port)
              [0..<nat concur]))"

text \<open>
  The goroutines that have not finished, the connections delivered to the channel and not yet
  received, the winner, the connections closed, and whether the context is cancelled;
  \<open>r_opened\<close> records every connection that was opened.
\<close>

record race =
  r_dialling :: "nat list"
  r_queue :: "nat list"
  r_winner :: "nat option"
  r_shut :: "nat list"
  r_cancelled :: bool
  r_opened :: "nat list"

definition race_start :: "nat \<Rightarrow> race" where
  "race_start n = \<lparr>r_dialling = [0..<n], r_queue = [], r_winner = None, r_shut = [], r_cancelled = False,
     r_opened = []\<rparr>"

text \<open>The receiving loop: the first connection wins and cancels the others, later ones are closed.\<close>

definition race_receive :: "nat \<Rightarrow> race \<Rightarrow> race" where
  "race_receive c r = (if r_winner r = None then r\<lparr>r_winner := Some c, r_cancelled := True\<rparr>
     else r\<lparr>r_shut := c # r_shut r\<rparr>)"

text \<open>
  An attempt fails; connects and delivers; connects and, the context being cancelled, closes its
  connection; or the loop receives. The argument is the set of attempts that can connect.
\<close>

inductive race_step :: "nat set \<Rightarrow> race \<Rightarrow> race \<Rightarrow> bool" for up where
  race_fail: "k \<in> set (r_dialling r) \<Longrightarrow> k \<notin> up \<or> r_cancelled r \<Longrightarrow>
    race_step up r (r\<lparr>r_dialling := remove1 k (r_dialling r)\<rparr>)"
| race_deliver: "k \<in> set (r_dialling r) \<Longrightarrow> k \<in> up \<Longrightarrow>
    race_step up r (r\<lparr>r_dialling := remove1 k (r_dialling r), r_queue := r_queue r @ [k],
      r_opened := k # r_opened r\<rparr>)"
| race_drop: "k \<in> set (r_dialling r) \<Longrightarrow> k \<in> up \<Longrightarrow> r_cancelled r \<Longrightarrow>
    race_step up r (r\<lparr>r_dialling := remove1 k (r_dialling r), r_shut := k # r_shut r,
      r_opened := k # r_opened r\<rparr>)"
| race_take: "r_queue r = c # q \<Longrightarrow> race_step up r (race_receive c (r\<lparr>r_queue := q\<rparr>))"

definition race_over :: "race \<Rightarrow> bool" where
  "race_over r \<longleftrightarrow> r_dialling r = [] \<and> r_queue r = []"

definition race_result :: "race \<Rightarrow> nat res" where
  "race_result r = (case r_winner r of
     Some c \<Rightarrow> Inr c | None \<Rightarrow> Inl (Errorf ''all connection attempts failed''))"

inductive_cases race_stepE: "race_step up r r'"

inductive_simps race_step_over: "race_step up (r\<lparr>r_dialling := [], r_queue := []\<rparr>) r'"

section \<open>The strategy as a contract\<close>

text \<open>Which addresses a strategy permits.\<close>

definition permitted :: "byte \<Rightarrow> ip \<Rightarrow> bool" where
  "permitted strategy a \<longleftrightarrow>
     (strategy = IPStrategyIPv4Only \<longrightarrow> To4 a \<noteq> None) \<and> (strategy = IPStrategyIPv6Only \<longrightarrow> To4 a = None)"

locale strategy_resolver =
  fixes resolve :: "string \<Rightarrow> byte \<Rightarrow> 'a list" and allowed :: "byte \<Rightarrow> 'a \<Rightarrow> bool"
  assumes resolve_allowed: "a \<in> set (resolve h st) \<Longrightarrow> allowed st a"
begin

text \<open>Cycling through the resolved addresses stays within the strategy, and so does the first.\<close>

lemma cycle_allowed: "resolve h st \<noteq> [] \<Longrightarrow> allowed st (resolve h st ! (i mod length (resolve h st)))"
  by (rule resolve_allowed [where h = h]) simp

lemma first_allowed: "resolve h st = a # as \<Longrightarrow> allowed st a"
  using resolve_allowed [of a h st] by simp

end

lemma filterIPv4_filter: "filterIPv4 as = List.filter (\<lambda>a. To4 a \<noteq> None) as"
  by (induction as) simp_all

lemma filterIPv6_filter: "filterIPv6 as = List.filter (\<lambda>a. To4 a = None) as"
  by (induction as) simp_all

lemmas filter_ips = filterIPv4_filter filterIPv6_filter

interpretation res: strategy_resolver "resolveIPsForDial lookup" permitted for lookup
  by unfold_locales
     (auto simp: resolveIPsForDial_def permitted_def filter_ips Let_def split: option.splits sum.splits if_splits)

section \<open>The race leaks no connection\<close>

text \<open>
  A connection that was opened waits in the channel, is closed, or is the winner; without a winner
  every attempt that can connect is still to come or waits.
\<close>

definition race_inv :: "nat set \<Rightarrow> nat \<Rightarrow> race \<Rightarrow> bool" where
  "race_inv up n r \<longleftrightarrow> (r_winner r \<noteq> None \<longleftrightarrow> r_cancelled r) \<and> (r_winner r = None \<longrightarrow> r_shut r = [])
     \<and> mset (r_opened r) = mset (r_queue r) + mset (r_shut r)
         + (case r_winner r of None \<Rightarrow> {#} | Some c \<Rightarrow> {#c#})
     \<and> set (r_opened r) \<subseteq> up \<inter> {..<n} \<and> set (r_dialling r) \<subseteq> {..<n} \<and> distinct (r_dialling r)
     \<and> (r_winner r = None \<longrightarrow> up \<inter> {..<n} \<subseteq> set (r_dialling r) \<union> set (r_queue r))"

definition race_size :: "race \<Rightarrow> nat" where
  "race_size r = 2 * length (r_dialling r) + length (r_queue r)"

lemma length_remove1_Suc: "k \<in> set xs \<Longrightarrow> Suc (length (remove1 k xs)) = length xs"
  using length_pos_if_in_set [of k xs] by (simp add: length_remove1)

lemma race_step_size:
  assumes "race_step up r r'"
  shows "race_size r' < race_size r"
  using assms
proof cases
  case (race_take c q)
  then show ?thesis by (simp add: race_size_def race_receive_def)
next
  case (race_fail k)
  with length_remove1_Suc [of k "r_dialling r"] show ?thesis by (simp add: race_size_def)
next
  case (race_deliver k)
  with length_remove1_Suc [of k "r_dialling r"] show ?thesis by (simp add: race_size_def)
next
  case (race_drop k)
  with length_remove1_Suc [of k "r_dialling r"] show ?thesis by (simp add: race_size_def)
qed

lemma race_step_inv:
  assumes "race_step up r r'" "race_inv up n r"
  shows "race_inv up n r'"
  using assms(1)
proof cases
  case (race_fail k)
  with assms(2) show ?thesis by (auto simp: race_inv_def)
next
  case (race_deliver k)
  with assms(2) show ?thesis by (auto simp: race_inv_def)
next
  case (race_drop k)
  with assms(2) show ?thesis by (auto simp: race_inv_def)
next
  case (race_take c q)
  with assms(2) show ?thesis
    by (auto simp: race_inv_def race_receive_def split: option.splits)
qed

lemma race_start_inv: "race_inv up n (race_start n)"
  by (auto simp: race_inv_def race_start_def)

lemma race_steps:
  "(race_step up ^^ m) (race_start n) r \<Longrightarrow> race_inv up n r \<and> race_size r + m \<le> 2 * n"
proof (induction m arbitrary: r)
  case 0
  then have "r = race_start n" by simp
  moreover have "race_size (race_start n) = 2 * n" by (simp add: race_size_def race_start_def)
  ultimately show ?case by (simp add: race_start_inv)
next
  case (Suc m)
  then obtain y where "(race_step up ^^ m) (race_start n) y" "race_step up y r" by auto
  with Suc.IH [of y] race_step_inv race_step_size show ?case by fastforce
qed

lemma race_stuck:
  assumes "\<nexists>r'. race_step up r r'" "race_inv up n r"
  shows "race_over r"
proof -
  have "r_queue r = []"
    using assms(1) race_take [of r] by (cases "r_queue r") blast+
  moreover have "r_dialling r = []"
  proof (rule ccontr)
    assume "r_dialling r \<noteq> []"
    then obtain k where k: "k \<in> set (r_dialling r)" by (cases "r_dialling r") auto
    show False
    proof (cases "k \<in> up")
      case True
      with k assms(1) race_deliver [of k r up] show False by blast
    next
      case False
      with k assms(1) race_fail [of k r up] show False by blast
    qed
  qed
  ultimately show ?thesis by (simp add: race_over_def)
qed

section \<open>Properties\<close>

text \<open>
  C26: the race leaks no connection and finds one if there is one. With \<open>n\<close> attempts it ends after
  at most \<open>2 * n\<close> steps in any order of events; at the end no goroutine is left, and either the
  winner is a connection that was opened and all others that were opened have been closed, or no
  connection was opened because no attempt could connect.
\<close>

theorem race_no_leak:
  assumes "(race_step up ^^ m) (race_start n) r"
  shows "m \<le> 2 * n \<and> ((\<nexists>r'. race_step up r r') \<longrightarrow> race_over r \<and>
    (case race_result r of
       Inr c \<Rightarrow> c \<in> up \<and> c < n \<and> mset (r_opened r) = add_mset c (mset (r_shut r))
     | Inl e \<Rightarrow> r_opened r = [] \<and> up \<inter> {..<n} = {}))"
proof -
  from race_steps [OF assms] have inv: "race_inv up n r" and "m \<le> 2 * n" by auto
  moreover have "race_over r \<and> (case race_result r of
       Inr c \<Rightarrow> c \<in> up \<and> c < n \<and> mset (r_opened r) = add_mset c (mset (r_shut r))
     | Inl e \<Rightarrow> r_opened r = [] \<and> up \<inter> {..<n} = {})" if stuck: "\<nexists>r'. race_step up r r'"
  proof -
    from race_stuck [OF stuck inv] have over: "race_over r" .
    show ?thesis
    proof (cases "r_winner r")
      case None
      with inv over show ?thesis by (auto simp: race_inv_def race_over_def race_result_def)
    next
      case (Some c)
      with inv over have ms: "mset (r_opened r) = add_mset c (mset (r_shut r))"
        by (simp add: race_inv_def race_over_def)
      then have "c \<in> set (r_opened r)" by (metis set_mset_mset union_single_eq_member)
      with inv have "c \<in> up \<inter> {..<n}" by (auto simp: race_inv_def)
      with Some over ms show ?thesis by (simp add: race_result_def)
    qed
  qed
  ultimately show ?thesis by blast
qed

theorem race_no_leak_witness:
  "\<exists>r. (race_step {0, 1} ^^ 4) (race_start 2) r \<and> race_result r = Inr 1 \<and> r_shut r = [0]
     \<and> mset (r_opened r) = {#1, 0#}"
proof -
  let ?r = "\<lambda>d q w sh c ops. \<lparr>r_dialling = d, r_queue = q, r_winner = w, r_shut = sh, r_cancelled = c,
    r_opened = ops\<rparr>"
  let ?r4 = "?r [] [] (Some 1) [0] True [0, 1]"
  have "race_start 2 = ?r [0, 1] [] None [] False []" by (simp add: race_start_def upt_rec)
  then have 1: "race_step {0, 1} (race_start 2) (?r [0] [1] None [] False [1])"
    using race_deliver [of 1 "race_start 2" "{0, 1}"] by simp
  have 2: "race_step {0, 1} (?r [0] [1] None [] False [1]) (?r [0] [] (Some 1) [] True [1])"
    using race_take [of "?r [0] [1] None [] False [1]" 1 "[]" "{0, 1}"] by (simp add: race_receive_def)
  have 3: "race_step {0, 1} (?r [0] [] (Some 1) [] True [1]) (?r [] [0] (Some 1) [] True [0, 1])"
    using race_deliver [of 0 "?r [0] [] (Some 1) [] True [1]" "{0, 1}"] by simp
  have 4: "race_step {0, 1} (?r [] [0] (Some 1) [] True [0, 1]) ?r4"
    using race_take [of "?r [] [0] (Some 1) [] True [0, 1]" 0 "[]" "{0, 1}"] by (simp add: race_receive_def)
  from 1 2 3 4 have run: "(race_step {0, 1} ^^ 4) (race_start 2) ?r4"
    by (auto simp: numeral_eq_Suc)
  have stuck: "\<nexists>r'. race_step {0, 1} ?r4 r'"
    by (auto elim!: race_stepE)
  have w: "race_result ?r4 = Inr 1" by (simp add: race_result_def)
  from race_no_leak [OF run] stuck w have "mset (r_opened ?r4) = {#1, 0#}" by simp
  with run w show ?thesis by force
qed

text \<open>A resolved name under a preferring strategy: one family, then the other.\<close>

definition is_v4 :: "ip \<Rightarrow> bool" where
  "is_v4 a \<longleftrightarrow> To4 a \<noteq> None"

lemma resolve_prefer:
  assumes "ParseIP host = None" "lookup host = Inr ips"
  shows "resolveIPsForDial lookup host IPStrategyIPv4Prefer =
      List.filter is_v4 ips @ List.filter (\<lambda>a. \<not> is_v4 a) ips"
    and "resolveIPsForDial lookup host IPStrategyIPv6Prefer =
      List.filter (\<lambda>a. \<not> is_v4 a) ips @ List.filter is_v4 ips"
  using assms by (simp_all add: resolveIPsForDial_def filter_ips Let_def is_v4_def [abs_def])

lemma mset_filter_split: "mset (List.filter P xs) + mset (List.filter (\<lambda>x. \<not> P x) xs) = mset xs"
  by (induction xs) auto

lemma sorted_wrt_always: "(\<And>a b. a \<in> set xs \<Longrightarrow> b \<in> set xs \<Longrightarrow> R a b) \<Longrightarrow> sorted_wrt R xs"
  by (induction xs) auto

lemma sorted_split:
  "sorted_wrt (\<lambda>a b. P b \<longrightarrow> P a) (List.filter P xs @ List.filter (\<lambda>x. \<not> P x) xs)"
  "sorted_wrt (\<lambda>a b. P a \<longrightarrow> P b) (List.filter (\<lambda>x. \<not> P x) xs @ List.filter P xs)"
  by (auto simp: sorted_wrt_append intro: sorted_wrt_always)

lemma filter_split:
  "List.filter P (List.filter P xs @ List.filter (\<lambda>x. \<not> P x) xs) = List.filter P xs"
  "List.filter P (List.filter (\<lambda>x. \<not> P x) xs @ List.filter P xs) = List.filter P xs"
  by simp_all

text \<open>
  C31: resolution respects the strategy. Every address returned is one the strategy permits; for a
  name, the preferring strategies return all addresses of the resolver's answer, none of the other
  family before one of the preferred family, and the order within the preferred family kept.
\<close>

theorem resolve_respects_strategy:
  "list_all (permitted st) (resolveIPsForDial lookup host st)
   \<and> (ParseIP host = None \<longrightarrow> lookup host = Inr ips \<longrightarrow>
       (let r4 = resolveIPsForDial lookup host IPStrategyIPv4Prefer;
            r6 = resolveIPsForDial lookup host IPStrategyIPv6Prefer
        in mset r4 = mset ips \<and> mset r6 = mset ips
         \<and> sorted_wrt (\<lambda>a b. is_v4 b \<longrightarrow> is_v4 a) r4 \<and> sorted_wrt (\<lambda>a b. is_v4 a \<longrightarrow> is_v4 b) r6
         \<and> List.filter is_v4 r4 = List.filter is_v4 ips))"
proof -
  have "list_all (permitted st) (resolveIPsForDial lookup host st)"
    using res.resolve_allowed by (auto simp: list_all_iff)
  then show ?thesis
    using mset_filter_split [of is_v4 ips] sorted_split [of is_v4 ips] filter_split [of is_v4 ips]
    by (auto simp: resolve_prefer Let_def add.commute simp del: strategy_consts filter_append)
qed

theorem resolve_respects_strategy_witness:
  "resolveIPsForDial (\<lambda>_. Inr [replicate 16 1, v4InV6Prefix @ [1, 2, 3, 4]]) ''h'' IPStrategyIPv4Prefer
     = [v4InV6Prefix @ [1, 2, 3, 4], replicate 16 1]
   \<and> sorted_wrt (\<lambda>a b. is_v4 b \<longrightarrow> is_v4 a)
      (resolveIPsForDial (\<lambda>_. Inr [replicate 16 1, v4InV6Prefix @ [1, 2, 3, 4]]) ''h'' IPStrategyIPv4Prefer)"
proof -
  let ?lookup = "\<lambda>_. Inr [replicate 16 1, v4InV6Prefix @ [1, 2, 3, 4]]" and ?h = "''h''"
  have p: "ParseIP ?h = None" by (simp add: ParseIP_plain)
  have "resolveIPsForDial ?lookup ?h IPStrategyIPv4Prefer = [v4InV6Prefix @ [1, 2, 3, 4], replicate 16 1]"
    by (subst resolve_prefer [OF p refl])
       (simp add: is_v4_def To4_def v4InV6Prefix_def numeral_eq_Suc)
  with resolve_respects_strategy [of 1 ?lookup ?h "[replicate 16 1, v4InV6Prefix @ [1, 2, 3, 4]]"] p
  show ?thesis by (auto simp only: Let_def)
qed

text \<open>
  What a race dials. It makes exactly \<^verbatim>\<open>concur\<close> attempts, each to an address the strategy
  permits, at the port of the target; with as many attempts as addresses, every resolved address is
  tried.
\<close>

theorem race_targets_permitted:
  assumes "plan_race lookup addr strategy concur timeout = RaceTargets ts"
    "SplitHostPort addr = Inr (host, port)"
  shows "length ts = nat concur
    \<and> list_all (\<lambda>t. \<exists>a. a \<in> set (resolveIPsForDial lookup host strategy) \<and> permitted strategy a
        \<and> t = JoinHostPort (IP_String a) port) ts
    \<and> (int (length (resolveIPsForDial lookup host strategy)) \<le> concur \<longrightarrow>
        list_all (\<lambda>a. JoinHostPort (IP_String a) port \<in> set ts) (resolveIPsForDial lookup host strategy))"
proof -
  let ?ips = "resolveIPsForDial lookup host strategy"
  have ne: "?ips \<noteq> []" and
    ts: "ts = List.map (\<lambda>i. JoinHostPort (IP_String (?ips ! (i mod length ?ips))) port) [0..<nat concur]"
    using assms by (auto simp: plan_race_def Let_def split: if_splits)
  have mem: "?ips ! (i mod length ?ips) \<in> set ?ips" for i using ne by simp
  have "list_all (\<lambda>t. \<exists>a. a \<in> set ?ips \<and> permitted strategy a \<and> t = JoinHostPort (IP_String a) port) ts"
    using mem res.cycle_allowed [OF ne] by (auto simp: list_all_iff ts)
  moreover have "list_all (\<lambda>a. JoinHostPort (IP_String a) port \<in> set ts) ?ips"
    if "int (length ?ips) \<le> concur"
  proof -
    have "JoinHostPort (IP_String (?ips ! i)) port \<in> set ts" if "i < length ?ips" for i
    proof -
      have "i < nat concur" "i mod length ?ips = i" using that \<open>int (length ?ips) \<le> concur\<close> by auto
      then show ?thesis unfolding ts by (force intro: rev_image_eqI [of i])
    qed
    then show ?thesis by (auto simp: list_all_length)
  qed
  ultimately show ?thesis by (simp add: ts)
qed

theorem race_targets_permitted_witness:
  "list_all (\<lambda>a. JoinHostPort (IP_String a) ''443'' \<in> {JoinHostPort (IP_String (v4InV6Prefix @ [1, 2, 3, 4])) ''443''})
     (resolveIPsForDial (\<lambda>_. Inr [v4InV6Prefix @ [1, 2, 3, 4], replicate 16 1]) ''h'' IPStrategyIPv4Only)"
proof -
  let ?lookup = "\<lambda>_. Inr [v4InV6Prefix @ [1, 2, 3, 4], replicate 16 1]"
  have a: "''h:443'' = JoinHostPort ''h'' ''443''" by (simp add: JoinHostPort_def)
  have s: "SplitHostPort ''h:443'' = Inr (''h'', ''443'')"
    unfolding a by (rule SplitHostPort_Join) simp_all
  have p: "ParseIP ''h'' = None" by (simp add: ParseIP_plain)
  have r: "resolveIPsForDial ?lookup ''h'' IPStrategyIPv4Only = [v4InV6Prefix @ [1, 2, 3, 4]]"
    by (simp add: resolveIPsForDial_def p To4_def v4InV6Prefix_def numeral_eq_Suc)
  let ?t = "JoinHostPort (IP_String (v4InV6Prefix @ [1, 2, 3, 4])) ''443''"
  have pl: "plan_race ?lookup ''h:443'' IPStrategyIPv4Only 2 1 = RaceTargets [?t, ?t]"
    unfolding plan_race_def s using r by (simp add: numeral_2_eq_2)
  from race_targets_permitted [OF pl s] r show ?thesis by simp
qed

text \<open>
  The strategy is not enforced on a literal address when it is dialled alone. For an address
  with an IPv6 literal and the strategy IPv4-only, a race of two or more attempts refuses to dial,
  whereas with one attempt the address is dialled as it is.
\<close>

theorem single_dial_ignores_strategy:
  assumes "SplitHostPort addr = Inr (host, port)" "ParseIP host = Some a" "To4 a = None"
    "2 \<le> concur" "0 < timeout"
  shows "plan_race lookup addr IPStrategyIPv4Only concur timeout
      = RaceError (Errorf (''no IP addresses resolved for '' @ host))
    \<and> plan_race lookup addr IPStrategyIPv4Only 1 timeout = RaceSingle
    \<and> DialTCPWithStrategy lookup dial addr IPStrategyIPv4Only = (dial ''tcp'' addr, [(''tcp'', addr)])"
  using assms by (simp add: plan_race_def DialTCPWithStrategy_def resolveIPsForDial_def)

theorem single_dial_ignores_strategy_witness:
  "DialTCPWithStrategy (\<lambda>_. Inr []) (\<lambda>n a. Inr a) ''[::]:80'' IPStrategyIPv4Only
     = (Inr ''[::]:80'', [(''tcp'', ''[::]:80'')])"
proof -
  have a: "''[::]:80'' = JoinHostPort ''::'' ''80''" by (simp add: JoinHostPort_def)
  have s: "SplitHostPort ''[::]:80'' = Inr (''::'', ''80'')"
    unfolding a by (rule SplitHostPort_Join) simp_all
  have b: "ParseIP ''::'' = Some (replicate 16 0)"
    by (simp add: ParseIP_def parse_ipv6_def HasPrefix_def)
  have "take 12 (replicate 16 (0 :: byte)) ! 10 \<noteq> v4InV6Prefix ! 10" by (simp add: v4InV6Prefix_def)
  then have "take 12 (replicate 16 (0 :: byte)) \<noteq> v4InV6Prefix" by metis
  then have b4: "To4 (replicate 16 0) = None" by (simp add: To4_def del: take_replicate)
  from single_dial_ignores_strategy [OF s b b4, of 2 1 "\<lambda>_. Inr []" "\<lambda>n a. Inr a"] show ?thesis by simp
qed

text \<open>The addresses a dial tries, in order, and where it stops.\<close>

definition dial_targets :: "string \<Rightarrow> ip list \<Rightarrow> attempts" where
  "dial_targets port ips = List.map (\<lambda>a. (''tcp'', JoinHostPort (IP_String a) port)) ips"

lemma dial_each_result:
  "dial_each dial host port ips = (r, tried) \<Longrightarrow>
     (\<exists>k. tried = take k (dial_targets port ips)) \<and>
     (case r of
        Inl e \<Rightarrow> tried = dial_targets port ips \<and> list_all (\<lambda>(n, t). isl (dial n t)) tried
      | Inr c \<Rightarrow> tried \<noteq> [] \<and> dial (fst (last tried)) (snd (last tried)) = Inr c
          \<and> list_all (\<lambda>(n, t). isl (dial n t)) (butlast tried))"
proof (induction ips arbitrary: tried)
  case Nil
  then show ?case by (auto simp: dial_targets_def)
next
  case (Cons a as)
  let ?t = "JoinHostPort (IP_String a) port"
  show ?case
  proof (cases "dial ''tcp'' ?t")
    case (Inr c)
    with Cons.prems have "r = Inr c" "tried = take 1 (dial_targets port (a # as))"
      by (auto simp: dial_targets_def)
    with Inr show ?thesis by (intro conjI exI [of _ 1]) (simp_all add: dial_targets_def)
  next
    case (Inl e)
    then obtain rest where rest: "dial_each dial host port as = (r, rest)" "tried = (''tcp'', ?t) # rest"
      using Cons.prems by (auto simp: Let_def split: prod.splits)
    from Cons.IH [OF rest(1)] obtain k where "rest = take k (dial_targets port as)" by blast
    then have "tried = take (Suc k) (dial_targets port (a # as))"
      by (simp add: rest(2) dial_targets_def)
    then have "\<exists>k. tried = take k (dial_targets port (a # as))" ..
    moreover have "dial_targets port (a # as) = (''tcp'', ?t) # dial_targets port as"
      by (simp add: dial_targets_def)
    ultimately show ?thesis
      using Cons.IH [OF rest(1)] rest(2) Inl by (cases r) auto
  qed
qed

text \<open>
  Dialling a name under a preferring strategy tries the resolved addresses one after the other,
  in the strategy's order and none twice, stops at the first that connects, and reports an error
  only when all of them have been tried and refused.
\<close>

theorem prefer_dials_in_order:
  assumes "SplitHostPort addr = Inr (host, port)" "ParseIP host = None"
    "st = IPStrategyIPv4Prefer \<or> st = IPStrategyIPv6Prefer"
    "DialTCPWithStrategy lookup dial addr st = (r, tried)"
  shows "(\<exists>k. tried = take k (dial_targets port (resolveIPsForDial lookup host st))) \<and>
    (case r of
       Inl e \<Rightarrow> tried = dial_targets port (resolveIPsForDial lookup host st)
         \<and> list_all (\<lambda>(n, t). isl (dial n t)) tried
     | Inr c \<Rightarrow> tried \<noteq> [] \<and> dial (fst (last tried)) (snd (last tried)) = Inr c
         \<and> list_all (\<lambda>(n, t). isl (dial n t)) (butlast tried))"
  using assms by (intro dial_each_result [of dial host]) (auto simp: DialTCPWithStrategy_def)

theorem prefer_dials_in_order_witness:
  "let dial = (\<lambda>n t. if t = ''1.2.3.4:80'' then Inl Timeout else Inr t);
       lookup = (\<lambda>_. Inr [replicate 16 1, v4InV6Prefix @ [1, 2, 3, 4]]);
       (r, tried) = DialTCPWithStrategy lookup dial ''h:80'' IPStrategyIPv4Prefer
   in \<exists>k. tried = take k (dial_targets ''80'' (resolveIPsForDial lookup ''h'' IPStrategyIPv4Prefer))"
proof -
  let ?dial = "\<lambda>n t. if t = ''1.2.3.4:80'' then Inl Timeout else Inr t"
  let ?lookup = "\<lambda>_. Inr [replicate 16 1, v4InV6Prefix @ [1, 2, 3, 4]]"
  have a: "''h:80'' = JoinHostPort ''h'' ''80''" by (simp add: JoinHostPort_def)
  have s: "SplitHostPort ''h:80'' = Inr (''h'', ''80'')"
    unfolding a by (rule SplitHostPort_Join) simp_all
  have p: "ParseIP ''h'' = None" by (simp add: ParseIP_plain)
  from prefer_dials_in_order [OF s p disjI1 [OF refl] prod.collapse [symmetric], of ?lookup ?dial]
  show ?thesis by (simp add: Let_def case_prod_beta)
qed

text \<open>The text of an IPv4 address and a port.\<close>

lemma resolveUDPAddr_IPv4:
  assumes "length quad = 4" "n \<le> 65535"
  shows "resolveUDPAddr lookup (JoinHostPort (dotted quad) (dec_of_nat n)) st =
         (if st = IPStrategyIPv6Only then Inl (Errorf ''IPv4 not allowed by strategy'')
          else Inr (v4InV6Prefix @ quad, int n))"
proof -
  have c: "CHR ''['' \<notin> set (dotted quad)" "CHR '']'' \<notin> set (dotted quad)"
    by (simp_all add: dotted_def dec_of_nat_notin)
  have "SplitHostPort (JoinHostPort (dotted quad) (dec_of_nat n)) = Inr (dotted quad, dec_of_nat n)"
    by (rule SplitHostPort_Join) (simp_all add: c dec_of_nat_notin)
  moreover have "Atoi (dec_of_nat n) = Some (int n)"
    using Atoi_digits [OF dec_of_nat_digits] signed_dec_dec_of_nat [of n] assms(2) by simp
  ultimately show ?thesis
    using ParseIP_dotted [OF assms(1)] assms by (simp add: resolveUDPAddr_def)
qed

text \<open>
  The target of a UDP stream. An address that resolves has a port from 0 to 65535 and an IP the
  strategy permits; and the text of an IPv4 address with a port resolves, without asking the
  resolver, to that address and port, unless the strategy is IPv6-only, when it is refused.
\<close>

theorem resolveUDPAddr_sound:
  "(case resolveUDPAddr lookup addr st of
      Inl e \<Rightarrow> True | Inr (a, port) \<Rightarrow> permitted st a \<and> 0 \<le> port \<and> port \<le> 65535)
   \<and> (length quad = 4 \<longrightarrow> n \<le> 65535 \<longrightarrow>
       resolveUDPAddr lookup (JoinHostPort (dotted quad) (dec_of_nat n)) st =
         (if st = IPStrategyIPv6Only then Inl (Errorf ''IPv4 not allowed by strategy'')
          else Inr (v4InV6Prefix @ quad, int n)))"
proof -
  obtain host portStr where hp: "(case SplitHostPort addr of Inl _ \<Rightarrow> (addr, ''0'') | Inr hp \<Rightarrow> hp) = (host, portStr)"
    by fastforce
  have "\<forall>a as. resolveIPsForDial lookup host st = a # as \<longrightarrow> permitted st a"
    using res.first_allowed by blast
  then have 1: "case resolveUDPAddr lookup addr st of
      Inl e \<Rightarrow> True | Inr (a, port) \<Rightarrow> permitted st a \<and> 0 \<le> port \<and> port \<le> 65535"
    unfolding resolveUDPAddr_def hp Let_def
    by (auto simp: permitted_def split: option.split list.split)
  with resolveUDPAddr_IPv4 [of quad n lookup st] show ?thesis by blast
qed

theorem resolveUDPAddr_sound_witness:
  "resolveUDPAddr (\<lambda>_. Inl Timeout) (JoinHostPort (dotted [8, 8, 4, 4]) (dec_of_nat 53)) IPStrategyIPv4Only
     = Inr (v4InV6Prefix @ [8, 8, 4, 4], 53)"
  using resolveUDPAddr_sound [where lookup = "\<lambda>_. Inl Timeout" and quad = "[8, 8, 4, 4]" and n = 53
      and st = IPStrategyIPv4Only] by simp

end
