(* ===== verification/Relay.thy ===== *)
theory Relay
  imports Framing Dial Lifecycle
begin

text \<open>
  The server's side of a stream, \<^verbatim>\<open>internal/relay/tcp.go\<close>: the dispatch on the open header, the TCP
  relay and the UDP relay.

  The TCP relay is a step relation over its goroutines: the reader of the stream, the dialler, the
  main routine and the copier from the target. A \<^verbatim>\<open>tcp_relay\<close> lists what the stream's reads return
  (\<^verbatim>\<open>t_in\<close>, its end is the read error), what the target's reads return (\<^verbatim>\<open>t_back\<close>), the channels,
  where each goroutine stands, and what was written. \<^verbatim>\<open>Config\<close> is the record of the same name.
\<close>

record Config =
  cfg_DialTimeout :: int
  cfg_ReadBuf :: int
  cfg_Concur :: int

section \<open>Dispatch\<close>

text \<open>The two handlers are arguments: target, strategy and the stream.\<close>

definition HandleSmuxStream ::
  "(string \<Rightarrow> byte \<Rightarrow> stream \<Rightarrow> stream) \<Rightarrow> (string \<Rightarrow> byte \<Rightarrow> stream \<Rightarrow> stream) \<Rightarrow> stream \<Rightarrow> stream"
where
  "HandleSmuxStream handle_tcp handle_udp stream =
    Close (case ReadSmuxOpenHeader stream of
      (Inl e, s1) \<Rightarrow> s1
    | (Inr (kind, strategy, target), s1) \<Rightarrow>
        if kind = StreamKindPing then
          (case ReadFull 8 s1 of
             (Inl e, s2) \<Rightarrow> s2
           | (Inr payload, s2) \<Rightarrow> snd (Write payload s2))
        else if kind = StreamKindTCP then handle_tcp target strategy s1
        else if kind = StreamKindUDP then handle_udp target strategy s1
        else s1)"

section \<open>The TCP relay\<close>

datatype reader_pc = RReading | RReporting | RDone
datatype dialer_pc = DDialling | DReporting | DDone
datatype main_pc = MWaiting | MRelaying | MReturned

record tcp_relay =
  t_in :: "bytes list"
  t_data :: "bytes list"
  t_data_closed :: bool
  t_errs :: nat
  t_dialled :: bool
  t_reader :: reader_pc
  t_dialer :: dialer_pc
  t_main :: main_pc
  t_cancelled :: bool
  t_open :: bool
  t_target :: bytes
  t_back :: "bytes list"
  t_copying :: bool
  t_stream :: bytes
  t_eof :: bool

text \<open>
  \<^verbatim>\<open>t_data\<close> and \<^verbatim>\<open>t_data_closed\<close> are \<^verbatim>\<open>dataCh\<close>, \<^verbatim>\<open>t_errs\<close> counts the values in \<^verbatim>\<open>errCh\<close>, \<^verbatim>\<open>t_dialled\<close> says
  that \<^verbatim>\<open>dialCh\<close> holds the connection, \<^verbatim>\<open>t_open\<close> that the connection is open. \<^verbatim>\<open>t_target\<close> and \<^verbatim>\<open>t_stream\<close>
  are the bytes written to the target and to the stream. \<^verbatim>\<open>t_eof\<close> records that the main routine
  returned because \<^verbatim>\<open>dataCh\<close> was closed and empty and nothing had cancelled the relay.
\<close>

definition tcp_start :: "bytes list \<Rightarrow> bytes list \<Rightarrow> tcp_relay" where
  "tcp_start inp replies = \<lparr>t_in = inp, t_data = [], t_data_closed = False, t_errs = 0, t_dialled = False,
     t_reader = RReading, t_dialer = DDialling, t_main = MWaiting, t_cancelled = False, t_open = False,
     t_target = [], t_back = replies, t_copying = False, t_stream = [], t_eof = False\<rparr>"

text \<open>The deferred calls of the main routine: cancel, and close the connection it has received.\<close>

definition main_returns :: "tcp_relay \<Rightarrow> tcp_relay" where
  "main_returns r = r\<lparr>t_main := MReturned, t_cancelled := True,
     t_open := (if t_main r = MRelaying then False else t_open r)\<rparr>"

text \<open>
  The steps, goroutine by goroutine. The reader (\<open>rd_\<close>) skips an empty read, sends data to the
  channel or, once cancelled, may drop it, and reports its error. The dialler (\<open>dial_\<close>) fails, or
  connects and then delivers the connection or, once cancelled, may close it. The main routine
  (\<open>main_\<close>) waits for a connection, an error or the time-out, then forwards from the channel to the
  target until a write fails, the channel is closed and empty, or it is cancelled. The copier
  (\<open>copy_\<close>) forwards from the target until a read or a write fails, and then cancels.
\<close>

inductive tcp_step :: "tcp_relay \<Rightarrow> tcp_relay \<Rightarrow> bool" where
  rd_empty: "t_reader r = RReading \<Longrightarrow> t_in r = [] # bs \<Longrightarrow> tcp_step r (r\<lparr>t_in := bs\<rparr>)"
| rd_data: "t_reader r = RReading \<Longrightarrow> t_in r = b # bs \<Longrightarrow> b \<noteq> [] \<Longrightarrow> length (t_data r) < 1024 \<Longrightarrow>
    tcp_step r (r\<lparr>t_in := bs, t_data := t_data r @ [b]\<rparr>)"
| rd_dropped: "t_reader r = RReading \<Longrightarrow> t_in r = b # bs \<Longrightarrow> b \<noteq> [] \<Longrightarrow> t_cancelled r \<Longrightarrow>
    tcp_step r (r\<lparr>t_in := bs, t_reader := RDone, t_data_closed := True\<rparr>)"
| rd_error: "t_reader r = RReading \<Longrightarrow> t_in r = [] \<Longrightarrow> tcp_step r (r\<lparr>t_reader := RReporting\<rparr>)"
| rd_report: "t_reader r = RReporting \<Longrightarrow>
    tcp_step r (r\<lparr>t_errs := t_errs r + 1, t_reader := RDone, t_data_closed := True\<rparr>)"
| rd_unheard: "t_reader r = RReporting \<Longrightarrow> t_cancelled r \<Longrightarrow>
    tcp_step r (r\<lparr>t_reader := RDone, t_data_closed := True\<rparr>)"
| dial_error: "t_dialer r = DDialling \<Longrightarrow> tcp_step r (r\<lparr>t_dialer := DDone, t_errs := t_errs r + 1\<rparr>)"
| dial_unheard: "t_dialer r = DDialling \<Longrightarrow> t_cancelled r \<Longrightarrow> tcp_step r (r\<lparr>t_dialer := DDone\<rparr>)"
| dial_ok: "t_dialer r = DDialling \<Longrightarrow> tcp_step r (r\<lparr>t_dialer := DReporting, t_open := True\<rparr>)"
| dial_send: "t_dialer r = DReporting \<Longrightarrow> tcp_step r (r\<lparr>t_dialer := DDone, t_dialled := True\<rparr>)"
| dial_close: "t_dialer r = DReporting \<Longrightarrow> t_cancelled r \<Longrightarrow>
    tcp_step r (r\<lparr>t_dialer := DDone, t_open := False\<rparr>)"
| main_conn: "t_main r = MWaiting \<Longrightarrow> t_dialled r \<Longrightarrow>
    tcp_step r (r\<lparr>t_dialled := False, t_main := MRelaying, t_copying := True\<rparr>)"
| main_err: "t_main r = MWaiting \<Longrightarrow> 0 < t_errs r \<Longrightarrow>
    tcp_step r (main_returns (r\<lparr>t_errs := t_errs r - 1\<rparr>))"
| main_timeout: "t_main r = MWaiting \<Longrightarrow> tcp_step r (main_returns r)"
| main_forward: "t_main r = MRelaying \<Longrightarrow> t_data r = b # bs \<Longrightarrow>
    tcp_step r (r\<lparr>t_data := bs, t_target := t_target r @ b\<rparr>)"
| main_write_error: "t_main r = MRelaying \<Longrightarrow> t_data r = b # bs \<Longrightarrow>
    tcp_step r (main_returns (r\<lparr>t_data := bs, t_target := t_target r @ take k b\<rparr>))"
| main_eof: "t_main r = MRelaying \<Longrightarrow> t_data r = [] \<Longrightarrow> t_data_closed r \<Longrightarrow>
    tcp_step r (main_returns (r\<lparr>t_eof := \<not> t_cancelled r\<rparr>))"
| main_cancelled: "t_main r = MRelaying \<Longrightarrow> t_cancelled r \<Longrightarrow> tcp_step r (main_returns r)"
| copy_data: "t_copying r \<Longrightarrow> t_open r \<Longrightarrow> t_back r = b # bs \<Longrightarrow>
    tcp_step r (r\<lparr>t_back := bs, t_stream := t_stream r @ b\<rparr>)"
| copy_write_error: "t_copying r \<Longrightarrow> t_open r \<Longrightarrow> t_back r = b # bs \<Longrightarrow>
    tcp_step r (r\<lparr>t_back := bs, t_stream := t_stream r @ take k b, t_copying := False, t_cancelled := True\<rparr>)"
| copy_end: "t_copying r \<Longrightarrow> t_back r = [] \<or> \<not> t_open r \<Longrightarrow>
    tcp_step r (r\<lparr>t_copying := False, t_cancelled := True\<rparr>)"

inductive tcp_reach :: "bytes list \<Rightarrow> bytes list \<Rightarrow> tcp_relay \<Rightarrow> bool" for inp replies where
  tcp_init: "tcp_reach inp replies (tcp_start inp replies)"
| tcp_next: "tcp_reach inp replies r \<Longrightarrow> tcp_step r r' \<Longrightarrow> tcp_reach inp replies r'"

inductive_cases tcp_stepE: "tcp_step r r'"

section \<open>The UDP relay\<close>

text \<open>
  The goroutine from the stream: the datagrams it sends to the resolved address until a read or a
  send fails. \<open>ok\<close> says whether a send succeeds. Every round consumes the length of a chunk.
\<close>

function udp_up :: "(bytes \<Rightarrow> bool) \<Rightarrow> stream \<Rightarrow> bytes list" where
  "udp_up ok s = (case relay_readChunk s of
     (Inl e, s1) \<Rightarrow> []
   | (Inr b, s1) \<Rightarrow>
       if length b = 0 then udp_up ok s1
       else if ok b then b # udp_up ok s1
       else [])"
  by pat_completeness auto

lemma relay_readChunk_shorter: "relay_readChunk s = (Inr b, s1) \<Longrightarrow> length (s_in s1) < length (s_in s)"
  by (auto simp: relay_readChunk_def ReadFull_def ReadFull_into_def Let_def split: if_splits)

termination udp_up
  by (relation "measure (\<lambda>(ok, s). length (s_in s))") (auto dest: relay_readChunk_shorter [OF sym])

declare udp_up.simps [simp del]

text \<open>
  The loop to the stream: what each \<^verbatim>\<open>relay.Read\<close> returns, a time-out with whether the context is
  done by then. The results are the stream and whether the loop ended by an error.
\<close>

datatype udp_event = UdpPacket string bytes | UdpTimeout bool | UdpError go_error

fun udp_down :: "udp_event list \<Rightarrow> stream \<Rightarrow> stream" where
  "udp_down [] s = s"
| "udp_down (UdpPacket addr b # es) s = (case relay_writeUDPReply addr (take (64 * 1024) b) s of
     (Inl e, s1) \<Rightarrow> s1
   | (Inr _, s1) \<Rightarrow> udp_down es s1)"
| "udp_down (UdpTimeout cancelled # es) s = (if cancelled then s else udp_down es s)"
| "udp_down (UdpError e # es) s = s"

text \<open>
  \<^verbatim>\<open>handleUDPStream\<close>: nothing when the socket cannot be opened or the target does not resolve;
  otherwise both loops, whose datagrams and stream are the results.
\<close>

definition handleUDPStream ::
  "bool \<Rightarrow> (string \<Rightarrow> ip list res) \<Rightarrow> (bytes \<Rightarrow> bool) \<Rightarrow> udp_event list \<Rightarrow> string \<Rightarrow> byte \<Rightarrow> stream
     \<Rightarrow> (ip \<times> int \<times> bytes) list \<times> stream"
where
  "handleUDPStream listens lookup ok events target strategy s =
    (if \<not> listens then ([], s)
     else case resolveUDPAddr lookup target strategy of
       Inl e \<Rightarrow> ([], s)
     | Inr (a, port) \<Rightarrow> (List.map (\<lambda>b. (a, port, b)) (udp_up ok s), udp_down events s))"

section \<open>What the TCP relay keeps\<close>

text \<open>The bytes towards the target, the bytes towards the stream, and the control state.\<close>

definition tcp_up :: "bytes list \<Rightarrow> tcp_relay \<Rightarrow> bool" where
  "tcp_up inp r \<longleftrightarrow> (\<exists>tail. concat inp = t_target r @ tail)
     \<and> (t_main r \<noteq> MReturned \<longrightarrow> (\<exists>tail. concat inp = t_target r @ concat (t_data r) @ tail))
     \<and> (t_main r \<noteq> MReturned \<longrightarrow> \<not> t_cancelled r \<or> t_reader r = RReading \<longrightarrow>
          concat inp = t_target r @ concat (t_data r) @ concat (t_in r))
     \<and> (t_eof r \<longrightarrow> t_main r = MReturned \<and> t_target r = concat inp)"

definition tcp_down :: "bytes list \<Rightarrow> tcp_relay \<Rightarrow> bool" where
  "tcp_down replies r \<longleftrightarrow> (\<exists>tail. concat replies = t_stream r @ tail)
     \<and> (t_main r = MWaiting \<longrightarrow> t_stream r = [] \<and> t_back r = replies)
     \<and> (t_copying r \<longrightarrow> concat replies = t_stream r @ concat (t_back r))"

definition tcp_ctl :: "tcp_relay \<Rightarrow> bool" where
  "tcp_ctl r \<longleftrightarrow> length (t_data r) \<le> 1024
     \<and> t_errs r + (if t_reader r = RDone then 0 else 1) + (if t_dialer r = DDialling then 1 else 0) \<le> 2
     \<and> (t_reader r = RReading \<or> t_in r = [] \<or> t_cancelled r)
     \<and> (t_data_closed r \<longleftrightarrow> t_reader r = RDone)
     \<and> (t_main r = MReturned \<longrightarrow> t_cancelled r)
     \<and> (t_main r = MWaiting \<longrightarrow> \<not> t_copying r)"

text \<open>The resources: where an open connection can be.\<close>

definition tcp_res :: "tcp_relay \<Rightarrow> bool" where
  "tcp_res r \<longleftrightarrow> (t_open r \<longrightarrow> t_dialer r = DReporting \<or> t_dialled r \<or> t_main r = MRelaying)
     \<and> (t_dialled r \<longrightarrow> t_dialer r = DDone) \<and> (t_main r = MRelaying \<longrightarrow> t_dialer r = DDone \<and> \<not> t_dialled r)
     \<and> (t_copying r \<longrightarrow> t_main r \<noteq> MWaiting)
     \<and> (t_copying r \<or> t_main r = MWaiting \<or> t_cancelled r)"

lemma main_returns_sel [simp]:
  "t_main (main_returns r) = MReturned" "t_cancelled (main_returns r)" "t_target (main_returns r) = t_target r"
  "t_data (main_returns r) = t_data r" "t_in (main_returns r) = t_in r" "t_back (main_returns r) = t_back r"
  "t_stream (main_returns r) = t_stream r" "t_errs (main_returns r) = t_errs r"
  "t_reader (main_returns r) = t_reader r" "t_dialer (main_returns r) = t_dialer r"
  "t_data_closed (main_returns r) = t_data_closed r" "t_copying (main_returns r) = t_copying r"
  "t_eof (main_returns r) = t_eof r" "t_dialled (main_returns r) = t_dialled r"
  "t_open (main_returns r) = (t_main r \<noteq> MRelaying \<and> t_open r)"
  by (simp_all add: main_returns_def)

lemma take_prefix: "\<exists>tail. take k b @ tail = b"
  by (metis append_take_drop_id)

lemma tcp_step_ctl:
  assumes "tcp_step r r'" "tcp_ctl r"
  shows "tcp_ctl r'"
  using assms by cases (auto simp: tcp_ctl_def split: if_splits)

text \<open>Steps that leave one direction alone.\<close>

lemma tcp_up_frame:
  assumes "tcp_up inp r" "t_target r' = t_target r" "t_data r' = t_data r" "t_in r' = t_in r"
    "t_eof r' = t_eof r" "t_main r \<noteq> MReturned \<or> t_main r' = MReturned" "t_cancelled r \<longrightarrow> t_cancelled r'" "t_reader r' = RReading \<longrightarrow> t_reader r = RReading"
  shows "tcp_up inp r'"
  using assms unfolding tcp_up_def by metis

lemma tcp_down_frame:
  assumes "tcp_down replies r" "t_stream r' = t_stream r" "t_back r' = t_back r"
    "t_copying r' \<longrightarrow> t_copying r" "t_main r' = MWaiting \<longrightarrow> t_main r = MWaiting"
  shows "tcp_down replies r'"
  using assms unfolding tcp_down_def by metis

lemma tcp_up_prefix:
  assumes "concat inp = t_target r' @ tail" "t_main r' = MReturned" "\<not> t_eof r'"
  shows "tcp_up inp r'"
  using assms unfolding tcp_up_def by blast

lemma tcp_step_up:
  assumes "tcp_step r r'" "tcp_up inp r" "tcp_ctl r"
  shows "tcp_up inp r'"
  using assms(1)
proof cases
  case (rd_empty bs)
  with assms(2) show ?thesis unfolding tcp_up_def by simp
next
  case (rd_data b bs)
  with assms(2) show ?thesis unfolding tcp_up_def by auto
next
  case (rd_dropped b bs)
  with assms(2) show ?thesis unfolding tcp_up_def by simp
next
  case (main_forward b bs)
  with assms(2) show ?thesis unfolding tcp_up_def by auto
next
  case (main_write_error b bs k)
  with assms(2) obtain tail where "concat inp = t_target r @ b @ concat bs @ tail"
    unfolding tcp_up_def by auto
  then have "concat inp = (t_target r @ take k b) @ drop k b @ concat bs @ tail" by simp
  moreover have "\<not> t_eof r" using main_write_error assms(2) unfolding tcp_up_def by auto
  ultimately show ?thesis using main_write_error by (intro tcp_up_prefix) simp_all
next
  case main_eof
  with assms(2) obtain tail where tail: "concat inp = t_target r @ tail"
    and full: "\<not> t_cancelled r \<Longrightarrow> concat inp = t_target r @ concat (t_in r)"
    unfolding tcp_up_def by auto
  from main_eof(4) assms(3) have "t_cancelled r \<or> t_in r = []" unfolding tcp_ctl_def by auto
  then show ?thesis
  proof (cases "t_cancelled r")
    case True
    with tail main_eof show ?thesis by (intro tcp_up_prefix [of _ _ tail]) simp_all
  next
    case False
    with full \<open>t_cancelled r \<or> t_in r = []\<close> have "concat inp = t_target r" by simp
    with main_eof show ?thesis unfolding tcp_up_def by simp
  qed
qed (rule tcp_up_frame [OF assms(2)]; simp)+

lemma tcp_step_down:
  assumes "tcp_step r r'" "tcp_down replies r" "tcp_ctl r"
  shows "tcp_down replies r'"
  using assms(1)
proof cases
  case (copy_write_error b bs k)
  with assms(2) have "concat replies = (t_stream r @ take k b) @ drop k b @ concat bs"
    unfolding tcp_down_def by simp
  moreover have "t_main r \<noteq> MWaiting" using copy_write_error assms(3) unfolding tcp_ctl_def by blast
  ultimately show ?thesis unfolding tcp_down_def copy_write_error(1) by auto
next
  case (copy_data b bs)
  with assms(2) have "concat replies = (t_stream r @ b) @ concat bs"
    unfolding tcp_down_def by simp
  moreover have "t_main r \<noteq> MWaiting" using copy_data assms(3) unfolding tcp_ctl_def by blast
  ultimately show ?thesis unfolding tcp_down_def copy_data(1) by auto
next
  case main_conn
  with assms(2) show ?thesis unfolding tcp_down_def by simp
qed (rule tcp_down_frame [OF assms(2)]; simp)+

lemma tcp_start_inv:
  "tcp_ctl (tcp_start inp replies)" "tcp_up inp (tcp_start inp replies)" "tcp_down replies (tcp_start inp replies)"
  by (simp_all add: tcp_ctl_def tcp_up_def tcp_down_def tcp_start_def)

lemma tcp_step_res:
  assumes "tcp_step r r'" "tcp_res r"
  shows "tcp_res r'"
  using assms by cases (auto simp: tcp_res_def)

text \<open>Every step uses up input, a queued chunk, or a state of a goroutine.\<close>

definition tcp_size :: "tcp_relay \<Rightarrow> nat" where
  "tcp_size r = 2 * length (t_in r) + length (t_data r) + length (t_back r)
     + (case t_reader r of RReading \<Rightarrow> 2 | RReporting \<Rightarrow> 1 | RDone \<Rightarrow> 0)
     + (case t_dialer r of DDialling \<Rightarrow> 2 | DReporting \<Rightarrow> 1 | DDone \<Rightarrow> 0)
     + (case t_main r of MWaiting \<Rightarrow> 3 | MRelaying \<Rightarrow> 1 | MReturned \<Rightarrow> 0)
     + (if t_copying r then 1 else 0)"

lemma tcp_step_size:
  assumes "tcp_step r r'"
  shows "tcp_size r' < tcp_size r"
  using assms by cases (simp_all add: tcp_size_def)

interpretation tcp_run: converging tcp_step "\<lambda>r. tcp_reach inp replies r \<and> tcp_res r" tcp_size for inp replies
  by unfold_locales (auto intro: tcp_next tcp_step_res tcp_step_size)

lemma tcp_steps_reach:
  assumes "(tcp_step ^^ n) (tcp_start inp replies) r"
  shows "tcp_reach inp replies r \<and> tcp_res r \<and> tcp_size r + n \<le> 2 * length inp + length replies + 7"
proof -
  have start: "tcp_reach inp replies (tcp_start inp replies) \<and> tcp_res (tcp_start inp replies)"
    by (simp add: tcp_init tcp_res_def) (simp add: tcp_start_def)
  have "tcp_size (tcp_start inp replies) = 2 * length inp + length replies + 7"
    by (simp add: tcp_start_def tcp_size_def)
  with tcp_run.run_bound [OF assms start] show ?thesis by auto
qed

lemma tcp_reach_inv:
  "tcp_reach inp replies r \<Longrightarrow> tcp_ctl r \<and> tcp_up inp r \<and> tcp_down replies r"
proof (induction rule: tcp_reach.induct)
  case tcp_init
  show ?case using tcp_start_inv by blast
next
  case (tcp_next r r')
  then show ?case using tcp_step_ctl tcp_step_up tcp_step_down by blast
qed

lemma tcp_stuck:
  assumes "\<nexists>r'. tcp_step r r'" "tcp_res r" "tcp_ctl r"
  shows "t_main r = MReturned \<and> t_reader r = RDone \<and> t_dialer r = DDone \<and> \<not> t_copying r"
proof -
  have main: "t_main r = MReturned"
  proof (cases "t_main r")
    case MWaiting
    with assms(1) show ?thesis by (blast intro: main_timeout)
  next
    case MRelaying
    have "t_data r = []" using assms(1) MRelaying main_forward [of r] by (cases "t_data r") blast+
    have "t_copying r \<or> t_cancelled r" using assms(2) MRelaying by (auto simp: tcp_res_def)
    moreover have "\<not> t_cancelled r" using assms(1) MRelaying by (blast intro: main_cancelled)
    moreover have "\<not> t_copying r"
    proof
      assume c: "t_copying r"
      show False
      proof (cases "t_back r = [] \<or> \<not> t_open r")
        case True
        with c assms(1) show False by (blast intro: copy_end)
      next
        case False
        then obtain b bs where "t_back r = b # bs" "t_open r" by (cases "t_back r") auto
        with c assms(1) show False by (blast intro: copy_data)
      qed
    qed
    ultimately show ?thesis by blast
  qed
  then have c: "t_cancelled r" using assms(3) by (auto simp: tcp_ctl_def)
  have "t_reader r = RDone"
  proof (cases "t_reader r")
    case RReading
    show ?thesis
    proof (cases "t_in r")
      case Nil
      with RReading assms(1) show ?thesis by (blast intro: rd_error)
    next
      case (Cons b bs)
      with RReading c assms(1) show ?thesis by (cases "b = []") (blast intro: rd_empty rd_dropped)+
    qed
  next
    case RReporting
    with assms(1) show ?thesis by (blast intro: rd_report)
  qed
  moreover have "t_dialer r = DDone"
    using assms(1) by (cases "t_dialer r") (blast intro: dial_error dial_send)+
  moreover have "\<not> t_copying r"
  proof
    assume "t_copying r"
    moreover have "t_back r = [] \<or> \<not> t_open r \<or> (\<exists>b bs. t_back r = b # bs \<and> t_open r)"
      by (cases "t_back r") auto
    ultimately show False using assms(1) copy_end [of r] copy_data [of r] by blast
  qed
  ultimately show ?thesis using main by blast
qed

section \<open>Properties\<close>

text \<open>
  C7: the TCP relay forwards in order. In every interleaving of its goroutines, what has reached
  the target is a prefix of what the stream carries and what has reached the stream is a prefix of
  what the target sent; the channels stay within their capacities, so no goroutine blocks on an
  error; and when the relay ends because the stream ended, with nothing cancelled, the target has
  received everything.
\<close>

theorem tcp_relay_in_order:
  assumes "tcp_reach inp replies r"
  shows "(\<exists>tail. concat inp = t_target r @ tail) \<and> (\<exists>tail. concat replies = t_stream r @ tail)
    \<and> length (t_data r) \<le> 1024 \<and> t_errs r \<le> 2 \<and> (t_eof r \<longrightarrow> t_target r = concat inp)"
  using tcp_reach_inv [OF assms] by (simp add: tcp_ctl_def tcp_up_def tcp_down_def split: if_splits)

text \<open>
  C8: the TCP relay ends. Whatever the order of events, it takes at most twice the number of reads
  of the stream plus the number of reads of the target plus seven steps; where it stops, all four
  goroutines have returned, and a connection to the target is still open only if it was delivered
  after the main routine had given up waiting.
\<close>

theorem tcp_relay_ends:
  assumes "(tcp_step ^^ n) (tcp_start inp replies) r"
  shows "n \<le> 2 * length inp + length replies + 7 \<and> ((\<nexists>r'. tcp_step r r') \<longrightarrow>
    t_main r = MReturned \<and> t_reader r = RDone \<and> t_dialer r = DDone \<and> \<not> t_copying r
    \<and> (t_open r \<longrightarrow> t_dialled r))"
proof -
  from tcp_steps_reach [OF assms] have r: "tcp_reach inp replies r" "tcp_res r"
    "n \<le> 2 * length inp + length replies + 7" by auto
  from tcp_reach_inv [OF r(1)] have c: "tcp_ctl r" by blast
  have "t_main r = MReturned \<and> t_reader r = RDone \<and> t_dialer r = DDone \<and> \<not> t_copying r
    \<and> (t_open r \<longrightarrow> t_dialled r)" if "\<nexists>r'. tcp_step r r'"
    using tcp_stuck [OF that r(2) c] r(2) by (auto simp: tcp_res_def)
  with r(3) show ?thesis by blast
qed

text \<open>
  A connection can leak. After the time-out the dialler may still deliver its connection, since
  the channel has room: the relay ends with the connection open and no goroutine left to close it.
\<close>

theorem tcp_dial_can_leak:
  "\<exists>r. tcp_reach [] [] r \<and> t_open r \<and> t_main r = MReturned \<and> (\<nexists>r'. tcp_step r r')"
proof -
  let ?r1 = "main_returns (tcp_start [] [])"
  let ?r2 = "?r1\<lparr>t_dialer := DReporting, t_open := True\<rparr>"
  let ?r3 = "?r2\<lparr>t_dialer := DDone, t_dialled := True\<rparr>"
  let ?r4 = "?r3\<lparr>t_reader := RReporting\<rparr>"
  let ?r5 = "?r4\<lparr>t_reader := RDone, t_data_closed := True\<rparr>"
  note d = tcp_start_def main_returns_def
  have 1: "tcp_step (tcp_start [] []) ?r1" by (rule main_timeout) (simp add: d)
  have 2: "tcp_step ?r1 ?r2" by (rule dial_ok) (simp add: d)
  have 3: "tcp_step ?r2 ?r3" by (rule dial_send) simp
  have 4: "tcp_step ?r3 ?r4" by (rule rd_error) (simp_all add: d)
  have 5: "tcp_step ?r4 ?r5" by (rule rd_unheard) (simp_all add: d)
  have "tcp_reach [] [] ?r5"
    by (rule tcp_next [OF tcp_next [OF tcp_next [OF tcp_next [OF tcp_next [OF tcp_init 1] 2] 3] 4] 5])
  moreover have "\<nexists>r'. tcp_step ?r5 r'" by (auto elim!: tcp_stepE simp: d)
  moreover have "t_open ?r5" "t_main ?r5 = MReturned" by simp_all
  ultimately show ?thesis by blast
qed

lemma tcp_returned_target:
  assumes "tcp_step r r'" "t_main r = MReturned"
  shows "t_main r' = MReturned \<and> t_target r' = t_target r"
  using assms by cases simp_all

text \<open>
  Data sent before the connection is made can be lost. A client that sends its request and
  closes its side of the stream while the server is still dialling can find everything discarded:
  the end of the stream is reported on the same channel as a failed dial, and the relay gives up
  with the data still queued.
\<close>

theorem tcp_early_close_drops:
  assumes "b \<noteq> []"
  shows "\<exists>r. tcp_reach [b] [] r \<and> t_data r = [b] \<and> t_dialer r = DDialling \<and> t_target r = []
    \<and> (\<forall>r'. tcp_step\<^sup>*\<^sup>* r r' \<longrightarrow> t_main r' = MReturned \<and> t_target r' = [])"
proof -
  let ?r0 = "tcp_start [b] []"
  let ?r1 = "?r0\<lparr>t_in := [], t_data := [b]\<rparr>"
  let ?r2 = "?r1\<lparr>t_reader := RReporting\<rparr>"
  let ?r3 = "?r2\<lparr>t_errs := t_errs ?r2 + 1, t_reader := RDone, t_data_closed := True\<rparr>"
  let ?r4 = "main_returns (?r3\<lparr>t_errs := t_errs ?r3 - 1\<rparr>)"
  note d = tcp_start_def
  have 1: "tcp_step ?r0 ?r1" using rd_data [of ?r0 b "[]"] assms by (simp add: d)
  have 2: "tcp_step ?r1 ?r2" by (rule rd_error) (simp_all add: d)
  have 3: "tcp_step ?r2 ?r3" by (rule rd_report) simp
  have 4: "tcp_step ?r3 ?r4" by (rule main_err) (simp_all add: d)
  have r: "tcp_reach [b] [] ?r4"
    by (rule tcp_next [OF tcp_next [OF tcp_next [OF tcp_next [OF tcp_init 1] 2] 3] 4])
  have "t_main r' = MReturned \<and> t_target r' = []" if "tcp_step\<^sup>*\<^sup>* ?r4 r'" for r'
    using that by (induction rule: rtranclp_induct) (auto simp: d dest: tcp_returned_target)
  with r show ?thesis by (intro exI [of _ ?r4]) (simp add: d)
qed

theorem tcp_early_close_drops_witness:
  "\<exists>r. tcp_reach [[71, 69, 84]] [] r \<and> t_data r = [[71, 69, 84]] \<and> t_target r = []"
  using tcp_early_close_drops [of "[71, 69, 84]"] by auto

text \<open>A relay that forwards one chunk each way.\<close>

definition tcp_example :: tcp_relay where
  "tcp_example = \<lparr>t_in = [], t_data = [], t_data_closed = False, t_errs = 0, t_dialled = False,
     t_reader = RReading, t_dialer = DDone, t_main = MRelaying, t_cancelled = False, t_open = True,
     t_target = [1, 2], t_back = [], t_copying = True, t_stream = [3], t_eof = False\<rparr>"

lemma tcp_example_steps: "(tcp_step ^^ 6) (tcp_start [[1, 2]] [[3]]) tcp_example"
proof -
  let ?mk = "\<lambda>i d dl dg m o1 tg bk c st. \<lparr>t_in = i, t_data = d, t_data_closed = False, t_errs = 0,
     t_dialled = dl, t_reader = RReading, t_dialer = dg, t_main = m, t_cancelled = False, t_open = o1,
     t_target = tg, t_back = bk, t_copying = c, t_stream = st, t_eof = False\<rparr>"
  let ?r0 = "?mk [[1, 2]] [] False DDialling MWaiting False [] [[3]] False []"
  let ?r1 = "?mk [] [[1, 2]] False DDialling MWaiting False [] [[3]] False []"
  let ?r2 = "?mk [] [[1, 2]] False DReporting MWaiting True [] [[3]] False []"
  let ?r3 = "?mk [] [[1, 2]] True DDone MWaiting True [] [[3]] False []"
  let ?r4 = "?mk [] [[1, 2]] False DDone MRelaying True [] [[3]] True []"
  let ?r5 = "?mk [] [] False DDone MRelaying True [1, 2] [[3]] True []"
  let ?r6 = "?mk [] [] False DDone MRelaying True [1, 2] [] True [3]"
  have "tcp_step ?r0 ?r1" using rd_data [of ?r0 "[1, 2]" "[]"] by simp
  then have 1: "(tcp_step ^^ 1) ?r0 ?r1" by (simp only: relpowp_1)
  have 2: "tcp_step ?r1 ?r2" using dial_ok [of ?r1] by simp
  have 3: "tcp_step ?r2 ?r3" using dial_send [of ?r2] by simp
  have 4: "tcp_step ?r3 ?r4" using main_conn [of ?r3] by simp
  have 5: "tcp_step ?r4 ?r5" using main_forward [of ?r4 "[1, 2]" "[]"] by simp
  have 6: "tcp_step ?r5 ?r6" using copy_data [of ?r5 "[3]" "[]"] by simp
  have "(tcp_step ^^ 6) ?r0 ?r6"
    by (rule relpowp_snoc [OF relpowp_snoc [OF relpowp_snoc [OF relpowp_snoc [OF relpowp_snoc
      [OF 1 2] 3] 4] 5] 6]) simp_all
  then show ?thesis by (simp only: tcp_start_def tcp_example_def)
qed

theorem tcp_relay_in_order_witness:
  "\<exists>tail. concat [[1, 2]] = t_target tcp_example @ tail"
  using tcp_relay_in_order [of "[[1, 2]]" "[[3]]" tcp_example] tcp_steps_reach [OF tcp_example_steps] by blast

theorem tcp_relay_ends_witness:
  "(tcp_step ^^ 6) (tcp_start [[1, 2]] [[3]]) tcp_example
     \<and> 6 \<le> 2 * length [[1, 2 :: byte]] + length [[3 :: byte]] + 7"
  using tcp_relay_ends [OF tcp_example_steps] tcp_example_steps by blast

section \<open>The UDP relay end to end\<close>

lemma udp_up_chunks:
  "list_all (\<lambda>b. length b < 65536) bs \<Longrightarrow> s_in s = concat (List.map chunk_enc bs) \<Longrightarrow>
     udp_up (\<lambda>_. True) s = List.filter (\<lambda>b. b \<noteq> []) bs"
proof (induction bs arbitrary: s)
  case Nil
  then have "relay_readChunk s = (Inl (s_end s), s\<lparr>s_in := []\<rparr>)"
    by (simp add: relay_readChunk_def ReadFull_short)
  then show ?case by (subst udp_up.simps) simp
next
  case (Cons b bs)
  from Cons.prems have "length b < 65536" "s_in s = chunk_enc b @ concat (List.map chunk_enc bs)"
    by simp_all
  from chk.rd_enc [OF this] obtain s1 where s1: "relay_readChunk s = (Inr b, s1)"
    "s_in s1 = concat (List.map chunk_enc bs)" by blast
  with Cons.IH [of s1] Cons.prems show ?case by (subst udp_up.simps) simp
qed

text \<open>The same when the end of the bytes has not arrived yet: whole chunks only, from the front.\<close>

lemma udp_up_prefix:
  "list_all (\<lambda>b. length b < 65536) bs \<Longrightarrow> concat (List.map chunk_enc bs) = s_in s @ rest \<Longrightarrow>
     \<exists>tail. List.filter (\<lambda>b. b \<noteq> []) bs = udp_up (\<lambda>_. True) s @ tail"
proof (induction bs arbitrary: s)
  case Nil
  then have "relay_readChunk s = (Inl (s_end s), s\<lparr>s_in := []\<rparr>)"
    by (simp add: relay_readChunk_def ReadFull_short)
  then show ?case by (subst udp_up.simps) simp
next
  case (Cons b bs)
  then have b: "length b < 65536" "list_all (\<lambda>b. length b < 65536) bs"
    "chunk_enc b @ concat (List.map chunk_enc bs) = s_in s @ rest" by simp_all
  show ?case
  proof (cases "length (s_in s) < length (chunk_enc b)")
    case True
    with b(3) have "s_in s = take (length (s_in s)) (chunk_enc b)"
      by (metis append_eq_append_conv_if less_imp_le not_less take_all_iff)
    from chk.rd_cut [OF b(1) True this] obtain e s1 where "relay_readChunk s = (Inl e, s1)" by blast
    then show ?thesis by (subst udp_up.simps) simp
  next
    case False
    with b(3) have "s_in s = chunk_enc b @ drop (length (chunk_enc b)) (s_in s)"
      "concat (List.map chunk_enc bs) = drop (length (chunk_enc b)) (s_in s) @ rest"
      by (auto simp: append_eq_append_conv_if split: if_splits) (metis append_take_drop_id)
    with chk.rd_enc [OF b(1)] obtain s1 where s1: "relay_readChunk s = (Inr b, s1)"
      "concat (List.map chunk_enc bs) = s_in s1 @ rest" by metis
    from Cons.IH [OF b(2) s1(2)] s1(1) show ?thesis by (subst udp_up.simps) auto
  qed
qed

lemma udp_down_packets:
  "list_all (\<lambda>(a, d). length a \<le> 65535 \<and> length d < 65536) ms \<Longrightarrow> s_wr s = [] \<Longrightarrow>
     s_out (udp_down (List.map (\<lambda>(a, d). UdpPacket a d) ms) s)
       = s_out s @ concat (List.map udp_reply_enc ms)"
proof (induction ms arbitrary: s)
  case Nil
  then show ?case by simp
next
  case (Cons m ms)
  obtain a d where m: "m = (a, d)" by fastforce
  with Cons.prems have ok: "length a \<le> 65535" "length d < 65536" by simp_all
  from udp.wr_enc [of "(a, d)" s] ok Cons.prems(2) obtain s1 where
    s1: "relay_writeUDPReply a d s = (Inr (), s1)" "s_out s1 = s_out s @ udp_reply_enc (a, d)" "s_wr s1 = []"
    by auto
  with Cons.IH [of s1] Cons.prems m ok show ?case by simp
qed

text \<open>
  UDP end to end. For a target that resolves, the relay sends to it exactly the non-empty
  datagrams the client has written to the stream, in order; and the replies it receives are read by
  the client from the stream as they came, with their source addresses, in order.
\<close>

theorem udp_relay_end_to_end:
  assumes "resolveUDPAddr lookup target strategy = Inr (a, port)"
    and "list_all (\<lambda>b. length b < 65536) bs" "s_out w = []" "s_wr w = []"
    and "write_all client_writeChunk bs w = (r, w')" "s_in s = s_out w'" "s_out s = []" "s_wr s = []"
    and "list_all (\<lambda>(a, d). length a \<le> 65535 \<and> length d < 65536) ms"
    and "handleUDPStream True lookup (\<lambda>_. True) (List.map (\<lambda>(a, d). UdpPacket a d) ms) target strategy s
      = (sent, s')" "s_in c = s_out s'"
  shows "sent = List.map (\<lambda>b. (a, port, b)) (List.filter (\<lambda>b. b \<noteq> []) bs)
    \<and> (\<exists>c'. read_n client_readUDPReply (length ms) c = (Inr ms, c') \<and> s_in c' = [])"
proof -
  from chk.write_all_enc [OF assms(2,4)] assms(3,5) have "s_out w' = concat (List.map chunk_enc bs)" by auto
  with assms(6) udp_up_chunks [OF assms(2)] have "udp_up (\<lambda>_. True) s = List.filter (\<lambda>b. b \<noteq> []) bs" by simp
  moreover from udp_down_packets [OF assms(9,8)] assms(1,7,10)
  have "s_out s' = concat (List.map udp_reply_enc ms)" by (auto simp: handleUDPStream_def)
  with assms(11) have "s_in c = concat (List.map udp_reply_enc ms) @ []" by simp
  from udp.read_n_enc [OF assms(9) this]
  have "\<exists>c'. read_n client_readUDPReply (length ms) c = (Inr ms, c') \<and> s_in c' = []" .
  ultimately show ?thesis using assms(1,10) by (auto simp: handleUDPStream_def)
qed

theorem udp_relay_end_to_end_witness:
  "let w = write_all client_writeChunk [[1, 2], [], [3]] (fresh_stream []);
       h = handleUDPStream True (\<lambda>_. Inl Timeout) (\<lambda>_. True) [UdpPacket ''1.1.1.1:53'' [9]]
             (JoinHostPort (dotted [8, 8, 8, 8]) (dec_of_nat 53)) IPStrategyIPv4Prefer (fresh_stream (s_out (snd w)))
   in fst h = [(v4InV6Prefix @ [8, 8, 8, 8], 53, [1, 2]), (v4InV6Prefix @ [8, 8, 8, 8], 53, [3])]
     \<and> (\<exists>c'. read_n client_readUDPReply 1 (fresh_stream (s_out (snd h))) = (Inr [(''1.1.1.1:53'', [9])], c'))"
proof -
  have a: "resolveUDPAddr (\<lambda>_. Inl Timeout) (JoinHostPort (dotted [8, 8, 8, 8]) (dec_of_nat 53)) IPStrategyIPv4Prefer
      = Inr (v4InV6Prefix @ [8, 8, 8, 8], 53)"
    using resolveUDPAddr_IPv4 [where quad = "[8, 8, 8, 8]" and n = 53 and lookup = "\<lambda>_. Inl Timeout"
      and st = IPStrategyIPv4Prefer] by simp
  from udp_relay_end_to_end [OF a, of "[[1, 2], [], [3]]" "fresh_stream []" _ _
      "fresh_stream (s_out (snd (write_all client_writeChunk [[1, 2], [], [3]] (fresh_stream []))))"
      "[(''1.1.1.1:53'', [9])]", OF _ _ _ prod.collapse [symmetric] _ _ _ _ prod.collapse [symmetric] fresh_stream_sel(1)]
  show ?thesis by (auto simp: Let_def simp del: read_n.simps write_all.simps strategy_consts)
qed

end
