(* ===== verification/Config.thy ===== *)
theory Config
  imports GoStd Constants
begin

text \<open>
  Configuration loading, \<^verbatim>\<open>internal/config/config.go\<close>: what \<^verbatim>\<open>encoding/json\<close> does with the
  decoded document and these two structs, the defaults, the IP strategy and the server's list of
  allowed UUIDs. Reading and tokenising the file is the argument \<open>open_json\<close>.
\<close>

section \<open>The structs\<close>

record CommonConfig =
  DialTimeout :: int
  KeepAlive :: int
  UpPack :: int
  ChunkMs :: int
  Concur :: int
  MaxQueueBytes :: int
  ReadBuf :: int
  IPStrategy :: byte
  UtlsFingerprint :: string
  Fallback :: bool
  DNSServer :: string
  ECHDomain :: string
  Insecure :: bool
  Token :: string
  IPOverride :: string

record ClientConfig = CommonConfig +
  UUID :: string
  ServerAddr :: string
  LocalSocks5 :: string
  LocalHTTP :: string

record ServerConfig = CommonConfig +
  ListenAddr :: string
  AuthUUIDs :: "string list"
  AuthUUIDBin :: "bytes list"
  DnPack :: int
  DnTail :: int
  DnQr :: int

definition zero_client :: ClientConfig where
  "zero_client = \<lparr>DialTimeout = 0, KeepAlive = 0, UpPack = 0, ChunkMs = 0, Concur = 0,
     MaxQueueBytes = 0, ReadBuf = 0, IPStrategy = 0, UtlsFingerprint = [], Fallback = False,
     DNSServer = [], ECHDomain = [], Insecure = False, Token = [], IPOverride = [],
     UUID = [], ServerAddr = [], LocalSocks5 = [], LocalHTTP = []\<rparr>"

definition zero_server :: ServerConfig where
  "zero_server = \<lparr>DialTimeout = 0, KeepAlive = 0, UpPack = 0, ChunkMs = 0, Concur = 0,
     MaxQueueBytes = 0, ReadBuf = 0, IPStrategy = 0, UtlsFingerprint = [], Fallback = False,
     DNSServer = [], ECHDomain = [], Insecure = False, Token = [], IPOverride = [],
     ListenAddr = [], AuthUUIDs = [], AuthUUIDBin = [], DnPack = 0, DnTail = 0, DnQr = 0\<rparr>"

section \<open>JSON values into fields\<close>

text \<open>
  A decoded document. A number is an integer literal or another number. A setter returns whether
  the value fitted the field's type (a misfit is Go's \<^verbatim>\<open>UnmarshalTypeError\<close>: the field keeps its
  value, decoding goes on, and the first such error is the result).
\<close>

datatype json =
    JNull
  | JBool bool
  | JInt int
  | JFrac string
  | JStr string
  | JArr "json list"
  | JObj "(string \<times> json) list"

definition set_int64 :: "(int \<Rightarrow> 'c \<Rightarrow> 'c) \<Rightarrow> json \<Rightarrow> 'c \<Rightarrow> bool \<times> 'c" where
  "set_int64 upd v c = (case v of
     JNull \<Rightarrow> (True, c)
   | JInt n \<Rightarrow> (if - (2 ^ 63) \<le> n \<and> n < 2 ^ 63 then (True, upd n c) else (False, c))
   | _ \<Rightarrow> (False, c))"

definition set_uint8 :: "(byte \<Rightarrow> 'c \<Rightarrow> 'c) \<Rightarrow> json \<Rightarrow> 'c \<Rightarrow> bool \<times> 'c" where
  "set_uint8 upd v c = (case v of
     JNull \<Rightarrow> (True, c)
   | JInt n \<Rightarrow> (if 0 \<le> n \<and> n < 256 then (True, upd (word_of_int n) c) else (False, c))
   | _ \<Rightarrow> (False, c))"

definition set_string :: "(string \<Rightarrow> 'c \<Rightarrow> 'c) \<Rightarrow> json \<Rightarrow> 'c \<Rightarrow> bool \<times> 'c" where
  "set_string upd v c = (case v of
     JNull \<Rightarrow> (True, c) | JStr t \<Rightarrow> (True, upd t c) | _ \<Rightarrow> (False, c))"

definition set_bool :: "(bool \<Rightarrow> 'c \<Rightarrow> 'c) \<Rightarrow> json \<Rightarrow> 'c \<Rightarrow> bool \<times> 'c" where
  "set_bool upd v c = (case v of
     JNull \<Rightarrow> (True, c) | JBool t \<Rightarrow> (True, upd t c) | _ \<Rightarrow> (False, c))"

definition set_strings :: "(string list \<Rightarrow> 'c \<Rightarrow> 'c) \<Rightarrow> json \<Rightarrow> 'c \<Rightarrow> bool \<times> 'c" where
  "set_strings upd v c = (case v of
     JNull \<Rightarrow> (True, upd [] c)
   | JArr vs \<Rightarrow>
       (list_all (\<lambda>x. case x of JStr _ \<Rightarrow> True | JNull \<Rightarrow> True | _ \<Rightarrow> False) vs,
        upd (List.map (\<lambda>x. case x of JStr t \<Rightarrow> t | _ \<Rightarrow> []) vs) c)
   | _ \<Rightarrow> (False, c))"

type_synonym 'c fields = "(string \<times> (json \<Rightarrow> 'c \<Rightarrow> bool \<times> 'c)) list"

text \<open>
  The JSON names of the fields, from the struct tags. \<^verbatim>\<open>IPStrategy\<close> has no tag, so its JSON name
  is the Go name.
\<close>

definition common_fields :: "'a CommonConfig_scheme fields" where
  "common_fields =
    [(''dial_timeout'', set_int64 (\<lambda>n c. c\<lparr>DialTimeout := n\<rparr>)),
     (''keep_alive_interval'', set_int64 (\<lambda>n c. c\<lparr>KeepAlive := n\<rparr>)),
     (''up_pack'', set_int64 (\<lambda>n c. c\<lparr>UpPack := n\<rparr>)),
     (''chunk_ms'', set_int64 (\<lambda>n c. c\<lparr>ChunkMs := n\<rparr>)),
     (''concur'', set_int64 (\<lambda>n c. c\<lparr>Concur := n\<rparr>)),
     (''max_queue_bytes'', set_int64 (\<lambda>n c. c\<lparr>MaxQueueBytes := n\<rparr>)),
     (''read_buf'', set_int64 (\<lambda>n c. c\<lparr>ReadBuf := n\<rparr>)),
     (''IPStrategy'', set_uint8 (\<lambda>n c. c\<lparr>IPStrategy := n\<rparr>)),
     (''utls_fingerprint'', set_string (\<lambda>n c. c\<lparr>UtlsFingerprint := n\<rparr>)),
     (''fallback'', set_bool (\<lambda>n c. c\<lparr>Fallback := n\<rparr>)),
     (''dns_server'', set_string (\<lambda>n c. c\<lparr>DNSServer := n\<rparr>)),
     (''ech_domain'', set_string (\<lambda>n c. c\<lparr>ECHDomain := n\<rparr>)),
     (''insecure'', set_bool (\<lambda>n c. c\<lparr>Insecure := n\<rparr>)),
     (''token'', set_string (\<lambda>n c. c\<lparr>Token := n\<rparr>)),
     (''ip_override'', set_string (\<lambda>n c. c\<lparr>IPOverride := n\<rparr>))]"

definition client_fields :: "ClientConfig fields" where
  "client_fields = common_fields @
    [(''uuid'', set_string (\<lambda>n c. c\<lparr>UUID := n\<rparr>)),
     (''server_addr'', set_string (\<lambda>n c. c\<lparr>ServerAddr := n\<rparr>)),
     (''local_socks5'', set_string (\<lambda>n c. c\<lparr>LocalSocks5 := n\<rparr>)),
     (''local_http'', set_string (\<lambda>n c. c\<lparr>LocalHTTP := n\<rparr>))]"

definition server_fields :: "ServerConfig fields" where
  "server_fields = common_fields @
    [(''listen_addr'', set_string (\<lambda>n c. c\<lparr>ListenAddr := n\<rparr>)),
     (''auth_uuids'', set_strings (\<lambda>n c. c\<lparr>AuthUUIDs := n\<rparr>)),
     (''dn_pack'', set_int64 (\<lambda>n c. c\<lparr>DnPack := n\<rparr>)),
     (''dn_tail'', set_int64 (\<lambda>n c. c\<lparr>DnTail := n\<rparr>)),
     (''dn_qr'', set_int64 (\<lambda>n c. c\<lparr>DnQr := n\<rparr>))]"

definition ascii_lower :: "string \<Rightarrow> string" where
  "ascii_lower s = List.map (\<lambda>c. if 65 \<le> ord_of c \<and> ord_of c \<le> 90 then char_of (ord_of c + 32) else c) s"

text \<open>A key selects the field of exactly that name, else the first that agrees up to letter case.\<close>

definition field_of :: "'c fields \<Rightarrow> string \<Rightarrow> (json \<Rightarrow> 'c \<Rightarrow> bool \<times> 'c) option" where
  "field_of fs k = (case map_of fs k of
     Some f \<Rightarrow> Some f
   | None \<Rightarrow> map_of (List.map (\<lambda>(n, f). (ascii_lower n, f)) fs) (ascii_lower k))"

fun decode_object :: "'c fields \<Rightarrow> (string \<times> json) list \<Rightarrow> 'c \<Rightarrow> bool \<times> 'c" where
  "decode_object fs [] c = (True, c)"
| "decode_object fs ((k, v) # kvs) c = (case field_of fs k of
     None \<Rightarrow> decode_object fs kvs c
   | Some setter \<Rightarrow> (case setter v c of (fits, c') \<Rightarrow>
       (case decode_object fs kvs c' of (fits', c'') \<Rightarrow> (fits \<and> fits', c''))))"

definition decode_json :: "'c fields \<Rightarrow> json \<Rightarrow> 'c \<Rightarrow> bool \<times> 'c" where
  "decode_json fs v c = (case v of
     JNull \<Rightarrow> (True, c) | JObj kvs \<Rightarrow> decode_object fs kvs c | _ \<Rightarrow> (False, c))"

section \<open>Defaults and the IP strategy\<close>

text \<open>Durations are nanoseconds.\<close>

definition setCommonDefaults :: "'a CommonConfig_scheme \<Rightarrow> 'a CommonConfig_scheme" where
  "setCommonDefaults c = c\<lparr>
     DialTimeout := if DialTimeout c = 0 then 10 * 10 ^ 9 else DialTimeout c,
     KeepAlive := if KeepAlive c = 0 then 30 * 10 ^ 9 else KeepAlive c,
     UpPack := if UpPack c = 0 then 20 * 1024 else UpPack c,
     ChunkMs := if ChunkMs c = 0 then 20 else ChunkMs c,
     Concur := if Concur c = 0 then 2 else Concur c,
     MaxQueueBytes := if MaxQueueBytes c = 0 then 128 * 1024 else MaxQueueBytes c,
     ReadBuf := if ReadBuf c = 0 then 64 * 1024 else ReadBuf c,
     UtlsFingerprint := if UtlsFingerprint c = [] then ''chrome_120'' else UtlsFingerprint c,
     DNSServer := if DNSServer c = [] then ''https://doh.pub/dns-query'' else DNSServer c,
     ECHDomain := if ECHDomain c = [] then ''cloudflare-ech.com'' else ECHDomain c\<rparr>"

definition parseStrategy :: "string \<Rightarrow> byte" where
  "parseStrategy s =
    (if s = ''ipv4_only'' then IPStrategyIPv4Only
     else if s = ''ipv6_only'' then IPStrategyIPv6Only
     else if s = ''ipv4_prefer'' then IPStrategyIPv4Prefer
     else if s = ''ipv6_prefer'' then IPStrategyIPv6Prefer
     else IPStrategyIPv4Prefer)"

section \<open>Loading\<close>

text \<open>
  \<open>open_json path\<close> is the file opened and its first JSON value, or the error of either. Both
  loaders call \<^verbatim>\<open>parseStrategy(c.IPStrategy)\<close>, whose argument is a byte where the parameter is a
  string: the Go compiler refuses it. The conversion meant there is the argument \<open>to_text\<close>.
\<close>

record conf_globals =
  ClientConf :: "ClientConfig option"
  ServerConf :: "ServerConfig option"

definition LoadClientConfig ::
  "(byte \<Rightarrow> string) \<Rightarrow> (string \<Rightarrow> json res) \<Rightarrow> string \<Rightarrow> conf_globals \<Rightarrow> go_error option \<times> conf_globals"
where
  "LoadClientConfig to_text open_json path g = (case open_json path of
     Inl e \<Rightarrow> (Some e, g)
   | Inr doc \<Rightarrow> (case decode_json client_fields doc zero_client of
       (False, _) \<Rightarrow> (Some (Errorf ''json: cannot unmarshal''), g)
     | (True, c) \<Rightarrow>
         let c1 = setCommonDefaults c;
             c2 = c1\<lparr>IPStrategy := parseStrategy (to_text (IPStrategy c1))\<rparr>
         in (None, g\<lparr>ClientConf := Some c2\<rparr>)))"

definition decode_auth_uuid :: "string \<Rightarrow> bytes res" where
  "decode_auth_uuid s =
    (let cleaned = RemoveAll (CHR ''-'') s
     in if length cleaned \<noteq> 32 then Inl (Errorf ''invalid UUID length'')
        else case hex_decode cleaned of
           None \<Rightarrow> Inl (Errorf ''decode UUID'')
         | Some b \<Rightarrow> (if length b \<noteq> UUIDLength then Inl (Errorf ''UUID length mismatch'') else Inr b))"

fun decode_auth_uuids :: "string list \<Rightarrow> bytes list \<Rightarrow> (bytes list) res" where
  "decode_auth_uuids [] acc = Inr acc"
| "decode_auth_uuids (s # ss) acc = (case decode_auth_uuid s of
     Inl e \<Rightarrow> Inl e
   | Inr b \<Rightarrow> decode_auth_uuids ss (acc @ [b]))"

definition LoadServerConfig ::
  "(byte \<Rightarrow> string) \<Rightarrow> (string \<Rightarrow> json res) \<Rightarrow> string \<Rightarrow> conf_globals \<Rightarrow> go_error option \<times> conf_globals"
where
  "LoadServerConfig to_text open_json path g = (case open_json path of
     Inl e \<Rightarrow> (Some e, g)
   | Inr doc \<Rightarrow> (case decode_json server_fields doc zero_server of
       (False, _) \<Rightarrow> (Some (Errorf ''json: cannot unmarshal''), g)
     | (True, c) \<Rightarrow>
         let c1 = setCommonDefaults c;
             c2 = c1\<lparr>IPStrategy := parseStrategy (to_text (IPStrategy c1))\<rparr>;
             c3 = (if DnPack c2 \<le> 0 then c2\<lparr>DnPack := 32768\<rparr> else c2);
             c4 = (if DnTail c3 \<le> 0 then c3\<lparr>DnTail := 512\<rparr> else c3);
             c5 = (if DnQr c4 \<le> 0 then c4\<lparr>DnQr := 4\<rparr> else c4)
         in case decode_auth_uuids (AuthUUIDs c5) [] of
              Inl e \<Rightarrow> (Some e, g)
            | Inr bins \<Rightarrow> (None, g\<lparr>ServerConf := Some (c5\<lparr>AuthUUIDBin := bins\<rparr>)\<rparr>)))"

section \<open>Lemmas\<close>

lemma decode_object_misfit:
  assumes "(k, v) \<in> set kvs" "field_of fs k = Some setter" "\<And>c. \<not> fst (setter v c)"
  shows "\<not> fst (decode_object fs kvs c)"
  using assms(1)
proof (induction kvs arbitrary: c)
  case Nil
  then show ?case by simp
next
  case (Cons kv kvs)
  then show ?case
    using assms(2,3) by (cases kv) (auto split: option.splits prod.splits, (metis fst_conv)+)
qed

lemma field_of_common: "map_of common_fields k = Some f \<Longrightarrow> field_of (common_fields @ fs) k = Some f"
  by (simp add: field_of_def map_add_def)

lemma set_int64_JStr: "\<not> fst (set_int64 upd (JStr d) c)"
  by (simp add: set_int64_def)

lemma duration_field:
  assumes "k = ''dial_timeout'' \<or> k = ''keep_alive_interval''"
  obtains upd where "field_of (common_fields @ fs) k = Some (set_int64 upd)"
proof (cases "k = ''dial_timeout''")
  case True
  show thesis
    by (rule that, rule field_of_common) (simp add: common_fields_def True)
next
  case False
  with assms have "k = ''keep_alive_interval''" by simp
  then show thesis
    by (intro that field_of_common) (simp add: common_fields_def)
qed

lemma parseStrategy_range:
  "parseStrategy s \<in> {IPStrategyIPv4Only, IPStrategyIPv6Only, IPStrategyIPv4Prefer, IPStrategyIPv6Prefer}"
  by (simp add: parseStrategy_def)

lemma parseStrategy_short: "length s < 9 \<Longrightarrow> parseStrategy s = IPStrategyIPv4Prefer"
  by (auto simp: parseStrategy_def)

lemma setCommonDefaults_sel [simp]:
  "DialTimeout (setCommonDefaults c) = (if DialTimeout c = 0 then 10 * 10 ^ 9 else DialTimeout c)"
  "KeepAlive (setCommonDefaults c) = (if KeepAlive c = 0 then 30 * 10 ^ 9 else KeepAlive c)"
  "UpPack (setCommonDefaults c) = (if UpPack c = 0 then 20 * 1024 else UpPack c)"
  "ChunkMs (setCommonDefaults c) = (if ChunkMs c = 0 then 20 else ChunkMs c)"
  "Concur (setCommonDefaults c) = (if Concur c = 0 then 2 else Concur c)"
  "MaxQueueBytes (setCommonDefaults c) = (if MaxQueueBytes c = 0 then 128 * 1024 else MaxQueueBytes c)"
  "ReadBuf (setCommonDefaults c) = (if ReadBuf c = 0 then 64 * 1024 else ReadBuf c)"
  "UtlsFingerprint (setCommonDefaults c) =
     (if UtlsFingerprint c = [] then ''chrome_120'' else UtlsFingerprint c)"
  "DNSServer (setCommonDefaults c) =
     (if DNSServer c = [] then ''https://doh.pub/dns-query'' else DNSServer c)"
  "ECHDomain (setCommonDefaults c) =
     (if ECHDomain c = [] then ''cloudflare-ech.com'' else ECHDomain c)"
  "IPStrategy (setCommonDefaults c) = IPStrategy c"
  "Fallback (setCommonDefaults c) = Fallback c"
  "Insecure (setCommonDefaults c) = Insecure c"
  "Token (setCommonDefaults c) = Token c"
  "IPOverride (setCommonDefaults c) = IPOverride c"
  "CommonConfig.more (setCommonDefaults c) = CommonConfig.more c"
  by (simp_all add: setCommonDefaults_def)

lemma decode_auth_uuids_acc:
  "decode_auth_uuids ss acc = Inr bins \<longleftrightarrow>
     (\<exists>bs. bins = acc @ bs \<and> list_all2 (\<lambda>s b. decode_auth_uuid s = Inr b) ss bs)"
proof (induction ss arbitrary: acc)
  case Nil
  then show ?case by auto
next
  case (Cons s ss)
  then show ?case
    by (auto simp: list_all2_Cons1 split: sum.splits)
qed

lemma decode_auth_uuid_length: "decode_auth_uuid s = Inr b \<Longrightarrow> length b = 16"
  by (auto simp: decode_auth_uuid_def Let_def split: if_splits option.splits)

lemma LoadServerConfig_cases:
  assumes "LoadServerConfig tt open_json path g = (r, g')"
  obtains (failed) e where "r = Some e" "g' = g"
  | (loaded) doc c bins where "r = None" "open_json path = Inr doc"
      "decode_json server_fields doc zero_server = (True, c)"
      "decode_auth_uuids (AuthUUIDs c) [] = Inr bins"
      "g' = g\<lparr>ServerConf := Some
        ((setCommonDefaults c)\<lparr>IPStrategy := parseStrategy (tt (IPStrategy c)),
           DnPack := (if DnPack c \<le> 0 then 32768 else DnPack c),
           DnTail := (if DnTail c \<le> 0 then 512 else DnTail c),
           DnQr := (if DnQr c \<le> 0 then 4 else DnQr c), AuthUUIDBin := bins\<rparr>)\<rparr>"
proof (cases "open_json path")
  case (Inl e)
  with assms failed show thesis by (auto simp: LoadServerConfig_def)
next
  case (Inr doc)
  have more: "DnPack (setCommonDefaults c) = DnPack c" "DnTail (setCommonDefaults c) = DnTail c"
    "DnQr (setCommonDefaults c) = DnQr c" "AuthUUIDs (setCommonDefaults c) = AuthUUIDs c"
    for c :: ServerConfig
    by (simp_all add: setCommonDefaults_def)
  show thesis
    using assms Inr
    by (auto simp: LoadServerConfig_def Let_def more split: prod.splits bool.splits sum.splits if_splits
        intro: failed loaded)
qed

lemma LoadServerConfig_facts:
  assumes "LoadServerConfig tt open_json path g = (r, g')"
  shows "(case r of
     Some e \<Rightarrow> g' = g
   | None \<Rightarrow> \<exists>c. ServerConf g' = Some c \<and> ClientConf g' = ClientConf g
       \<and> list_all2 (\<lambda>s b. decode_auth_uuid s = Inr b \<and> length b = 16) (AuthUUIDs c) (AuthUUIDBin c)
       \<and> 0 < DnPack c \<and> 0 < DnTail c \<and> 0 < DnQr c
       \<and> DialTimeout c \<noteq> 0 \<and> KeepAlive c \<noteq> 0 \<and> UpPack c \<noteq> 0 \<and> ChunkMs c \<noteq> 0 \<and> Concur c \<noteq> 0
       \<and> MaxQueueBytes c \<noteq> 0 \<and> ReadBuf c \<noteq> 0
       \<and> IPStrategy c \<in> {IPStrategyIPv4Only, IPStrategyIPv6Only, IPStrategyIPv4Prefer, IPStrategyIPv6Prefer})"
  using assms
proof (cases rule: LoadServerConfig_cases)
  case (loaded doc c bins)
  have "AuthUUIDs (setCommonDefaults c) = AuthUUIDs c"
    by (simp add: setCommonDefaults_def)
  moreover have "list_all2 (\<lambda>s b. decode_auth_uuid s = Inr b \<and> length b = 16) (AuthUUIDs c) bins"
    using loaded(4) by (auto simp: decode_auth_uuids_acc elim!: list_all2_mono dest: decode_auth_uuid_length)
  ultimately show ?thesis
    using loaded parseStrategy_range [of "tt (IPStrategy c)"] by simp
qed simp

section \<open>Properties\<close>

text \<open>
  A server configuration that loads is well formed. The published configuration has one 16-byte
  binary UUID per allowed UUID, each the decoding of its text; the packing limits are positive; no
  time-out, queue or buffer size is zero; the strategy is one of the four; and the client's
  configuration is untouched. A load that fails publishes nothing.
\<close>

theorem LoadServerConfig_sound:
  assumes "LoadServerConfig tt open_json path g = (r, g')"
  shows "(case r of
     Some e \<Rightarrow> g' = g
   | None \<Rightarrow> \<exists>c. ServerConf g' = Some c \<and> ClientConf g' = ClientConf g
       \<and> list_all2 (\<lambda>s b. decode_auth_uuid s = Inr b \<and> length b = 16) (AuthUUIDs c) (AuthUUIDBin c)
       \<and> 0 < DnPack c \<and> 0 < DnTail c \<and> 0 < DnQr c
       \<and> DialTimeout c \<noteq> 0 \<and> KeepAlive c \<noteq> 0 \<and> UpPack c \<noteq> 0 \<and> ChunkMs c \<noteq> 0 \<and> Concur c \<noteq> 0
       \<and> MaxQueueBytes c \<noteq> 0 \<and> ReadBuf c \<noteq> 0
       \<and> IPStrategy c \<in> {IPStrategyIPv4Only, IPStrategyIPv6Only, IPStrategyIPv4Prefer, IPStrategyIPv6Prefer})"
  using assms by (rule LoadServerConfig_facts)

theorem LoadServerConfig_sound_witness:
  "case LoadServerConfig (\<lambda>_. []) (\<lambda>_. Inr JNull) [] \<lparr>ClientConf = None, ServerConf = None\<rparr> of
     (None, g') \<Rightarrow> \<exists>c. ServerConf g' = Some c \<and> 0 < DnPack c | _ \<Rightarrow> False"
proof -
  let ?l = "LoadServerConfig (\<lambda>_. []) (\<lambda>_. Inr JNull) [] \<lparr>ClientConf = None, ServerConf = None\<rparr>"
  have "fst ?l = None"
    by (simp add: LoadServerConfig_def decode_json_def setCommonDefaults_def zero_server_def)
  with LoadServerConfig_sound [of "\<lambda>_. []" "\<lambda>_. Inr JNull" "[]" "\<lparr>ClientConf = None, ServerConf = None\<rparr>"
      "fst ?l" "snd ?l"]
  show ?thesis by (cases ?l) auto
qed

text \<open>The documents \<^verbatim>\<open>configs/server.json\<close> and \<^verbatim>\<open>configs/client.json\<close>, decoded.\<close>

definition server_json :: json where
  "server_json = JObj
    [(''uuid'', JStr []), (''ip_strategy'', JStr ''ipv4_prefer''), (''dial_timeout'', JStr ''10s''),
     (''keep_alive_interval'', JStr ''30s''), (''up_pack'', JInt 20480), (''chunk_ms'', JInt 20),
     (''concur'', JInt 2), (''max_queue_bytes'', JInt 131072), (''read_buf'', JInt 65536),
     (''listen_addr'', JStr '':8443''),
     (''auth_uuids'', JArr [JStr ''123e4567-e89b-12d3-a456-426614174000'']),
     (''dn_pack'', JInt 32768), (''dn_tail'', JInt 512), (''dn_qr'', JInt 4)]"

definition client_json :: json where
  "client_json = JObj
    [(''uuid'', JStr ''123e4567-e89b-12d3-a456-426614174000''),
     (''ip_strategy'', JStr ''ipv4_prefer''), (''dial_timeout'', JStr ''10s''),
     (''keep_alive_interval'', JStr ''30s''), (''up_pack'', JInt 20480), (''chunk_ms'', JInt 20),
     (''concur'', JInt 2), (''max_queue_bytes'', JInt 131072), (''read_buf'', JInt 65536),
     (''utls_fingerprint'', JStr ''chrome_120''), (''fallback'', JBool False),
     (''dns_server'', JStr ''https://doh.pub/dns-query''),
     (''ech_domain'', JStr ''cloudflare-ech.com''), (''insecure'', JBool False), (''token'', JStr []),
     (''ip_override'', JStr []), (''server_addr'', JStr ''wss://127.0.0.1:8443/ws''),
     (''local_socks5'', JStr ''127.0.0.1:1080''), (''local_http'', JStr [])]"

text \<open>
  C34: a duration written as text is refused. Whatever else a document says, if it gives
  \<^verbatim>\<open>dial_timeout\<close> or \<^verbatim>\<open>keep_alive_interval\<close> as a string, as the comment on the struct and both
  shipped configuration files do, neither loader accepts it and nothing is published.
\<close>

theorem string_duration_rejected:
  assumes "(k, JStr d) \<in> set kvs" "k = ''dial_timeout'' \<or> k = ''keep_alive_interval''"
    and "open_json path = Inr (JObj kvs)"
  shows "fst (LoadServerConfig tt open_json path g) \<noteq> None \<and> snd (LoadServerConfig tt open_json path g) = g
    \<and> fst (LoadClientConfig tt open_json path g) \<noteq> None \<and> snd (LoadClientConfig tt open_json path g) = g"
proof -
  obtain u1 where "field_of server_fields k = Some (set_int64 u1)"
    unfolding server_fields_def by (rule duration_field [OF assms(2)])
  from decode_object_misfit [OF assms(1) this set_int64_JStr]
  have "\<not> fst (decode_object server_fields kvs zero_server)" .
  moreover obtain u2 where "field_of client_fields k = Some (set_int64 u2)"
    unfolding client_fields_def by (rule duration_field [OF assms(2)])
  from decode_object_misfit [OF assms(1) this set_int64_JStr]
  have "\<not> fst (decode_object client_fields kvs zero_client)" .
  ultimately obtain c1 c2 where "decode_object server_fields kvs zero_server = (False, c1)"
      "decode_object client_fields kvs zero_client = (False, c2)"
    by (metis (full_types) prod.collapse)
  with assms(3) show ?thesis
    by (simp add: LoadServerConfig_def LoadClientConfig_def decode_json_def)
qed

theorem string_duration_rejected_witness:
  "fst (LoadServerConfig (\<lambda>_. []) (\<lambda>_. Inr server_json) ''server.json''
      \<lparr>ClientConf = None, ServerConf = None\<rparr>) \<noteq> None
   \<and> fst (LoadClientConfig (\<lambda>_. []) (\<lambda>_. Inr client_json) ''client.json''
      \<lparr>ClientConf = None, ServerConf = None\<rparr>) \<noteq> None"
proof -
  obtain kvs where s: "server_json = JObj kvs" "(''dial_timeout'', JStr ''10s'') \<in> set kvs"
    by (simp add: server_json_def)
  obtain kvs' where c: "client_json = JObj kvs'" "(''dial_timeout'', JStr ''10s'') \<in> set kvs'"
    by (simp add: client_json_def)
  show ?thesis
    using string_duration_rejected [OF s(2), of "\<lambda>_. Inr server_json"]
      string_duration_rejected [OF c(2), of "\<lambda>_. Inr client_json"]
    by (simp add: s(1) c(1))
qed

text \<open>
  The configured IP strategy never takes effect. The key \<^verbatim>\<open>ip_strategy\<close> of the shipped files
  names no field, and the field \<^verbatim>\<open>IPStrategy\<close> is a byte that is turned into text before it is
  parsed; for any such conversion into a text shorter than a strategy's name (Go's own makes one
  character), every client configuration that loads has the strategy \<^verbatim>\<open>ipv4_prefer\<close>.
\<close>

theorem strategy_always_ipv4_prefer:
  assumes "\<And>b. length (tt b) < 9" "LoadClientConfig tt open_json path g = (None, g')"
  shows "field_of client_fields ''ip_strategy'' = None
    \<and> (\<exists>c. ClientConf g' = Some c \<and> IPStrategy c = IPStrategyIPv4Prefer)"
proof
  show "field_of client_fields ''ip_strategy'' = None"
    by (simp add: field_of_def client_fields_def common_fields_def ascii_lower_def ord_of_def)
  show "\<exists>c. ClientConf g' = Some c \<and> IPStrategy c = IPStrategyIPv4Prefer"
    using assms(2) parseStrategy_short [OF assms(1)]
    by (auto simp: LoadClientConfig_def Let_def split: sum.splits prod.splits bool.splits)
qed

theorem strategy_always_ipv4_prefer_witness:
  "\<exists>c. ClientConf (snd (LoadClientConfig (\<lambda>b. [char_of_byte b])
       (\<lambda>_. Inr (JObj [(''ip_strategy'', JStr ''ipv6_only'')])) []
       \<lparr>ClientConf = None, ServerConf = None\<rparr>)) = Some c \<and> IPStrategy c = IPStrategyIPv4Prefer"
proof -
  let ?l = "LoadClientConfig (\<lambda>b. [char_of_byte b])
       (\<lambda>_. Inr (JObj [(''ip_strategy'', JStr ''ipv6_only'')])) [] \<lparr>ClientConf = None, ServerConf = None\<rparr>"
  have "field_of client_fields ''ip_strategy'' = None"
    by (simp add: field_of_def client_fields_def common_fields_def ascii_lower_def ord_of_def)
  then have "fst ?l = None"
    by (simp add: LoadClientConfig_def decode_json_def Let_def)
  then have "?l = (None, snd ?l)"
    by (simp add: prod_eq_iff)
  from strategy_always_ipv4_prefer [OF _ this] show ?thesis by simp
qed

end
