(* ===== verification/Uuid.thy ===== *)
theory Uuid
  imports GoStd Constants Lifecycle
begin

text \<open>
  The process-wide client identity, \<^verbatim>\<open>internal/transport/uuid.go\<close>: parsed at most once
  (\<^verbatim>\<open>sync.Once\<close>), handed out as a copy, compared against a received message.
\<close>

record uuid_state =
  uuidBytes :: "bytes option"
  uuidOnce :: bool
  uuidInitError :: "go_error option"

definition uuid_zero :: uuid_state where
  "uuid_zero = \<lparr>uuidBytes = None, uuidOnce = False, uuidInitError = None\<rparr>"

text \<open>The text of a UUID without its dashes as 16 bytes, or the error.\<close>

definition parse_uuid :: "string \<Rightarrow> bytes res" where
  "parse_uuid uuidStr =
     (let cleaned = RemoveAll (CHR ''-'') uuidStr
      in if length cleaned \<noteq> 32 then Inl (Errorf ''invalid UUID length'')
         else case hex_decode cleaned of
            None \<Rightarrow> Inl (Errorf ''encoding/hex: invalid byte'')
          | Some b \<Rightarrow> (if length b \<noteq> UUIDLength then Inl (Errorf ''decoded UUID length != 16'')
                       else Inr b))"

definition InitUUID :: "string \<Rightarrow> uuid_state \<Rightarrow> go_error option \<times> uuid_state" where
  "InitUUID uuidStr s =
     (let s' = (if uuidOnce s then s
        else case parse_uuid uuidStr of
            Inl e \<Rightarrow> s\<lparr>uuidOnce := True, uuidInitError := Some e\<rparr>
          | Inr b \<Rightarrow> s\<lparr>uuidOnce := True, uuidBytes := Some b\<rparr>)
      in (uuidInitError s', s'))"

text \<open>\<^verbatim>\<open>copy\<close> into a fresh 16-byte buffer.\<close>

definition GetUUIDBytes :: "uuid_state \<Rightarrow> bytes option" where
  "GetUUIDBytes s = (case uuidBytes s of
     None \<Rightarrow> None
   | Some b \<Rightarrow> Some (take UUIDLength b @ replicate (UUIDLength - length b) 0))"

text \<open>The comparison loop of \<^verbatim>\<open>MatchUUID\<close> from index \<open>i\<close> on, \<open>n\<close> bytes left to compare.\<close>

fun match_from :: "bytes \<Rightarrow> bytes \<Rightarrow> nat \<Rightarrow> nat \<Rightarrow> bool" where
  "match_from data u i 0 = True"
| "match_from data u i (Suc n) =
     (if data ! (1 + i) \<noteq> u ! i then False else match_from data u (Suc i) n)"

definition MatchUUID :: "bytes \<Rightarrow> uuid_state \<Rightarrow> bool" where
  "MatchUUID data s =
     (if length data < UUIDLength + 1 then False
      else case uuidBytes s of
         None \<Rightarrow> False
       | Some u \<Rightarrow> (if length u \<noteq> UUIDLength then False else match_from data u 0 UUIDLength))"

definition uuid_inv :: "uuid_state \<Rightarrow> bool" where
  "uuid_inv s \<longleftrightarrow> (\<forall>u. uuidBytes s = Some u \<longrightarrow> length u = 16 \<and> uuidOnce s \<and> uuidInitError s = None)
     \<and> (\<not> uuidOnce s \<longrightarrow> uuidBytes s = None \<and> uuidInitError s = None)
     \<and> (uuidOnce s \<longrightarrow> (uuidBytes s = None) = (uuidInitError s \<noteq> None))"

lemma parse_uuid_length: "parse_uuid t = Inr b \<Longrightarrow> length b = 16"
  by (auto simp: parse_uuid_def Let_def split: if_splits option.splits)

lemma uuid_inv_zero: "uuid_inv uuid_zero"
  by (simp add: uuid_inv_def uuid_zero_def)

lemma uuid_inv_Init: "uuid_inv s \<Longrightarrow> uuid_inv (snd (InitUUID t s))"
  using parse_uuid_length [of t]
  by (auto simp: InitUUID_def uuid_inv_def Let_def split: sum.splits)

lemma InitUUID_once: "uuidOnce s \<Longrightarrow> InitUUID t s = (uuidInitError s, s)"
  by (simp add: InitUUID_def)

lemma InitUUID_sets_once: "uuidOnce (snd (InitUUID t s))"
  by (auto simp: InitUUID_def Let_def split: sum.splits)

lemma match_from_eq:
  "i + n \<le> length u \<Longrightarrow> Suc (i + n) \<le> length data \<Longrightarrow>
     match_from data u i n \<longleftrightarrow> take n (drop (Suc i) data) = take n (drop i u)"
proof (induction n arbitrary: i)
  case 0
  then show ?case by simp
next
  case (Suc n)
  have "drop (Suc i) data = data ! Suc i # drop (Suc (Suc i)) data"
    using Suc.prems by (simp add: Cons_nth_drop_Suc)
  moreover have "drop i u = u ! i # drop (Suc i) u"
    using Suc.prems by (simp add: Cons_nth_drop_Suc)
  ultimately show ?case
    using Suc.IH [of "Suc i"] Suc.prems by simp
qed

text \<open>Parsing the canonical text of an identity gives the identity back.\<close>

definition uuid_text :: "bytes \<Rightarrow> string" where
  "uuid_text u = hex_encode (take 4 u) @ ''-'' @ hex_encode (take 2 (drop 4 u)) @ ''-''
     @ hex_encode (take 2 (drop 6 u)) @ ''-'' @ hex_encode (take 2 (drop 8 u)) @ ''-''
     @ hex_encode (drop 10 u)"

lemma hex_encode_append: "hex_encode (a @ b) = hex_encode a @ hex_encode b"
  by (simp add: hex_encode_def)

lemma hex_char_not_dash: "d < 16 \<Longrightarrow> hex_char d \<noteq> CHR ''-''"
  using hex_val_hex_char [of d] by (auto simp: hex_val_def ord_of_def Let_def split: if_splits)

lemma RemoveAll_hex [simp]: "RemoveAll (CHR ''-'') (hex_encode u) = hex_encode u"
proof (induction u)
  case Nil
  then show ?case by (simp add: RemoveAll_def hex_encode_def)
next
  case (Cons b u)
  have "unat b div 16 < 16" using unat_byte_less [of b] by linarith
  with Cons show ?case
    by (simp add: RemoveAll_def hex_encode_def hex_char_not_dash)
qed

lemma RemoveAll_append [simp]: "RemoveAll c (a @ b) = RemoveAll c a @ RemoveAll c b"
  by (simp add: RemoveAll_def)

lemma length_hex_encode [simp]: "length (hex_encode u) = 2 * length u"
  by (induction u) (simp_all add: hex_encode_def)

lemma RemoveAll_uuid_text: "RemoveAll (CHR ''-'') (uuid_text u) = hex_encode u"
proof -
  have dash: "RemoveAll (CHR ''-'') ''-'' = []" by (simp add: RemoveAll_def)
  have split: "v = take n v @ drop n v" for v :: bytes and n
    by simp
  have "u = take 4 u @ take 2 (drop 4 u) @ take 2 (drop 6 u) @ take 2 (drop 8 u) @ drop 10 u"
    using split [of u 4] split [of "drop 4 u" 2] split [of "drop 6 u" 2] split [of "drop 8 u" 2]
    by simp
  then have "hex_encode u = hex_encode (take 4 u) @ hex_encode (take 2 (drop 4 u)) @
      hex_encode (take 2 (drop 6 u)) @ hex_encode (take 2 (drop 8 u)) @ hex_encode (drop 10 u)"
    by (metis hex_encode_append)
  then show ?thesis
    by (simp only: uuid_text_def RemoveAll_append RemoveAll_hex dash append_Nil)
qed

lemma parse_uuid_text: "length u = 16 \<Longrightarrow> parse_uuid (uuid_text u) = Inr u"
  by (simp add: parse_uuid_def RemoveAll_uuid_text)

interpretation uuid_once: run_once InitUUID uuidOnce uuidInitError
  by unfold_locales (auto simp: InitUUID_def Let_def split: sum.splits)

text \<open>
  The identity is fixed by the first call. After a first \<^verbatim>\<open>InitUUID\<close>, and any sequence of later
  calls with any texts, one more call returns the first call's error and leaves the state of the
  first call: the server, which calls it for every allowed UUID, keeps only the first.
\<close>

theorem InitUUID_first_call_wins:
  "InitUUID t (foldl (\<lambda>s' t'. snd (InitUUID t' s')) (snd (InitUUID t1 s)) ts) = InitUUID t1 s"
  by (rule uuid_once.call_after_calls)

text \<open>
  C35: after an \<^verbatim>\<open>InitUUID\<close> of the canonical text of 16 bytes (with its dashes) on the initial state,
  the call reports no error, \<^verbatim>\<open>GetUUIDBytes\<close> returns those bytes, and \<^verbatim>\<open>MatchUUID\<close> accepts a
  message exactly when it has at least 17 bytes and its bytes 1 to 16 are the identity.
\<close>

theorem InitUUID_roundtrip:
  assumes "length u = 16" "InitUUID (uuid_text u) uuid_zero = (r, s')"
  shows "r = None \<and> GetUUIDBytes s' = Some u
    \<and> (MatchUUID data s' \<longleftrightarrow> 17 \<le> length data \<and> take 16 (drop 1 data) = u)"
proof -
  from assms have s': "r = None" "uuidBytes s' = Some u"
    by (auto simp: InitUUID_def uuid_zero_def parse_uuid_text)
  with assms(1) match_from_eq [of 0 16 u data] show ?thesis
    by (auto simp: GetUUIDBytes_def MatchUUID_def)
qed

theorem InitUUID_roundtrip_witness:
  "fst (InitUUID (uuid_text (replicate 16 7)) uuid_zero) = None
   \<and> MatchUUID (0 # replicate 16 7) (snd (InitUUID (uuid_text (replicate 16 7)) uuid_zero))"
  using InitUUID_roundtrip [of "replicate 16 7"
      "fst (InitUUID (uuid_text (replicate 16 7)) uuid_zero)"
      "snd (InitUUID (uuid_text (replicate 16 7)) uuid_zero)" "0 # replicate 16 7"]
  by simp

end
