(* ===== verification/Server.thy ===== *)
theory Server
  imports Session Handshake Relay Config Uuid
begin

text \<open>
  The server's entry, \<^verbatim>\<open>cmd/server/main.go\<close>: the origin check, the authentication of a WebSocket
  connection on its first stream, and the table of sessions. Whether the upgrade and the
  multiplexer's set-up succeed and the first stream accepted are arguments.
\<close>

definition CheckOrigin :: "string \<Rightarrow> string \<Rightarrow> bool" where
  "CheckOrigin origin host \<longleftrightarrow>
     origin = [] \<or> origin = ''http://'' @ host \<or> origin = ''https://'' @ host"

text \<open>The start-up loop over the configured UUIDs; its errors are only logged.\<close>

fun init_uuids :: "string list \<Rightarrow> uuid_state \<Rightarrow> uuid_state" where
  "init_uuids [] u = u"
| "init_uuids (s # ss) u = init_uuids ss (snd (InitUUID s u))"

fun uuid_allowed :: "bytes \<Rightarrow> bytes list \<Rightarrow> bool" where
  "uuid_allowed u [] = False"
| "uuid_allowed u (b # bs) = (if u = b then True else uuid_allowed u bs)"

text \<open>
  How \<^verbatim>\<open>handleWebSocket\<close> ends its set-up: no upgrade; session and connection closed; or connected
  as a client, whose handshake stream stays open until the session is done.
\<close>

datatype ws_outcome = NotUpgraded | Refused | Connected string

definition handleWebSocket ::
  "bool \<Rightarrow> bool \<Rightarrow> stream option \<Rightarrow> 'a CommonConfig_scheme \<Rightarrow> bytes list \<Rightarrow> ws_outcome \<times> stream option"
where
  "handleWebSocket upgraded smux_ok first conf auth =
    (if \<not> upgraded then (NotUpgraded, None)
     else if \<not> smux_ok then (Refused, None)
     else case first of
       None \<Rightarrow> (Refused, None)
     | Some stream \<Rightarrow>
         (case ReadHandshakeRequest (DialTimeout conf) stream of
            (Inl e, s1) \<Rightarrow> (Refused, Some (Close s1))
          | (Inr uuid, s1) \<Rightarrow>
              if \<not> uuid_allowed uuid auth then
                (Refused, Some (Close (snd (WriteHandshakeResponse HandshakeFail (DialTimeout conf) s1))))
              else (case WriteHandshakeResponse HandshakeOK (DialTimeout conf) s1 of
                 (Inl e, s2) \<Rightarrow> (Refused, Some (Close s2))
               | (Inr _, s2) \<Rightarrow> (Connected (bytes_str uuid), Some s2))))"

text \<open>The configuration the accept loop hands to the relay.\<close>

definition relay_config :: "'a CommonConfig_scheme \<Rightarrow> Config" where
  "relay_config conf = \<lparr>cfg_DialTimeout = DialTimeout conf, cfg_ReadBuf = ReadBuf conf,
     cfg_Concur = Concur conf\<rparr>"

section \<open>The table of sessions\<close>

text \<open>\<^verbatim>\<open>sync.Map\<close> from client ids to sessions; a session is its client id and a connection number.\<close>

type_synonym live_session = "string \<times> nat"

definition sessions_load :: "(string \<Rightarrow> live_session option) \<Rightarrow> string \<Rightarrow> live_session option" where
  "sessions_load m k = m k"

definition sessions_store :: "live_session \<Rightarrow> (string \<Rightarrow> live_session option) \<Rightarrow> (string \<Rightarrow> live_session option) option" where
  "sessions_store v m = Some (m(fst v \<mapsto> v))"

definition sessions_delete :: "string \<Rightarrow> (string \<Rightarrow> live_session option) \<Rightarrow> (string \<Rightarrow> live_session option)" where
  "sessions_delete k m = m(k := None)"

interpretation sess: key_table sessions_load fst sessions_store sessions_delete
  by unfold_locales (auto simp: sessions_load_def sessions_store_def sessions_delete_def)

section \<open>Facts\<close>

lemma uuid_allowed_iff [simp]: "uuid_allowed u bs \<longleftrightarrow> u \<in> set bs"
  by (induction bs) auto

lemma init_uuids_first: "init_uuids (s # ss) u = snd (InitUUID s u)"
proof (induction ss arbitrary: s u)
  case Nil
  then show ?case by simp
next
  case (Cons t ss)
  have "init_uuids (s # t # ss) u = init_uuids (t # ss) (snd (InitUUID s u))" by simp
  also have "\<dots> = snd (InitUUID t (snd (InitUUID s u)))" by (rule Cons.IH)
  also have "\<dots> = snd (InitUUID s u)" by (simp add: InitUUID_once InitUUID_sets_once)
  finally show ?case .
qed

text \<open>Which first streams are accepted, and with which answer.\<close>

lemma handleWebSocket_cases:
  assumes "handleWebSocket True True (Some s) conf auth = (out, s')" "s_wr s = []"
  obtains (unread) e where "fst (ReadHandshakeRequest (DialTimeout conf) s) = Inl e" "out = Refused"
      "\<exists>f. s' = Some f \<and> s_out f = s_out s \<and> s_closed f"
  | (refused) uuid where "fst (ReadHandshakeRequest (DialTimeout conf) s) = Inr uuid" "uuid \<notin> set auth"
      "out = Refused" "\<exists>f. s' = Some f \<and> s_out f = s_out s @ [HandshakeResp, HandshakeFail] \<and> s_closed f"
  | (accepted) uuid where "fst (ReadHandshakeRequest (DialTimeout conf) s) = Inr uuid" "uuid \<in> set auth"
      "out = Connected (bytes_str uuid)" "\<exists>f. s' = Some f \<and> s_out f = s_out s @ [HandshakeResp, HandshakeOK]"
proof (cases "ReadHandshakeRequest (DialTimeout conf) s")
  case (Pair r s1)
  have fr: "s_out s1 = s_out s" "s_wr s1 = s_wr s"
    using Pair by (auto simp: ReadHandshakeRequest_def deadline_defs ReadFull_def ReadFull_into_def Let_def
        split: if_splits)
  show thesis
  proof (cases r)
    case (Inl e)
    with assms(1) Pair fr show thesis
      by (intro unread [of e]) (auto simp: handleWebSocket_def Close_def)
  next
    case (Inr uuid)
    then have pos: "0 < DialTimeout conf"
      using ReadHandshakeRequest_Inr_iff [of "DialTimeout conf" s uuid] Pair by auto
    have resp: "\<exists>f. WriteHandshakeResponse c (DialTimeout conf) s1 = (Inr (), f)
        \<and> s_out f = s_out s @ [HandshakeResp, c]" for c
      using hsresp.wr_enc [of "DialTimeout conf" s1 c] pos fr assms(2) by auto
    show thesis
    proof (cases "uuid \<in> set auth")
      case True
      obtain f where "WriteHandshakeResponse HandshakeOK (DialTimeout conf) s1 = (Inr (), f)"
        "s_out f = s_out s @ [HandshakeResp, HandshakeOK]" using resp by blast
      with assms(1) Pair Inr True show thesis
        by (intro accepted [of uuid]) (auto simp: handleWebSocket_def)
    next
      case False
      obtain f where "WriteHandshakeResponse HandshakeFail (DialTimeout conf) s1 = (Inr (), f)"
        "s_out f = s_out s @ [HandshakeResp, HandshakeFail]" using resp by blast
      with assms(1) Pair Inr False show thesis
        by (intro refused [of uuid]) (auto simp: handleWebSocket_def Close_def)
    qed
  qed
qed

section \<open>Properties\<close>

text \<open>
  A client that reconnects before its old connection has ended loses its registration. The
  table is keyed by the client's UUID: the second connection replaces the first one's entry, and
  the first, when it ends, deletes the entry of the second, which is still connected.
\<close>

theorem reconnect_unregisters:
  assumes "sessions_store (client, old_conn) m = Some m1" "sessions_store (client, new_conn) m1 = Some m2"
  shows "sessions_load m2 client = Some (client, new_conn)
    \<and> sessions_load (sessions_delete client m2) client = None"
  using sess.put_put_del [OF assms] by simp

theorem reconnect_unregisters_witness:
  "sessions_load (sessions_delete ''u'' [''u'' \<mapsto> (''u'', 2)]) ''u'' = None"
  using reconnect_unregisters [of "''u''" 1 "\<lambda>_. None" "[''u'' \<mapsto> (''u'', 1)]" 2 "[''u'' \<mapsto> (''u'', 2)]"]
  by (simp add: sessions_store_def)

end
