(* ===== verification/Base64.thy ===== *)
theory Base64
  imports GoStd
begin

text \<open>
  Go's \<^verbatim>\<open>encoding/base64\<close> as the program uses it: \<^verbatim>\<open>RawURLEncoding.EncodeToString\<close> for the DNS
  query in a URL and \<^verbatim>\<open>StdEncoding.DecodeString\<close> for proxy credentials, whose result is kept even
  when it reports an error: the bytes decoded before the error, as Go returns them.
\<close>

text \<open>The alphabets: letters, digits, and \<^verbatim>\<open>+/\<close> or, in URLs, \<^verbatim>\<open>-_\<close>.\<close>

definition std_char :: "nat \<Rightarrow> char" where
  "std_char d = (if d < 26 then char_of (65 + d) else if d < 52 then char_of (71 + d)
     else if d < 62 then char_of (d - 4) else if d = 62 then CHR ''+'' else CHR ''/'')"

definition url_char :: "nat \<Rightarrow> char" where
  "url_char d = (if d = 62 then CHR ''-'' else if d = 63 then CHR ''_'' else std_char d)"

section \<open>Encoding\<close>

text \<open>The 6-bit digits of a byte sequence and, with padding, their text.\<close>

fun sextets :: "bytes \<Rightarrow> nat list" where
  "sextets [] = []"
| "sextets [a] = [unat a div 4, unat a mod 4 * 16]"
| "sextets [a, b] = [unat a div 4, unat a mod 4 * 16 + unat b div 16, unat b mod 16 * 4]"
| "sextets (a # b # c # bs) = unat a div 4 # (unat a mod 4 * 16 + unat b div 16)
     # (unat b mod 16 * 4 + unat c div 64) # unat c mod 64 # sextets bs"

definition RawURLEncode :: "bytes \<Rightarrow> string" where
  "RawURLEncode b = List.map url_char (sextets b)"

definition StdEncode :: "bytes \<Rightarrow> string" where
  "StdEncode b = List.map std_char (sextets b)
     @ replicate ((3 - length b mod 3) mod 3) (CHR ''='')"

section \<open>Decoding\<close>

definition std_val :: "char \<Rightarrow> nat option" where
  "std_val c = (let v = ord_of c in
     if 65 \<le> v \<and> v \<le> 90 then Some (v - 65)
     else if 97 \<le> v \<and> v \<le> 122 then Some (v - 71)
     else if 48 \<le> v \<and> v \<le> 57 then Some (v + 4)
     else if v = 43 then Some 62
     else if v = 47 then Some 63 else None)"

definition is_newline :: "char \<Rightarrow> bool" where
  "is_newline c \<longleftrightarrow> ord_of c = 10 \<or> ord_of c = 13"

text \<open>The bytes of two, three or four digits.\<close>

fun join_sextets :: "nat list \<Rightarrow> bytes" where
  "join_sextets [p, q, r, s] =
     [of_nat (p * 4 + q div 16), of_nat (q mod 16 * 16 + r div 4), of_nat (r mod 4 * 64 + s)]"
| "join_sextets [p, q, r] = [of_nat (p * 4 + q div 16), of_nat (q mod 16 * 16 + r div 4)]"
| "join_sextets [p, q] = [of_nat (p * 4 + q div 16)]"
| "join_sextets _ = []"

text \<open>
  One quantum: the digits read so far, the rest of the text; the bytes, whether an error was found,
  and what is unread.
\<close>

definition end_quantum :: "nat list \<Rightarrow> string \<Rightarrow> bytes \<times> bool \<times> string" where
  "end_quantum acc s = (let rest = dropWhile is_newline s in (join_sextets acc, rest \<noteq> [], rest))"

definition decode_padding :: "nat list \<Rightarrow> string \<Rightarrow> bytes \<times> bool \<times> string" where
  "decode_padding acc cs =
    (if length acc < 2 then ([], True, cs)
     else if length acc = 2 then
       (case dropWhile is_newline cs of
          [] \<Rightarrow> ([], True, [])
        | d # ds \<Rightarrow> (if d \<noteq> CHR ''='' then ([], True, ds) else end_quantum acc ds))
     else end_quantum acc cs)"

fun decode_quantum :: "nat list \<Rightarrow> string \<Rightarrow> bytes \<times> bool \<times> string" where
  "decode_quantum acc [] = ([], acc \<noteq> [], [])"
| "decode_quantum acc (c # cs) = (case std_val c of
     Some v \<Rightarrow> (if length acc = 3 then (join_sextets (acc @ [v]), False, cs)
       else decode_quantum (acc @ [v]) cs)
   | None \<Rightarrow>
       if is_newline c then decode_quantum acc cs
       else if c \<noteq> CHR ''='' then ([], True, cs)
       else decode_padding acc cs)"

lemma end_quantum_rest: "length (snd (snd (end_quantum acc s))) \<le> length s"
  by (simp add: end_quantum_def Let_def length_dropWhile_le)

lemma dropWhile_tail: "dropWhile P s = d # ds \<Longrightarrow> length ds \<le> length s"
  using length_dropWhile_le [of P s] by simp

lemma decode_padding_rest: "length (snd (snd (decode_padding acc s))) \<le> length s"
  by (auto simp: decode_padding_def end_quantum_rest dest: dropWhile_tail split: list.split
      intro: le_trans [OF end_quantum_rest])

lemma decode_quantum_rest: "length (snd (snd (decode_quantum acc s))) \<le> length s - 1"
proof (induction s arbitrary: acc)
  case Nil
  then show ?case by simp
next
  case (Cons c cs)
  have "length (snd (snd (decode_quantum a cs))) \<le> length cs" for a
    using Cons.IH [of a] by linarith
  with decode_padding_rest [of acc cs] show ?case
    by (simp split: option.split)
qed

function StdDecode :: "string \<Rightarrow> bytes \<times> bool" where
  "StdDecode [] = ([], False)"
| "StdDecode (c # cs) = (case decode_quantum [] (c # cs) of (b, err, rest) \<Rightarrow>
     if err then (b, True) else (case StdDecode rest of (bs, e) \<Rightarrow> (b @ bs, e)))"
  by pat_completeness auto

lemma decode_quantum_shorter:
  "(b, err, rest) = decode_quantum [] (c # cs) \<Longrightarrow> length rest < Suc (length cs)"
  using decode_quantum_rest [of "[]" "c # cs"] by (metis diff_Suc_1 le_imp_less_Suc length_Cons snd_conv)

termination StdDecode
  by (relation "measure length") (auto simp del: decode_quantum.simps dest: decode_quantum_shorter)

section \<open>Round trip\<close>

lemma std_val_char [simp]: "d < 64 \<Longrightarrow> std_val (std_char d) = Some d"
  by (auto simp: std_val_def std_char_def ord_of_def Let_def)

lemma std_val_pad [simp]: "std_val (CHR ''='') = None" "\<not> is_newline (CHR ''='')"
  by (simp_all add: std_val_def ord_of_def is_newline_def)

lemma byte_div [simp]: "unat (a :: byte) div 4 < 64" "unat a div 16 < 16" "unat a div 64 < 4"
  using unat_byte_less [of a] by (simp_all add: less_mult_imp_div_less)

lemma base_split: "y < (m :: nat) \<Longrightarrow> (x * m + y) div m = x" "y < m \<Longrightarrow> (x * m + y) mod m = y"
  by simp_all

lemma digit_bounds:
  fixes a b c :: nat
  assumes "a < 256" "b < 256" "c < 256"
  shows "a div 4 < 64" "a mod 4 * 16 + b div 16 < 64" "b mod 16 * 4 + c div 64 < 64" "c mod 64 < 64"
    "a mod 4 * 16 < 64" "b mod 16 * 4 < 64"
proof -
  have "b div 16 < 16" "c div 64 < 4" "a mod 4 < 4" "b mod 16 < 16" "a div 4 < 64"
    using assms by (simp_all add: less_mult_imp_div_less)
  then show "a div 4 < 64" "a mod 4 * 16 + b div 16 < 64" "b mod 16 * 4 + c div 64 < 64"
    "c mod 64 < 64" "a mod 4 * 16 < 64" "b mod 16 * 4 < 64"
    by simp_all
qed

lemma join_parts:
  fixes a b c :: nat
  assumes "b < 256" "c < 256"
  shows "a div 4 * 4 + (a mod 4 * 16 + b div 16) div 16 = a"
    "(a mod 4 * 16 + b div 16) mod 16 * 16 + (b mod 16 * 4 + c div 64) div 4 = b"
    "(b mod 16 * 4 + c div 64) mod 4 * 64 + c mod 64 = c"
    "(a mod 4 * 16 + b div 16) mod 16 * 16 + b mod 16 * 4 div 4 = b"
    "a div 4 * 4 + a mod 4 * 16 div 16 = a"
proof -
  have "b div 16 < 16" "c div 64 < 4"
    using assms by (simp_all add: less_mult_imp_div_less)
  then show "a div 4 * 4 + (a mod 4 * 16 + b div 16) div 16 = a"
    "(a mod 4 * 16 + b div 16) mod 16 * 16 + (b mod 16 * 4 + c div 64) div 4 = b"
    "(b mod 16 * 4 + c div 64) mod 4 * 64 + c mod 64 = c"
    "(a mod 4 * 16 + b div 16) mod 16 * 16 + b mod 16 * 4 div 4 = b"
    "a div 4 * 4 + a mod 4 * 16 div 16 = a"
    by (simp_all only: base_split mult_div_mod_eq div_mult_mod_eq nonzero_mult_div_cancel_right
        zero_neq_numeral not_False_eq_True)
qed

lemma byte_of_unat: "(of_nat (unat a) :: byte) = a"
  by simp

lemma join_sextets_bytes:
  "join_sextets (sextets [a]) = [a]"
  "join_sextets (sextets [a, b]) = [a, b]"
  "join_sextets (sextets [a, b, c]) = [a, b, c]"
  by (simp_all only: sextets.simps join_sextets.simps byte_of_unat
      join_parts [OF unat_byte_less unat_byte_less [of "0"]] join_parts [OF unat_byte_less unat_byte_less])

text \<open>Four digits are a quantum; the last quantum may end in padding.\<close>

lemma decode_four:
  assumes "p < 64" "q < 64" "r < 64" "s < 64"
  shows "decode_quantum [] (std_char p # std_char q # std_char r # std_char s # rest)
    = (join_sextets [p, q, r, s], False, rest)"
    and "decode_quantum [] [std_char p, std_char q, std_char r, CHR ''=''] = (join_sextets [p, q, r], False, [])"
    and "decode_quantum [] [std_char p, std_char q, CHR ''='', CHR ''=''] = (join_sextets [p, q], False, [])"
  using assms by (simp_all add: decode_padding_def end_quantum_def)

lemma StdEncode_steps:
  "StdEncode [] = []"
  "StdEncode [a] = List.map std_char (sextets [a]) @ [CHR ''='', CHR ''='']"
  "StdEncode [a, b] = List.map std_char (sextets [a, b]) @ [CHR ''='']"
  "StdEncode (a # b # c # bs) = List.map std_char (sextets [a, b, c]) @ StdEncode bs"
  by (simp_all add: StdEncode_def numeral_2_eq_2 mod_Suc)

lemma StdDecode_Encode [simp]: "StdDecode (StdEncode b) = (b, False)"
proof (induction b rule: sextets.induct)
  case 1
  show ?case by (simp add: StdEncode_steps)
next
  case (2 a)
  have "unat a < 256" by simp
  note d = digit_bounds [OF this this this]
  from decode_four(3) [OF d(1,5) d(1) d(1)] join_sextets_bytes(1) [of a] show ?case
    by (simp add: StdEncode_steps del: decode_quantum.simps join_sextets.simps)
next
  case (3 a b)
  have "unat a < 256" "unat b < 256" by simp_all
  note d = digit_bounds [OF this this(2)]
  from decode_four(2) [OF d(1,2,6) d(1)] join_sextets_bytes(2) [of a b] show ?case
    by (simp add: StdEncode_steps del: decode_quantum.simps join_sextets.simps)
next
  case (4 a b c bs)
  have "unat a < 256" "unat b < 256" "unat c < 256" by simp_all
  note d = digit_bounds [OF this]
  from decode_four(1) [OF d(1-4)] join_sextets_bytes(3) [of a b c] 4 show ?case
    by (simp add: StdEncode_steps del: decode_quantum.simps join_sextets.simps)
qed

text \<open>Behind a valid text, junk is an error, but the bytes before it are the result.\<close>

lemma decode_junk:
  assumes "p < 64" "q < 64" "r < 64" "std_val x = None" "\<not> is_newline x"
  shows "decode_quantum [] (x # junk) = ([], True, junk)"
    and "decode_quantum [] (std_char p # std_char q # std_char r # CHR ''='' # x # junk)
      = (join_sextets [p, q, r], True, x # junk)"
    and "decode_quantum [] (std_char p # std_char q # CHR ''='' # CHR ''='' # x # junk)
      = (join_sextets [p, q], True, x # junk)"
  using assms by (simp_all add: decode_padding_def end_quantum_def)

lemma StdDecode_junk:
  assumes "std_val x = None" "\<not> is_newline x"
  shows "StdDecode (StdEncode b @ x # junk) = (b, True)"
proof (induction b rule: sextets.induct)
  case 1
  have z: "(0 :: nat) < 64" by simp
  from decode_junk(1) [OF z z z assms, of junk] show ?case
    by (simp add: StdEncode_steps del: decode_quantum.simps)
next
  case (2 a)
  have "unat a < 256" by simp
  note d = digit_bounds [OF this this this]
  from decode_junk(3) [OF d(1,5) d(1) assms] join_sextets_bytes(1) [of a] show ?case
    by (simp add: StdEncode_steps del: decode_quantum.simps join_sextets.simps)
next
  case (3 a b)
  have "unat a < 256" "unat b < 256" by simp_all
  note d = digit_bounds [OF this this(2)]
  from decode_junk(2) [OF d(1,2,6) assms] join_sextets_bytes(2) [of a b] show ?case
    by (simp add: StdEncode_steps del: decode_quantum.simps join_sextets.simps)
next
  case (4 a b c bs)
  have "unat a < 256" "unat b < 256" "unat c < 256" by simp_all
  note d = digit_bounds [OF this]
  from decode_four(1) [OF d(1-4)] join_sextets_bytes(3) [of a b c] 4 show ?case
    by (simp add: StdEncode_steps del: decode_quantum.simps join_sextets.simps)
qed

end
