(* ===== verification/ECH.thy ===== *)
theory ECH
  imports Base64
begin

text \<open>
  Fetching the Encrypted-Client-Hello configuration over DNS, \<^verbatim>\<open>internal/transport/ech.go\<close>: the
  query message, the parsers of the response and of an HTTPS record, and the published list.

  Every index and slice expression of the parsers is bounds-checked; \<^verbatim>\<open>None\<close> is the run-time
  panic. The network is a parameter: \<open>udp server query\<close> is the datagram received for a query and
  \<open>doh url dns\<close> the status and body of the HTTPS request whose \<^verbatim>\<open>dns\<close> parameter is \<open>dns\<close>.
\<close>

definition typeHTTPS :: "16 word" where
  "typeHTTPS = 65"

section \<open>Building the query\<close>

definition dns_labels :: "string list \<Rightarrow> bytes" where
  "dns_labels ls = concat (List.map (\<lambda>l. of_nat (length l) # str_bytes l) ls)"

definition buildDNSQuery :: "string \<Rightarrow> 16 word \<Rightarrow> bytes" where
  "buildDNSQuery domain qtype =
    [0x00, 0x01, 0x01, 0x00, 0x00, 0x01, 0x00, 0x00, 0x00, 0x00, 0x00, 0x00]
    @ dns_labels (SplitAll (CHR ''.'') domain) @ [0x00]
    @ [ucast (drop_bit 8 qtype), ucast qtype, 0x00, 0x01]"

section \<open>Parsing the HTTPS record\<close>

text \<open>The loop \<^verbatim>\<open>for offset < len(b) && b[offset] != 0\<close> over the labels of a name.\<close>

function name_loop :: "bytes \<Rightarrow> nat \<Rightarrow> nat option" where
  "name_loop b offset =
    (if offset < length b then
       (case index_at b offset of
          None \<Rightarrow> None
        | Some l \<Rightarrow> (if l \<noteq> 0 then name_loop b (offset + unat l + 1) else Some offset))
     else Some offset)"
  by pat_completeness auto

termination name_loop
  by (relation "measure (\<lambda>(b, offset). length b - offset)") auto

text \<open>The loop over the service parameters; the result is the value of key 5, or nil.\<close>

function params_loop :: "bytes \<Rightarrow> nat \<Rightarrow> bytes option option" where
  "params_loop b offset =
    (if offset + 4 \<le> length b then
       (case u16_at b offset of None \<Rightarrow> None | Some key \<Rightarrow>
       (case u16_at b (offset + 2) of None \<Rightarrow> None | Some len \<Rightarrow>
          let offset1 = offset + 4
          in if offset1 + unat len > length b then Some None
             else case slice b offset1 (offset1 + unat len) of None \<Rightarrow> None | Some v \<Rightarrow>
               if key = 5 then Some (Some v)
               else params_loop b (offset1 + unat len)))
     else Some None)"
  by pat_completeness auto

termination params_loop
  by (relation "measure (\<lambda>(b, offset). length b - offset)") auto

definition parseHTTPSRecord :: "bytes \<Rightarrow> bytes option option" where
  "parseHTTPSRecord b =
    (if length b < 2 then Some None
     else if 2 < length b \<and> index_at b 2 = Some 0 then params_loop b 3
     else case name_loop b 2 of None \<Rightarrow> None | Some offset \<Rightarrow> params_loop b (offset + 1))"

section \<open>Parsing the response\<close>

definition ptr_offset :: "16 word \<Rightarrow> nat" where
  "ptr_offset w = unat (w AND 0x3FFF)"

text \<open>Skipping the question's name: an error, or the offset behind it.\<close>

function qname_loop :: "bytes \<Rightarrow> nat \<Rightarrow> nat res option" where
  "qname_loop b offset =
    (if offset < length b then
       (case index_at b offset of None \<Rightarrow> None | Some l \<Rightarrow>
          if l = 0 then Some (Inr (offset + 1))
          else if l AND 0xC0 = 0xC0 then
            (if offset + 2 > length b then Some (Inl (Errorf ''QNAME pointer out of range''))
             else case u16_at b offset of None \<Rightarrow> None | Some w \<Rightarrow>
               if ptr_offset w \<ge> length b then Some (Inl (Errorf ''invalid DNS pointer''))
               else Some (Inr (offset + 2)))
          else qname_loop b (offset + unat l + 1))
     else Some (Inr offset))"
  by pat_completeness auto

termination qname_loop
  by (relation "measure (\<lambda>(b, offset). length b - offset)") auto

text \<open>The owner name of an answer: an error, nothing when the loop ends, or the offset behind it.\<close>

definition answer_name :: "bytes \<Rightarrow> nat \<Rightarrow> (nat option) res option" where
  "answer_name b offset =
    (case index_at b offset of None \<Rightarrow> None | Some l \<Rightarrow>
       if l AND 0xC0 = 0xC0 then
         (if offset + 2 > length b then Some (Inr None)
          else case u16_at b offset of None \<Rightarrow> None | Some w \<Rightarrow>
            if ptr_offset w \<ge> length b then Some (Inl (Errorf ''invalid DNS pointer''))
            else Some (Inr (Some (offset + 2))))
       else (case name_loop b offset of None \<Rightarrow> None
         | Some o1 \<Rightarrow> Some (Inr (Some (o1 + 1)))))"

definition ech_not_found :: "bytes res option" where
  "ech_not_found = Some (Inl (Errorf ''ECH not found''))"

text \<open>The loop over the answers, with the number of answers left.\<close>

fun answer_loop :: "bytes \<Rightarrow> nat \<Rightarrow> nat \<Rightarrow> bytes res option" where
  "answer_loop b 0 offset = ech_not_found"
| "answer_loop b (Suc n) offset =
    (if offset \<ge> length b then ech_not_found
     else case answer_name b offset of
       None \<Rightarrow> None
     | Some (Inl e) \<Rightarrow> Some (Inl e)
     | Some (Inr None) \<Rightarrow> ech_not_found
     | Some (Inr (Some offset1)) \<Rightarrow>
         if offset1 + 10 > length b then ech_not_found
         else (case u16_at b offset1 of None \<Rightarrow> None | Some rrType \<Rightarrow>
              (case u16_at b (offset1 + 8) of None \<Rightarrow> None | Some dataLen \<Rightarrow>
                let offset2 = offset1 + 10
                in if offset2 + unat dataLen > length b then ech_not_found
                   else case slice b offset2 (offset2 + unat dataLen) of None \<Rightarrow> None | Some rdata \<Rightarrow>
                     if rrType = typeHTTPS then
                       (case parseHTTPSRecord rdata of
                          None \<Rightarrow> None
                        | Some (Some e) \<Rightarrow> Some (Inr e)
                        | Some None \<Rightarrow> answer_loop b n (offset2 + unat dataLen))
                     else answer_loop b n (offset2 + unat dataLen))))"

definition parseDNSResponse :: "bytes \<Rightarrow> bytes res option" where
  "parseDNSResponse response =
    (if length response < 12 then Some (Inl (Errorf ''response too short''))
     else case u16_at response 6 of None \<Rightarrow> None | Some ancount \<Rightarrow>
       if ancount = 0 then Some (Inl (Errorf ''no answer records''))
       else case qname_loop response 12 of
         None \<Rightarrow> None
       | Some (Inl e) \<Rightarrow> Some (Inl e)
       | Some (Inr offset) \<Rightarrow>
           if offset + 4 > length response then Some (Inl (Errorf ''QTYPE/QCLASS out of range''))
           else answer_loop response (unat ancount) (offset + 4))"

section \<open>Queries and the published list\<close>

definition queryDNSUDP ::
  "(string \<Rightarrow> bytes \<Rightarrow> bytes res) \<Rightarrow> string \<Rightarrow> string \<Rightarrow> bytes res option"
where
  "queryDNSUDP udp domain server =
    (let server1 = (if CHR '':'' \<notin> set server then server @ '':53'' else server)
     in case udp server1 (buildDNSQuery domain typeHTTPS) of
          Inl e \<Rightarrow> Some (Inl e)
        | Inr datagram \<Rightarrow> parseDNSResponse (take 4096 datagram))"

definition queryDoH ::
  "(string \<Rightarrow> string \<Rightarrow> (nat \<times> bytes) res) \<Rightarrow> string \<Rightarrow> string \<Rightarrow> bytes res option"
where
  "queryDoH doh domain dohURL =
    (case doh dohURL (RawURLEncode (buildDNSQuery domain typeHTTPS)) of
       Inl e \<Rightarrow> Some (Inl e)
     | Inr (status, body) \<Rightarrow>
         if status \<noteq> 200 then Some (Inl (Errorf (''DoH status code: '' @ dec_of_nat status)))
         else parseDNSResponse body)"

definition queryECH ::
  "(string \<Rightarrow> bytes \<Rightarrow> bytes res) \<Rightarrow> (string \<Rightarrow> string \<Rightarrow> (nat \<times> bytes) res)
     \<Rightarrow> string \<Rightarrow> string \<Rightarrow> bytes res option"
where
  "queryECH udp doh server domain =
    (if HasPrefix server ''http://'' \<or> HasPrefix server ''https://'' then queryDoH doh domain server
     else queryDNSUDP udp domain server)"

record ech_state =
  echList :: bytes
  echFallback :: bool
  echDomain :: string
  dnsServer :: string

definition ech_zero :: ech_state where
  "ech_zero = \<lparr>echList = [], echFallback = False, echDomain = [], dnsServer = []\<rparr>"

definition RefreshECH ::
  "(string \<Rightarrow> bytes \<Rightarrow> bytes res) \<Rightarrow> (string \<Rightarrow> string \<Rightarrow> (nat \<times> bytes) res)
     \<Rightarrow> ech_state \<Rightarrow> (go_error option \<times> ech_state) option"
where
  "RefreshECH udp doh g = (case queryECH udp doh (dnsServer g) (echDomain g) of
     None \<Rightarrow> None
   | Some (Inl e) \<Rightarrow> Some (Some e, g)
   | Some (Inr raw) \<Rightarrow> Some (None, g\<lparr>echList := raw\<rparr>))"

definition InitECH ::
  "(string \<Rightarrow> bytes \<Rightarrow> bytes res) \<Rightarrow> (string \<Rightarrow> string \<Rightarrow> (nat \<times> bytes) res)
     \<Rightarrow> string \<Rightarrow> string \<Rightarrow> bool \<Rightarrow> ech_state \<Rightarrow> (go_error option \<times> ech_state) option"
where
  "InitECH udp doh dns domain fallback g =
    (let g1 = g\<lparr>echFallback := fallback\<rparr>
     in if fallback then Some (None, g1)
        else RefreshECH udp doh (g1\<lparr>echDomain := domain, dnsServer := dns\<rparr>))"

definition GetECHList :: "ech_state \<Rightarrow> bytes res" where
  "GetECHList g =
    (if echFallback g then Inr []
     else if length (echList g) = 0 then Inl (Errorf ''ECH configuration not loaded'')
     else Inr (echList g))"

declare name_loop.simps [simp del] params_loop.simps [simp del] qname_loop.simps [simp del]

section \<open>Bounds\<close>

lemma slice_sublist: "slice b lo hi = Some v \<Longrightarrow> \<exists>pre post. b = pre @ v @ post"
proof -
  assume "slice b lo hi = Some v"
  then have "lo \<le> hi" "v = take (hi - lo) (drop lo b)" by (auto simp: slice_def split: if_splits)
  then have "b = take lo b @ v @ drop hi b"
    by (metis append_take_drop_id drop_drop le_add_diff_inverse2)
  then show ?thesis by blast
qed

lemma sublist_trans:
  "\<exists>pre post. b = pre @ (v :: 'a list) @ post \<Longrightarrow> \<exists>pre post. v = pre @ w @ post \<Longrightarrow> \<exists>pre post. b = pre @ w @ post"
  by (metis append.assoc)

lemma name_loop_total: "\<exists>k. name_loop b i = Some k \<and> i \<le> k"
proof (induction b i rule: name_loop.induct)
  case (1 b i)
  show ?case
  proof (cases "i < length b \<and> b ! i \<noteq> 0")
    case True
    then obtain k where "name_loop b (i + unat (b ! i) + 1) = Some k" "i + unat (b ! i) + 1 \<le> k"
      using 1 [of "b ! i"] by (auto simp: index_at_Some)
    with True show ?thesis by (subst name_loop.simps) (auto simp: index_at_Some)
  next
    case False
    then show ?thesis by (subst name_loop.simps) (auto simp: index_at_Some)
  qed
qed

lemma params_loop_total:
  "\<exists>r. params_loop b i = Some r \<and> (\<forall>v. r = Some v \<longrightarrow> (\<exists>pre post. b = pre @ v @ post))"
proof (induction b i rule: params_loop.induct)
  case (1 b i)
  show ?case
  proof (cases "i + 4 \<le> length b")
    case True
    let ?k = "get_u16 (b ! i) (b ! (i + 1))" and ?l = "get_u16 (b ! (i + 2)) (b ! (i + 3))"
    have u: "u16_at b i = Some ?k" "u16_at b (i + 2) = Some ?l"
      using True u16_at_Some [of i b] u16_at_Some [of "i + 2" b] by (simp_all add: numeral_3_eq_3)
    show ?thesis
    proof (cases "i + 4 + unat ?l > length b")
      case True
      with u \<open>i + 4 \<le> length b\<close> show ?thesis by (subst params_loop.simps) (simp add: Let_def)
    next
      case False
      then obtain v where v: "slice b (i + 4) (i + 4 + unat ?l) = Some v" by (simp add: slice_def)
      show ?thesis
      proof (cases "?k = 5")
        case key: True
        with u v False True slice_sublist [OF v] show ?thesis
          by (subst params_loop.simps) (simp add: Let_def)
      next
        case other: False
        from 1 [OF True u refl _ v other] False obtain r where
          "params_loop b (i + 4 + unat ?l) = Some r" "\<forall>v. r = Some v \<longrightarrow> (\<exists>pre post. b = pre @ v @ post)"
          by auto
        with u v False True other show ?thesis
          by (subst params_loop.simps) (simp add: Let_def)
      qed
    qed
  next
    case False
    then show ?thesis by (subst params_loop.simps) simp
  qed
qed

lemma parseHTTPSRecord_total:
  "\<exists>r. parseHTTPSRecord b = Some r \<and> (\<forall>v. r = Some v \<longrightarrow> (\<exists>pre post. b = pre @ v @ post))"
proof -
  obtain k where "name_loop b 2 = Some k" using name_loop_total by blast
  with params_loop_total [of b 3] params_loop_total [of b "k + 1"] show ?thesis
    by (simp add: parseHTTPSRecord_def)
qed

lemma qname_loop_total: "\<exists>r. qname_loop b i = Some r"
proof (induction b i rule: qname_loop.induct)
  case (1 b i)
  then show ?case
    by (subst qname_loop.simps) (auto simp: index_at_Some u16_at_Some)
qed

lemma answer_name_total: "i < length b \<Longrightarrow> \<exists>r. answer_name b i = Some r"
  using name_loop_total [of b i]
  by (auto simp: answer_name_def index_at_Some u16_at_Some)

lemma answer_loop_total:
  "\<exists>r. answer_loop b n i = Some r \<and> (\<forall>v. r = Inr v \<longrightarrow> (\<exists>pre post. b = pre @ v @ post))"
proof (induction n arbitrary: i)
  case 0
  show ?case by (simp add: ech_not_found_def)
next
  case (Suc n)
  show ?case
  proof (cases "i < length b")
    case True
    then obtain nm where nm: "answer_name b i = Some nm" using answer_name_total by blast
    show ?thesis
    proof (cases nm)
      case (Inl e)
      with nm True show ?thesis by simp
    next
      case (Inr ko)
      show ?thesis
      proof (cases ko)
        case None
        with nm Inr True show ?thesis by (simp add: ech_not_found_def)
      next
        case (Some k)
        show ?thesis
        proof (cases "k + 10 > length b")
          case True
          with nm Inr Some \<open>i < length b\<close> show ?thesis by (simp add: ech_not_found_def)
        next
          case fits: False
          then obtain ty len where u: "u16_at b k = Some ty" "u16_at b (k + 8) = Some len"
            by (simp add: u16_at_Some)
          show ?thesis
          proof (cases "k + 10 + unat len > length b")
            case True
            with nm Inr Some \<open>i < length b\<close> fits u show ?thesis
              by (simp add: ech_not_found_def Let_def)
          next
            case False
            then obtain rd where rd: "slice b (k + 10) (k + 10 + unat len) = Some rd"
              by (simp add: slice_def)
            obtain h where h: "parseHTTPSRecord rd = Some h"
              "\<forall>v. h = Some v \<longrightarrow> (\<exists>pre post. rd = pre @ v @ post)"
              using parseHTTPSRecord_total by blast
            with sublist_trans [OF slice_sublist [OF rd]]
            have "\<forall>v. h = Some v \<longrightarrow> (\<exists>pre post. b = pre @ v @ post)" by blast
            with nm Inr Some \<open>i < length b\<close> fits u rd False h(1) Suc.IH [of "k + 10 + unat len"]
            show ?thesis by (cases h) (simp_all add: Let_def)
          qed
        qed
      qed
    qed
  next
    case False
    then show ?thesis by (simp add: ech_not_found_def)
  qed
qed

lemma parseDNSResponse_total:
  "\<exists>r. parseDNSResponse b = Some r \<and> (\<forall>v. r = Inr v \<longrightarrow> (\<exists>pre post. b = pre @ v @ post))"
proof (cases "length b < 12")
  case True
  then show ?thesis by (simp add: parseDNSResponse_def)
next
  case False
  then obtain c where "u16_at b 6 = Some c" by (simp add: u16_at_Some)
  moreover obtain q where "qname_loop b 12 = Some q" using qname_loop_total by blast
  ultimately show ?thesis
    using False answer_loop_total by (cases q) (auto simp: parseDNSResponse_def)
qed

section \<open>Well-formed messages\<close>

text \<open>
  The messages a server sends back: the question of the query, answers whose owner name is a
  pointer to the question, and an HTTPS record with its target name and parameters.
\<close>

definition ok_label :: "string \<Rightarrow> bool" where
  "ok_label l \<longleftrightarrow> 0 < length l \<and> length l < 64"

definition svc_param :: "16 word \<times> bytes \<Rightarrow> bytes" where
  "svc_param p = (case p of (key, v) \<Rightarrow> put_u16 key @ put_u16 (of_nat (length v)) @ v)"

definition https_rdata :: "bytes \<Rightarrow> string list \<Rightarrow> (16 word \<times> bytes) list \<Rightarrow> bytes" where
  "https_rdata prio target ps = prio @ dns_labels target @ [0] @ concat (List.map svc_param ps)"

definition dns_answer :: "16 word \<times> bytes \<times> bytes \<Rightarrow> bytes" where
  "dns_answer a = (case a of (ty, cls_ttl, rdata) \<Rightarrow>
     [0xC0, 0x0C] @ put_u16 ty @ cls_ttl @ put_u16 (of_nat (length rdata)) @ rdata)"

definition dns_header :: "bytes \<Rightarrow> 16 word \<Rightarrow> bytes \<Rightarrow> bytes" where
  "dns_header id_flags count counts = id_flags @ put_u16 count @ counts"

definition ok_answer :: "16 word \<times> bytes \<times> bytes \<Rightarrow> bool" where
  "ok_answer a = (case a of (ty, cls_ttl, rdata) \<Rightarrow> length cls_ttl = 6 \<and> length rdata < 65536)"

lemma dns_labels_simps [simp]:
  "dns_labels [] = []"
  "dns_labels (l # ls) = of_nat (length l) # str_bytes l @ dns_labels ls"
  by (simp_all add: dns_labels_def)

lemma label_byte: "length l < 64 \<Longrightarrow> (of_nat (length l) :: byte) AND 0xC0 \<noteq> 0xC0"
proof
  assume "length l < 64" and eq: "(of_nat (length l) :: byte) AND 0xC0 = 0xC0"
  have "(of_nat (length l) :: byte) AND 0xC0 \<le> of_nat (length l)" by (rule word_and_le2)
  with eq have "(0xC0 :: byte) \<le> of_nat (length l)" by simp
  then have "unat (0xC0 :: byte) \<le> unat (of_nat (length l) :: byte)" by (simp only: word_le_nat_alt)
  with \<open>length l < 64\<close> show False by simp
qed

lemma label_byte_pos: "0 < n \<Longrightarrow> n < 256 \<Longrightarrow> (of_nat n :: byte) \<noteq> 0"
  by (metis unat_u8_of_nat unat_0 less_irrefl)

lemma name_loop_labels:
  "list_all ok_label ls \<Longrightarrow> b = pre @ dns_labels ls @ 0 # rest \<Longrightarrow>
     name_loop b (length pre) = Some (length pre + length (dns_labels ls))"
proof (induction ls arbitrary: pre)
  case Nil
  then show ?case by (subst name_loop.simps) (simp add: index_at_Some)
next
  case (Cons l ls)
  from Cons.prems have l: "0 < length l" "length l < 256" by (auto simp: ok_label_def)
  have "name_loop b (length (pre @ of_nat (length l) # str_bytes l))
      = Some (length (pre @ of_nat (length l) # str_bytes l) + length (dns_labels ls))"
    using Cons.prems by (intro Cons.IH) auto
  with Cons.prems(2) l label_byte_pos [OF l] show ?case
    by (subst name_loop.simps) (auto simp: index_at_Some add.assoc)
qed

lemma qname_loop_labels:
  "list_all ok_label ls \<Longrightarrow> b = pre @ dns_labels ls @ 0 # rest \<Longrightarrow>
     qname_loop b (length pre) = Some (Inr (length pre + length (dns_labels ls) + 1))"
proof (induction ls arbitrary: pre)
  case Nil
  then show ?case by (subst qname_loop.simps) (simp add: index_at_Some)
next
  case (Cons l ls)
  from Cons.prems have l: "0 < length l" "length l < 256" "length l < 64" by (auto simp: ok_label_def)
  have "qname_loop b (length (pre @ of_nat (length l) # str_bytes l))
      = Some (Inr (length (pre @ of_nat (length l) # str_bytes l) + length (dns_labels ls) + 1))"
    using Cons.prems by (intro Cons.IH) auto
  with Cons.prems(2) l label_byte_pos [OF l(1,2)] label_byte [OF l(3)] show ?case
    by (subst qname_loop.simps) (auto simp: index_at_Some add.assoc)
qed

text \<open>Reading a parameter: its two fields and its value.\<close>

lemma u16_at_put: "u16_at (pre @ put_u16 v @ rest) (length pre) = Some v"
  by (simp add: u16_at_append u16_at_Some put_u16_def nth_append)

lemma slice_mid: "slice (pre @ v @ rest) (length pre) (length pre + length v) = Some v"
  by (simp add: slice_Some)

lemma params_loop_param:
  assumes "b = pre @ svc_param (key, v) @ rest" "length v < 65536"
  shows "params_loop b (length pre) =
    (if key = 5 then Some (Some v) else params_loop b (length pre + length (svc_param (key, v))))"
proof -
  let ?n = "of_nat (length v) :: 16 word"
  from assms(1) have b: "b = pre @ put_u16 key @ put_u16 ?n @ v @ rest" by (simp add: svc_param_def)
  have 1: "u16_at b (length pre) = Some key" unfolding b by (rule u16_at_put)
  have 2: "u16_at b (length pre + 2) = Some ?n"
    using u16_at_put [of "pre @ put_u16 key" ?n "v @ rest"] by (simp add: b)
  have 3: "slice b (length pre + 4) (length pre + 4 + length v) = Some v"
    using slice_mid [of "pre @ put_u16 key @ put_u16 ?n" v rest] by (simp add: b add.assoc)
  have len: "length b = length pre + 4 + length v + length rest" by (simp add: b)
  have n: "unat ?n = length v" using assms(2) by simp
  have l4: "length (svc_param (key, v)) = 4 + length v" by (simp add: svc_param_def)
  show ?thesis
    unfolding l4 by (subst params_loop.simps) (use 1 2 3 len n in \<open>simp add: Let_def add.assoc\<close>)
qed

lemma params_loop_find:
  "list_all (\<lambda>p. fst p \<noteq> 5 \<and> length (snd p) < 65536) ps \<Longrightarrow> length v < 65536 \<Longrightarrow>
     b = pre @ concat (List.map svc_param (ps @ (5, v) # qs)) \<Longrightarrow>
     params_loop b (length pre) = Some (Some v)"
proof (induction ps arbitrary: pre)
  case Nil
  then show ?case
    using params_loop_param [of b pre 5 v "concat (List.map svc_param qs)"] by simp
next
  case (Cons p ps)
  obtain key w where p: "p = (key, w)" by fastforce
  have "params_loop b (length (pre @ svc_param p)) = Some (Some v)"
    using Cons.prems by (intro Cons.IH) auto
  with Cons.prems p params_loop_param [of b pre key w "concat (List.map svc_param (ps @ (5, v) # qs))"]
  show ?case by simp
qed

lemma parseHTTPSRecord_find:
  assumes "length prio = 2" "list_all ok_label target"
    "list_all (\<lambda>p. fst p \<noteq> 5 \<and> length (snd p) < 65536) ps" "length v < 65536"
  shows "parseHTTPSRecord (https_rdata prio target (ps @ (5, v) # qs)) = Some (Some v)"
proof -
  let ?b = "https_rdata prio target (ps @ (5, v) # qs)"
  let ?ps = "concat (List.map svc_param (ps @ (5, v) # qs))"
  have b: "?b = (prio @ dns_labels target @ [0]) @ ?ps" by (simp add: https_rdata_def)
  have found: "params_loop ?b (length (prio @ dns_labels target @ [0])) = Some (Some v)"
    using params_loop_find [OF assms(3,4) b] .
  have nm: "name_loop ?b 2 = Some (2 + length (dns_labels target))"
    using name_loop_labels [OF assms(2), of ?b prio ?ps] assms(1) by (simp add: https_rdata_def)
  show ?thesis
  proof (cases target)
    case Nil
    with found b assms(1) have "2 < length ?b" "?b ! 2 = 0" by (simp_all add: nth_append)
    with found assms(1) Nil show ?thesis
      by (simp add: parseHTTPSRecord_def index_at_Some)
  next
    case (Cons l ls)
    with assms(2) have "(of_nat (length l) :: byte) \<noteq> 0"
      by (intro label_byte_pos) (auto simp: ok_label_def)
    with b assms(1) Cons have "2 < length ?b" "?b ! 2 \<noteq> 0" by (simp_all add: nth_append)
    with found nm assms(1) show ?thesis
      by (simp add: parseHTTPSRecord_def index_at_Some)
  qed
qed

text \<open>Reading an answer whose name is a pointer.\<close>

lemma answer_loop_answer:
  assumes "b = pre @ dns_answer (ty, ct, rdata) @ rest" "ok_answer (ty, ct, rdata)" "12 < length pre"
  shows "answer_loop b (Suc n) (length pre) =
    (if ty = typeHTTPS then
       (case parseHTTPSRecord rdata of None \<Rightarrow> None | Some (Some e) \<Rightarrow> Some (Inr e)
        | Some None \<Rightarrow> answer_loop b n (length pre + length (dns_answer (ty, ct, rdata))))
     else answer_loop b n (length pre + length (dns_answer (ty, ct, rdata))))"
proof -
  let ?n = "of_nat (length rdata) :: 16 word"
  from assms(2) have ct: "length ct = 6" and n: "unat ?n = length rdata" by (simp_all add: ok_answer_def)
  from assms(1) have b: "b = pre @ [0xC0, 0x0C] @ put_u16 ty @ ct @ put_u16 ?n @ rdata @ rest"
    by (simp add: dns_answer_def)
  have len: "length b = length pre + 12 + length rdata + length rest" using ct by (simp add: b)
  have "index_at b (length pre) = Some 0xC0" by (simp add: b index_at_Some nth_append)
  moreover have "u16_at b (length pre) = Some 0xC00C"
    by (simp add: b u16_at_append u16_at_Some get_u16_def nth_append)
  moreover have "ptr_offset 0xC00C = 12" by (simp add: ptr_offset_def)
  ultimately have nm: "answer_name b (length pre) = Some (Inr (Some (length pre + 2)))"
    using len assms(3) by (auto simp: answer_name_def)
  have 1: "u16_at b (length pre + 2) = Some ty"
    using u16_at_put [of "pre @ [0xC0, 0x0C]" ty "ct @ put_u16 ?n @ rdata @ rest"] by (simp add: b)
  have 2: "u16_at b (length pre + 2 + 8) = Some ?n"
    using u16_at_put [of "pre @ [0xC0, 0x0C] @ put_u16 ty @ ct" ?n "rdata @ rest"] ct
    by (simp add: b ac_simps)
  have 3: "slice b (length pre + 2 + 10) (length pre + 2 + 10 + length rdata) = Some rdata"
    using slice_mid [of "pre @ [0xC0, 0x0C] @ put_u16 ty @ ct @ put_u16 ?n" rdata rest] ct
    by (simp add: b ac_simps)
  have l12: "length (dns_answer (t, ct, rdata)) = 2 + 10 + length rdata" for t
    using ct by (simp add: dns_answer_def)
  show ?thesis
    using nm 1 2 3 len n l12 by (simp add: Let_def ac_simps split: option.split)
qed

lemma answer_loop_find:
  "list_all (\<lambda>a. ok_answer a \<and> fst a \<noteq> typeHTTPS) as \<Longrightarrow> ok_answer (typeHTTPS, ct, rdata) \<Longrightarrow>
     parseHTTPSRecord rdata = Some (Some v) \<Longrightarrow> length as < n \<Longrightarrow> 12 < length pre \<Longrightarrow>
     b = pre @ concat (List.map dns_answer as) @ dns_answer (typeHTTPS, ct, rdata) @ rest \<Longrightarrow>
     answer_loop b n (length pre) = Some (Inr v)"
proof (induction as arbitrary: pre n)
  case Nil
  then obtain m where "n = Suc m" by (cases n) auto
  with Nil answer_loop_answer [of b pre typeHTTPS ct rdata rest m] show ?case by simp
next
  case (Cons a as)
  then obtain m where m: "n = Suc m" "length as < m" by (cases n) auto
  obtain ty ct' rd where a: "a = (ty, ct', rd)" by (cases a)
  have "answer_loop b m (length (pre @ dns_answer a)) = Some (Inr v)"
    using Cons.prems m by (intro Cons.IH) auto
  with Cons.prems m a
    answer_loop_answer [of b pre ty ct' rd
      "concat (List.map dns_answer as) @ dns_answer (typeHTTPS, ct, rdata) @ rest" m]
  show ?case by simp
qed

lemma parse_well_formed:
  assumes "list_all ok_label (SplitAll (CHR ''.'') domain)" "length id_flags = 6" "length counts = 4"
    and "list_all (\<lambda>a. ok_answer a \<and> fst a \<noteq> typeHTTPS) as" "length as < unat count"
    and "length prio = 2" "list_all ok_label target"
    and "list_all (\<lambda>p. fst p \<noteq> 5 \<and> length (snd p) < 65536) ps" "length v < 65536"
    and "rdata = https_rdata prio target (ps @ (5, v) # qs)" "ok_answer (typeHTTPS, ct, rdata)"
  shows "parseDNSResponse (dns_header id_flags count counts @ drop 12 (buildDNSQuery domain typeHTTPS)
      @ concat (List.map dns_answer as) @ dns_answer (typeHTTPS, ct, rdata) @ rest) = Some (Inr v)"
    (is "parseDNSResponse ?b = _")
proof -
  let ?h = "dns_header id_flags count counts" and ?ls = "SplitAll (CHR ''.'') domain"
  let ?t = "[ucast (drop_bit 8 typeHTTPS), ucast typeHTTPS, 0x00, 0x01] :: bytes"
  let ?as = "concat (List.map dns_answer as) @ dns_answer (typeHTTPS, ct, rdata) @ rest"
  have h: "length ?h = 12" using assms(2,3) by (simp add: dns_header_def)
  have q: "drop 12 (buildDNSQuery domain typeHTTPS) = dns_labels ?ls @ [0] @ ?t"
    by (simp add: buildDNSQuery_def)
  have b: "?b = ?h @ dns_labels ?ls @ 0 # ?t @ ?as" by (simp only: q append.simps append_assoc)
  have c: "u16_at ?b 6 = Some count"
    using u16_at_put [of id_flags count "counts @ drop 12 (buildDNSQuery domain typeHTTPS) @ ?as"] assms(2)
    by (simp add: dns_header_def)
  have qn: "qname_loop ?b 12 = Some (Inr (12 + length (dns_labels ?ls) + 1))"
    using qname_loop_labels [OF assms(1) b] h by simp
  let ?pre = "?h @ dns_labels ?ls @ 0 # ?t"
  have b2: "?b = ?pre @ concat (List.map dns_answer as) @ dns_answer (typeHTTPS, ct, rdata) @ rest"
    unfolding b by simp
  have "parseHTTPSRecord rdata = Some (Some v)"
    unfolding assms(10) by (rule parseHTTPSRecord_find [OF assms(6-9)])
  then have "answer_loop ?b (unat count) (length ?pre) = Some (Inr v)"
    using assms(4,5,11) h by (intro answer_loop_find [OF _ _ _ _ _ b2]) simp_all
  moreover have "length ?pre = 12 + length (dns_labels ?ls) + 1 + 4" using h by simp
  ultimately have "answer_loop ?b (unat count) (12 + length (dns_labels ?ls) + 1 + 4) = Some (Inr v)"
    by (simp only:)
  moreover have "length ?pre \<le> length ?b" unfolding b2 by simp
  moreover have "count \<noteq> 0" using assms(5) by auto
  ultimately show ?thesis
    using c qn h unfolding parseDNSResponse_def by simp
qed

text \<open>A response with one record of another type before the HTTPS record.\<close>

lemma example_response:
  "let rdata = https_rdata [0, 1] [] [(1, [2, 104, 50]), (5, [10, 20, 30])] in
   parseDNSResponse (dns_header [0, 1, 129, 128, 0, 1] 2 [0, 0, 0, 0]
     @ drop 12 (buildDNSQuery ''ech.example'' typeHTTPS)
     @ concat (List.map dns_answer [(5, [0, 1, 0, 0, 1, 44], [192, 12])])
     @ dns_answer (typeHTTPS, [0, 1, 0, 0, 1, 44], rdata) @ []) = Some (Inr [10, 20, 30])"
proof -
  have l: "list_all ok_label (SplitAll (CHR ''.'') ''ech.example'')"
    by (simp add: ok_label_def)
  have a: "list_all (\<lambda>a. ok_answer a \<and> fst a \<noteq> typeHTTPS) [(5, [0, 1, 0, 0, 1, 44], [192, 12])]"
    by (simp add: ok_answer_def typeHTTPS_def)
  have r: "ok_answer (typeHTTPS, [0, 1, 0, 0, 1, 44], https_rdata [0, 1] [] ([(1, [2, 104, 50])] @ (5, [10, 20, 30]) # []))"
    by (simp add: ok_answer_def https_rdata_def svc_param_def)
  from parse_well_formed [OF l _ _ a _ _ _ _ _ refl r, where count = 2
      and id_flags = "[0, 1, 129, 128, 0, 1]" and counts = "[0, 0, 0, 0]" and rest = "[]"]
  show ?thesis by (simp add: Let_def del: concat.simps list.map)
qed

section \<open>Properties\<close>

text \<open>
  C4: no DNS response can crash the client. Whatever the bytes of the response, every index and
  slice of the parser is in range, the parser returns, and an ECH configuration it returns is a
  contiguous part of the response.
\<close>

theorem parseDNSResponse_no_panic:
  "\<exists>r. parseDNSResponse response = Some r
     \<and> (\<forall>v. r = Inr v \<longrightarrow> (\<exists>pre post. response = pre @ v @ post))"
  by (rule parseDNSResponse_total)

theorem parseDNSResponse_no_panic_witness:
  "\<exists>pre post. dns_header [0, 1, 129, 128, 0, 1] 2 [0, 0, 0, 0] @ drop 12 (buildDNSQuery ''ech.example'' typeHTTPS)
     @ concat (List.map dns_answer [(5, [0, 1, 0, 0, 1, 44], [192, 12])])
     @ dns_answer (typeHTTPS, [0, 1, 0, 0, 1, 44], https_rdata [0, 1] [] [(1, [2, 104, 50]), (5, [10, 20, 30])]) @ []
    = pre @ [10, 20, 30] @ post"
  using parseDNSResponse_no_panic [of "dns_header [0, 1, 129, 128, 0, 1] 2 [0, 0, 0, 0]
     @ drop 12 (buildDNSQuery ''ech.example'' typeHTTPS)
     @ concat (List.map dns_answer [(5, [0, 1, 0, 0, 1, 44], [192, 12])])
     @ dns_answer (typeHTTPS, [0, 1, 0, 0, 1, 44], https_rdata [0, 1] [] [(1, [2, 104, 50]), (5, [10, 20, 30])]) @ []"]
    example_response [unfolded Let_def]
  by (metis option.inject)



text \<open>
  An answer whose owner name is labels followed by a pointer is not understood. The walker of
  answer names takes the pointer's first byte for a label of 192 bytes; a response that is well
  formed for DNS, with such a name in front of an HTTPS record that carries the parameter, is
  reported as having no ECH when fewer than 192 bytes follow the pointer.
\<close>

theorem dns_label_pointer_missed:
  assumes "length id_flags = 6" "length counts = 4" "ok_label l" "list_all ok_label ls"
    and "length tail < 192" "0 < unat count"
  shows "parseDNSResponse (dns_header id_flags count counts @ dns_labels ls @ [0, 0, 65, 0, 1]
      @ dns_labels [l] @ [0xC0, 0x0C] @ tail) = Some (Inl (Errorf ''ECH not found''))"
    (is "parseDNSResponse ?b = _")
proof -
  let ?h = "dns_header id_flags count counts"
  let ?pre = "?h @ dns_labels ls @ [0, 0, 65, 0, 1]"
  have h: "length ?h = 12" using assms(1,2) by (simp add: dns_header_def)
  have b: "?b = ?h @ dns_labels ls @ 0 # [0, 65, 0, 1] @ dns_labels [l] @ [0xC0, 0x0C] @ tail" by simp
  have c: "u16_at ?b 6 = Some count"
    using u16_at_put [of id_flags count "counts @ dns_labels ls @ [0, 0, 65, 0, 1] @ dns_labels [l] @ [0xC0, 0x0C] @ tail"]
      assms(1) by (simp add: dns_header_def)
  have qn: "qname_loop ?b 12 = Some (Inr (12 + length (dns_labels ls) + 1))"
    using qname_loop_labels [OF assms(4) b] h by simp
  let ?p = "length ?pre"
  from assms(3) have l: "0 < length l" "length l < 256" "length l < 64" by (auto simp: ok_label_def)
  have at: "?b ! ?p = of_nat (length l)" "?b ! (?p + length l + 1) = 0xC0"
    by (simp_all add: nth_append)
  have len: "length ?b = ?p + length l + 3 + length tail" by simp
  have "name_loop ?b (?p + length l + 1 + 192 + 1) = Some (?p + length l + 1 + 192 + 1)"
    using len assms(5) by (subst name_loop.simps) simp
  then have "name_loop ?b (?p + length l + 1) = Some (?p + length l + 1 + 192 + 1)"
    using len at by (subst name_loop.simps) (simp add: index_at_Some add.assoc)
  then have "name_loop ?b ?p = Some (?p + length l + 1 + 192 + 1)"
    using len at l label_byte_pos [OF l(1,2)] by (subst name_loop.simps) (simp add: index_at_Some add.assoc)
  then have nm: "answer_name ?b ?p = Some (Inr (Some (?p + length l + 1 + 192 + 2)))"
    using len at label_byte [OF l(3)] by (simp add: answer_name_def index_at_Some)
  obtain m where m: "unat count = Suc m" using assms(6) by (cases "unat count") auto
  have "answer_loop ?b (Suc m) ?p = ech_not_found"
    using nm len assms(5) by (subst answer_loop.simps) simp
  moreover have "?p = 12 + length (dns_labels ls) + 1 + 4" using h by simp
  ultimately have "answer_loop ?b (unat count) (12 + length (dns_labels ls) + 1 + 4) = ech_not_found"
    by (simp only: m)
  with c qn h len assms(6) show ?thesis
    unfolding parseDNSResponse_def ech_not_found_def by auto
qed

theorem dns_label_pointer_missed_witness:
  "parseDNSResponse (dns_header [0, 1, 129, 128, 0, 1] 1 [0, 0, 0, 0] @ dns_labels [''ech'', ''example''] @ [0, 0, 65, 0, 1]
     @ dns_labels [''svc''] @ [0xC0, 0x0C]
     @ [0, 65, 0, 1, 0, 0, 1, 44, 0, 10, 0, 1, 0, 0, 5, 0, 3, 10, 20, 30]) = Some (Inl (Errorf ''ECH not found''))"
  by (rule dns_label_pointer_missed) (simp_all add: ok_label_def)

lemma queryECH_total: "\<exists>r. queryECH udp doh server domain = Some r"
proof -
  have p: "\<exists>r. parseDNSResponse b = Some r" for b
    using parseDNSResponse_total [of b] by blast
  show ?thesis
    using p by (auto simp: queryECH_def queryDoH_def queryDNSUDP_def Let_def split: sum.split)
qed

text \<open>
  What \<^verbatim>\<open>InitECH\<close> publishes. It never crashes, whatever the network answers; in fallback mode
  it succeeds and the published list is nil; otherwise it succeeds exactly when the query does, and
  then the list read back is the one received, an empty one counting as not loaded. A later refresh
  that fails leaves the published list as it was.
\<close>

theorem ech_publish:
  "\<exists>r g'. InitECH udp doh dns domain fallback g = Some (r, g') \<and>
     (if fallback then r = None \<and> GetECHList g' = Inr []
      else case queryECH udp doh dns domain of
        None \<Rightarrow> False
      | Some (Inl e) \<Rightarrow> r = Some e \<and> echList g' = echList g
      | Some (Inr raw) \<Rightarrow> r = None \<and>
          GetECHList g' = (if raw = [] then Inl (Errorf ''ECH configuration not loaded'') else Inr raw)) \<and>
     (\<exists>r2 g2. RefreshECH udp2 doh2 g' = Some (r2, g2) \<and> (r2 = None \<or> GetECHList g2 = GetECHList g'))"
proof -
  obtain q where q: "queryECH udp doh dns domain = Some q" using queryECH_total by blast
  define g' where "g' = (if fallback then g\<lparr>echFallback := True\<rparr> else
     (g\<lparr>echFallback := False, echDomain := domain, dnsServer := dns,
        echList := (case q of Inl _ \<Rightarrow> echList g | Inr raw \<Rightarrow> raw)\<rparr>))"
  define r where "r = (if fallback then None else case q of Inl e \<Rightarrow> Some e | Inr _ \<Rightarrow> None)"
  have "InitECH udp doh dns domain fallback g = Some (r, g')"
    using q by (simp add: InitECH_def RefreshECH_def g'_def r_def Let_def split: sum.split)
  moreover obtain q2 where "queryECH udp2 doh2 (dnsServer g') (echDomain g') = Some q2"
    using queryECH_total by blast
  then have "\<exists>r2 g2. RefreshECH udp2 doh2 g' = Some (r2, g2) \<and> (r2 = None \<or> GetECHList g2 = GetECHList g')"
    by (cases q2) (simp_all add: RefreshECH_def)
  ultimately show ?thesis
    using q by (auto simp: g'_def r_def GetECHList_def split: sum.split)
qed

end
