(* ===== verification/Client.thy ===== *)
theory Client
  imports Session Handshake Relay Config Uuid ECH
begin

text \<open>
  The client's main connection, \<^verbatim>\<open>cmd/client/main.go\<close>: how a WebSocket is dialled, the handshake,
  the reconnection loop and the keep-alive. \<^verbatim>\<open>currentSession\<close> is an optional session.

  Parameters: a parsed URL (\<^verbatim>\<open>net/url\<close>) is its scheme and host name, \<open>u_text scheme query\<close> its text with
  another scheme and query; whether dialling, the multiplexer and a stream succeed are arguments.
\<close>

section \<open>Dialling\<close>

record parsed_url =
  u_scheme :: string
  u_hostname :: string
  u_text :: "string \<Rightarrow> (string \<times> string) list \<Rightarrow> string"

text \<open>The TLS part of a dial: server name, verification switched off, ECH list, fingerprint.\<close>

record tls_plan =
  tls_name :: string
  tls_insecure :: bool
  tls_minVersion :: nat
  tls_ech :: "bytes option"
  tls_hello :: string

record dial_plan =
  d_addr :: string
  d_timeout :: int
  d_buffers :: int
  d_subprotocols :: "string list"
  d_tls :: "tls_plan option"

definition known_fingerprints :: "string list" where
  "known_fingerprints = [''chrome_120'', ''chrome_112'', ''firefox_120'', ''firefox_115'', ''ios_17'', ''ios_16'',
     ''edge_120'', ''edge_112'', ''safari_16'', ''safari_17'']"

text \<open>A fingerprint of the TLS library is named by its configuration text; \<^verbatim>\<open>None\<close> is nil.\<close>

definition GetClientHelloID :: "string \<Rightarrow> string option" where
  "GetClientHelloID name = (if name \<in> set known_fingerprints then Some name else None)"

definition lower :: "string \<Rightarrow> string" where
  "lower s = List.map (\<lambda>c. if 65 \<le> ord_of c \<and> ord_of c \<le> 90 then char_of (ord_of c + 32) else c) s"

text \<open>\<^verbatim>\<open>dialWS\<close> up to the dial; the first result of \<open>parse\<close> is its error.\<close>

definition dialWS ::
  "(string \<Rightarrow> parsed_url res) \<Rightarrow> ech_state \<Rightarrow> 'a CommonConfig_scheme \<Rightarrow> string \<Rightarrow> string \<Rightarrow> int \<Rightarrow> dial_plan res"
where
  "dialWS parse ech conf addr clientID channelID = (case parse addr of
     Inl e \<Rightarrow> Inl e
   | Inr u \<Rightarrow>
       let scheme = lower (u_scheme u);
           query = (if clientID \<noteq> [] then [(''client_id'', clientID)] else [])
             @ (if channelID > 0 then [(''channel_id'', Itoa channelID)] else []);
           sub = (if Token conf \<noteq> [] then [Token conf] else [])
       in if scheme \<noteq> ''ws'' \<and> scheme \<noteq> ''wss'' then Inl (Errorf ''only ws or wss'')
          else if scheme = ''wss'' then
            (let list = (if \<not> Fallback conf then (case GetECHList ech of Inl _ \<Rightarrow> [] | Inr l \<Rightarrow> l) else [])
             in Inr \<lparr>d_addr = u_text u ''ws'' query, d_timeout = DialTimeout conf, d_buffers = ReadBuf conf,
                  d_subprotocols = sub,
                  d_tls = Some \<lparr>tls_name = u_hostname u, tls_insecure = Insecure conf, tls_minVersion = 0x0304,
                    tls_ech = (if length list > 0 then Some list else None),
                    tls_hello = (case GetClientHelloID (UtlsFingerprint conf) of
                       None \<Rightarrow> ''chrome_120'' | Some h \<Rightarrow> h)\<rparr>\<rparr>)
          else Inr \<lparr>d_addr = u_text u (u_scheme u) query, d_timeout = DialTimeout conf, d_buffers = ReadBuf conf,
            d_subprotocols = sub, d_tls = None\<rparr>)"

text \<open>The address \<^verbatim>\<open>NetDialContext\<close> connects to: the host overridden by the channel's IP or the configuration.\<close>

definition dial_address :: "string \<Rightarrow> 'a CommonConfig_scheme \<Rightarrow> string \<Rightarrow> string" where
  "dial_address ip conf address = (case SplitHostPort_lax address of (host, port) \<Rightarrow>
     JoinHostPort (if ip \<noteq> [] then ip else if IPOverride conf \<noteq> [] then IPOverride conf else host) port)"

text \<open>
  \<^verbatim>\<open>NetDialContext\<close>: the TLS connection or the error, and whether the TCP connection was closed; and what
  \<^verbatim>\<open>dialWS\<close> makes of the dialler's result and the status of the response, if there is one.
\<close>

definition NetDialContext ::
  "(string \<Rightarrow> 'c res) \<Rightarrow> ('c \<Rightarrow> 'c res) \<Rightarrow> string \<Rightarrow> 'a CommonConfig_scheme \<Rightarrow> string \<Rightarrow> 'c res \<times> bool"
where
  "NetDialContext dial tls ip conf address = (case dial (dial_address ip conf address) of
     Inl e \<Rightarrow> (Inl e, False)
   | Inr c \<Rightarrow> (case tls c of Inl e \<Rightarrow> (Inl e, True) | Inr u \<Rightarrow> (Inr u, False)))"

definition dialWS_result :: "dial_plan \<Rightarrow> nat option \<Rightarrow> 'c res \<Rightarrow> 'c res" where
  "dialWS_result p status r = (case r of
     Inr c \<Rightarrow> Inr c
   | Inl e \<Rightarrow> if d_tls p \<noteq> None \<and> status = Some 401
       then Inl (Errorf ''authentication failed: token does not match'') else Inl e)"

section \<open>Handshake and keep-alive\<close>

text \<open>The stream opened, if any; a nil UUID is written as no bytes.\<close>

definition doHandshake ::
  "'a CommonConfig_scheme \<Rightarrow> uuid_state \<Rightarrow> stream res \<Rightarrow> go_error option \<times> stream option"
where
  "doHandshake conf ids opened = (case opened of
     Inl e \<Rightarrow> (Some e, None)
   | Inr stream \<Rightarrow>
       let uuid = (case GetUUIDBytes ids of None \<Rightarrow> [] | Some b \<Rightarrow> b)
       in case WriteHandshakeRequest uuid (DialTimeout conf) stream of
            (Inl e, s1) \<Rightarrow> (Some e, Some (Close s1))
          | (Inr _, s1) \<Rightarrow>
              (case ReadHandshakeResponse (DialTimeout conf) s1 of
                 (Inl e, s2) \<Rightarrow> (Some e, Some (Close s2))
               | (Inr code, s2) \<Rightarrow>
                   (if code \<noteq> HandshakeOK then
                      (Some (Errorf (''handshake failed: code '' @ dec_of_nat (unat code))), Some (Close s2))
                    else (None, Some (Close s2)))))"

text \<open>One tick of \<^verbatim>\<open>keepAlive\<close>: whether the loop goes on, the ping stream, the session.\<close>

definition keepAlive_tick :: "stream res \<Rightarrow> ClientSession \<Rightarrow> bool \<times> stream option \<times> ClientSession" where
  "keepAlive_tick opened sess = (case opened of
     Inl e \<Rightarrow> (False, None, CS_Close sess)
   | Inr stream \<Rightarrow>
       let s1 = snd (Write [StreamKindPing, 0, 0, 0] stream);
           s2 = snd (Write (replicate 8 0) s1)
       in (True, Some (Close s2), sess))"

text \<open>
  \<^verbatim>\<open>keepAlive\<close> over the ticks before the session is done: the ping streams and the session, or the panic of
  \<^verbatim>\<open>time.NewTicker\<close>.
\<close>

fun keepAlive_ticks :: "stream res list \<Rightarrow> ClientSession \<Rightarrow> stream list \<times> ClientSession" where
  "keepAlive_ticks [] sess = ([], sess)"
| "keepAlive_ticks (opened # ticks) sess = (case keepAlive_tick opened sess of
     (False, _, s1) \<Rightarrow> ([], s1)
   | (True, None, s1) \<Rightarrow> keepAlive_ticks ticks s1
   | (True, Some ping, s1) \<Rightarrow> (case keepAlive_ticks ticks s1 of (pings, s2) \<Rightarrow> (ping # pings, s2)))"

definition keepAlive :: "int \<Rightarrow> stream res list \<Rightarrow> ClientSession \<Rightarrow> (stream list \<times> ClientSession) option" where
  "keepAlive interval ticks sess = (if interval \<le> 0 then None else Some (keepAlive_ticks ticks sess))"

section \<open>The reconnection loop\<close>

definition setClientSession :: "ClientSession option \<Rightarrow> ClientSession option \<Rightarrow> ClientSession option" where
  "setClientSession s cur = s"

definition getClientSession :: "ClientSession option \<Rightarrow> ClientSession option" where
  "getClientSession cur = cur"

text \<open>
  A round of \<^verbatim>\<open>connectLoop\<close>: it sleeps some seconds and starts over, or it has a session to wait
  for; \<open>connected\<close>, \<open>muxed\<close> and \<open>hs\<close> are the results of \<^verbatim>\<open>dialWS\<close>, \<^verbatim>\<open>smux.Client\<close> and \<^verbatim>\<open>doHandshake\<close>.
\<close>

datatype round = SleepFor nat | WaitDone

definition connect_round ::
  "ClientConfig \<Rightarrow> bool \<Rightarrow> bool \<Rightarrow> bool \<Rightarrow> go_error option \<Rightarrow> ClientSession option
     \<Rightarrow> round \<times> ClientSession option"
where
  "connect_round conf pool_ready connected muxed hs cur =
    (if (case getClientSession cur of None \<Rightarrow> False | Some s \<Rightarrow> GetID s = UUID conf) then (SleepFor 5, cur)
     else if \<not> pool_ready then (SleepFor 1, cur)
     else if \<not> connected then (SleepFor 5, cur)
     else if \<not> muxed then (SleepFor 5, cur)
     else if hs \<noteq> None then (SleepFor 5, cur)
     else (WaitDone, setClientSession (Some (NewClientSession (UUID conf))) cur))"

text \<open>When the session is done: no session, and a pause of three seconds.\<close>

definition session_over :: "ClientSession option \<Rightarrow> round \<times> ClientSession option" where
  "session_over cur = (SleepFor 3, setClientSession None cur)"

section \<open>Properties\<close>

text \<open>
  Without a loaded ECH list the client connects without ECH. With fallback switched off, a
  \<^verbatim>\<open>wss\<close> connection carries an ECH list exactly when one has been published; when initialisation has
  failed, as \<^verbatim>\<open>main\<close> only logs, the connection is made all the same, with the server's name in the
  TLS configuration and no ECH.
\<close>

theorem ech_fails_open:
  assumes "parse addr = Inr u" "lower (u_scheme u) = ''wss''" "\<not> Fallback conf" "\<not> echFallback ech"
  shows "\<exists>p t. dialWS parse ech conf addr cid n = Inr p \<and> d_tls p = Some t \<and> tls_name t = u_hostname u
    \<and> tls_ech t = (if echList ech = [] then None else Some (echList ech))"
  using assms by (auto simp: dialWS_def Let_def GetECHList_def)

theorem ech_fails_open_witness:
  "\<exists>p t. dialWS (\<lambda>_. Inr \<lparr>u_scheme = ''wss'', u_hostname = ''h'', u_text = (\<lambda>s q. s)\<rparr>) ech_zero
      (zero_client\<lparr>Token := ''t''\<rparr>) ''wss://h/ws'' ''c'' 1 = Inr p \<and> d_tls p = Some t \<and> tls_ech t = None"
proof -
  have l: "lower ''wss'' = ''wss''" by (simp add: lower_def ord_of_def)
  show ?thesis
    using ech_fails_open [of "\<lambda>_. Inr \<lparr>u_scheme = ''wss'', u_hostname = ''h'', u_text = (\<lambda>s q. s)\<rparr>" "''wss://h/ws''"
      "\<lparr>u_scheme = ''wss'', u_hostname = ''h'', u_text = (\<lambda>s q. s)\<rparr>" "zero_client\<lparr>Token := ''t''\<rparr>" ech_zero "''c''" 1] l
    by (auto simp: ech_zero_def zero_client_def)
qed

text \<open>
  The keep-alive is answered. What a tick writes is the open header of a ping without a target
  and eight bytes, and the relay on the other side returns exactly these eight bytes and closes.
\<close>

theorem keepAlive_echoed:
  assumes "keepAlive_tick (Inr c) sess = (goes_on, Some c', sess')" "s_wr c = []" "s_out c = []"
    "s_in s = s_out c'" "s_wr s = []"
  shows "s_out (HandleSmuxStream tcp udp s) = s_out s @ replicate 8 0
    \<and> s_closed (HandleSmuxStream tcp udp s) \<and> goes_on \<and> sess' = sess"
proof -
  from assms have inp: "s_in s = header_enc (StreamKindPing, 0, []) @ replicate 8 0"
    by (auto simp: keepAlive_tick_def Let_def Write_ok Close_def header_enc_def put_u16_def)
  from opn.rd_enc [of "(StreamKindPing, 0, [])" s, OF _ inp] obtain s1 where
    s1: "ReadSmuxOpenHeader s = (Inr (StreamKindPing, 0, []), s1)" "s_in s1 = replicate 8 0" by auto
  moreover have "s_out s1 = s_out s" "s_wr s1 = s_wr s"
    using s1(1) by (auto simp: ReadSmuxOpenHeader_def ReadFull_def ReadFull_into_def Let_def split: if_splits)
  ultimately show ?thesis
    using assms(1,5) by (auto simp: HandleSmuxStream_def ReadFull_ok Write_ok Close_def keepAlive_tick_def Let_def)
qed

theorem keepAlive_echoed_witness:
  "s_out (HandleSmuxStream (\<lambda>_ _ s. s) (\<lambda>_ _ s. s) (fresh_stream [1, 0, 0, 0, 0, 0, 0, 0, 0, 0, 0, 0])) = replicate 8 0"
proof -
  let ?c = "Close (snd (Write (replicate 8 0) (snd (Write [StreamKindPing, 0, 0, 0] (fresh_stream [])))))"
  have k: "keepAlive_tick (Inr (fresh_stream [])) (NewClientSession []) = (True, Some ?c, NewClientSession [])"
    by (simp add: keepAlive_tick_def Let_def)
  have "s_in (fresh_stream [1, 0, 0, 0, 0, 0, 0, 0, 0, 0, 0, 0]) = s_out ?c"
    by (simp add: Write_ok Close_def numeral_eq_Suc)
  from keepAlive_echoed [OF k _ _ this] show ?thesis by simp
qed

end
