(* ===== verification/Pool.thy ===== *)
theory Pool
  imports Relay Config
begin

text \<open>
  The client's pool of channels, \<^verbatim>\<open>ECHPool\<close> of \<^verbatim>\<open>cmd/client/main.go\<close>: its slots, the probing of
  round-trip times, the choice of a channel and the opening of streams.

  A multiplexer session is whether it is closed and what its next \<^verbatim>\<open>OpenStream\<close> returns. Several
  goroutines share the pool; each of the steps below holds its lock or is a single atomic access.
  \<^verbatim>\<open>openBestStream\<close> takes the lock twice: the sessions it finds the second time are an argument.
\<close>

section \<open>The pool\<close>

record smux_session =
  sx_closed :: bool
  sx_open :: "stream res"

record ECHPool =
  wsServerAddr :: string
  connectionNum :: int
  targetIPs :: "string list"
  clientID :: string
  smuxConns :: "smux_session option list"
  channelRTT :: "int list"
  selectCounter :: "64 word"

text \<open>\<^verbatim>\<open>startPool\<close>; \<^verbatim>\<open>make\<close> panics on a negative length.\<close>

definition startPool :: "ClientConfig \<Rightarrow> ECHPool option" where
  "startPool conf = (if Concur conf < 0 then None
     else Some \<lparr>wsServerAddr = ServerAddr conf, connectionNum = Concur conf,
       targetIPs = [], clientID = UUID conf,
       smuxConns = replicate (nat (Concur conf)) None, channelRTT = replicate (nat (Concur conf)) 0,
       selectCounter = 0\<rparr>)"

text \<open>The two locked sections of \<^verbatim>\<open>dialAndServe\<close> and the store of a measured time.\<close>

definition channel_ready :: "nat \<Rightarrow> smux_session \<Rightarrow> ECHPool \<Rightarrow> ECHPool" where
  "channel_ready i sx p = p\<lparr>smuxConns := (smuxConns p)[i := Some sx], channelRTT := (channelRTT p)[i := 0]\<rparr>"

definition channel_gone :: "nat \<Rightarrow> ECHPool \<Rightarrow> ECHPool" where
  "channel_gone i p = p\<lparr>smuxConns := (smuxConns p)[i := None], channelRTT := (channelRTT p)[i := 0]\<rparr>"

definition store_rtt :: "nat \<Rightarrow> int \<Rightarrow> ECHPool \<Rightarrow> ECHPool" where
  "store_rtt i rtt p = p\<lparr>channelRTT := (channelRTT p)[i := rtt]\<rparr>"

text \<open>
  A round of \<^verbatim>\<open>probeChannelRTT\<close> with the result of the probe: whether the loop goes on, and the
  pool. A failed probe counts as the dial time-out, and ends the loop when the session is closed.
\<close>

definition probe_round :: "int \<Rightarrow> nat \<Rightarrow> bool \<Rightarrow> int res \<Rightarrow> ECHPool \<Rightarrow> bool \<times> ECHPool" where
  "probe_round timeout i closed probe p = (case probe of
     Inl e \<Rightarrow> (\<not> closed, store_rtt i timeout p)
   | Inr rtt \<Rightarrow> (True, store_rtt i rtt p))"

text \<open>
  \<^verbatim>\<open>probeChannelRTTOnce\<close>: on the stream opened, with the start time's bytes as payload and the time
  that has passed at the end.
\<close>

definition probeChannelRTTOnce :: "int \<Rightarrow> stream res \<Rightarrow> bytes \<Rightarrow> int \<Rightarrow> int res \<times> stream option" where
  "probeChannelRTTOnce timeout opened payload passed = (case opened of
     Inl e \<Rightarrow> (Inl e, None)
   | Inr s \<Rightarrow>
       (case writeSmuxOpenHeader StreamKindPing 0 [] (SetDeadline timeout s) of
          (Inl e, s1) \<Rightarrow> (Inl e, Some (Close s1))
        | (Inr _, s1) \<Rightarrow>
            (case Write payload s1 of
               (Inl e, s2) \<Rightarrow> (Inl e, Some (Close s2))
             | (Inr _, s2) \<Rightarrow>
                 (case ReadFull 8 s2 of
                    (Inl e, s3) \<Rightarrow> (Inl e, Some (Close s3))
                  | (Inr ack, s3) \<Rightarrow>
                      (if ack \<noteq> payload then (Inl (Errorf ''ping ack mismatch''), Some (Close s3))
                       else (Inr passed, Some (Close s3)))))))"

text \<open>
  The loop of \<^verbatim>\<open>probeChannelRTT\<close> over its rounds: whether the session is closed by then, and the probe's result.
  \<^verbatim>\<open>time.NewTicker\<close> panics on an interval that is not positive.
\<close>

fun probe_rounds :: "int \<Rightarrow> nat \<Rightarrow> (bool \<times> int res) list \<Rightarrow> ECHPool \<Rightarrow> bool \<times> ECHPool" where
  "probe_rounds timeout i [] p = (True, p)"
| "probe_rounds timeout i ((closed, probe) # rounds) p = (case probe_round timeout i closed probe p of
     (False, p1) \<Rightarrow> (False, p1)
   | (True, p1) \<Rightarrow> probe_rounds timeout i rounds p1)"

definition probeChannelRTT ::
  "int \<Rightarrow> int \<Rightarrow> nat \<Rightarrow> (bool \<times> int res) list \<Rightarrow> ECHPool \<Rightarrow> (bool \<times> ECHPool) option"
where
  "probeChannelRTT interval timeout i rounds p =
    (if interval \<le> 0 then None else Some (probe_rounds timeout i rounds p))"

text \<open>
  A round of \<^verbatim>\<open>dialAndServe\<close>, between two pauses: nothing when the dial or the multiplexer fails;
  otherwise the channel is ready, probed once, probed in rounds until the loop or the connection
  ends, and gone (\<^verbatim>\<open>None\<close>: the ticker's panic). The other goroutines run between these steps.
\<close>

definition dialAndServe_up :: "nat \<Rightarrow> smux_session \<Rightarrow> int res \<Rightarrow> ECHPool \<Rightarrow> ECHPool" where
  "dialAndServe_up i sx first p = (let p1 = channel_ready i sx p in
     case first of Inl e \<Rightarrow> p1 | Inr rtt \<Rightarrow> store_rtt i rtt p1)"

definition dialAndServe_round ::
  "int \<Rightarrow> int \<Rightarrow> nat \<Rightarrow> bool \<Rightarrow> smux_session res \<Rightarrow> int res \<Rightarrow> (bool \<times> int res) list \<Rightarrow> ECHPool \<Rightarrow> ECHPool option"
where
  "dialAndServe_round interval timeout i connected muxed first rounds p =
    (if \<not> connected then Some p
     else case muxed of
       Inl e \<Rightarrow> Some p
     | Inr sx \<Rightarrow> (case probeChannelRTT interval timeout i rounds (dialAndServe_up i sx first p) of
         None \<Rightarrow> None
       | Some (_, p1) \<Rightarrow> Some (channel_gone i p1)))"

section \<open>Choosing a channel\<close>

text \<open>The candidates: index and round-trip time of every open channel; a time not measured counts as the time-out.\<close>

fun candidates :: "int \<Rightarrow> nat \<Rightarrow> smux_session option list \<Rightarrow> int list \<Rightarrow> (nat \<times> int) list" where
  "candidates timeout i (sx # sxs) (rtt # rtts) =
     (if (case sx of None \<Rightarrow> True | Some x \<Rightarrow> sx_closed x) then candidates timeout (Suc i) sxs rtts
      else (i, if rtt \<le> 0 then timeout else rtt) # candidates timeout (Suc i) sxs rtts)"
| "candidates timeout i _ _ = []"

fun min_rtt :: "int \<Rightarrow> (nat \<times> int) list \<Rightarrow> int" where
  "min_rtt m [] = m"
| "min_rtt m (c # cs) = min_rtt (if snd c < m then snd c else m) cs"

text \<open>10 ms in nanoseconds.\<close>

definition tieWindow :: int where
  "tieWindow = 10 * 10 ^ 6"

definition near_channels :: "(nat \<times> int) list \<Rightarrow> (nat \<times> int) list" where
  "near_channels cs = (case cs of
     [] \<Rightarrow> []
   | c # rest \<Rightarrow> List.filter (\<lambda>d. snd d \<le> wrap64 (min_rtt (snd c) rest + tieWindow)) cs)"

text \<open>Go's \<^verbatim>\<open>%\<close> has the sign of the dividend; \<^verbatim>\<open>int(counter)\<close> reads the 64 bits as signed.\<close>

definition go_rem :: "int \<Rightarrow> int \<Rightarrow> int" where
  "go_rem a b = (if a < 0 then - ((- a) mod b) else a mod b)"

text \<open>The end of \<^verbatim>\<open>openBestStream\<close>, on the candidate picked; \<open>slots\<close> are the sessions at the second look.\<close>

definition open_selected ::
  "smux_session option list \<Rightarrow> nat \<times> int \<Rightarrow> ECHPool \<Rightarrow> (stream \<times> nat) res \<times> ECHPool"
where
  "open_selected slots best p = (case slots ! fst best of
     None \<Rightarrow> (Inl (Errorf ''channel not available''), p)
   | Some sx \<Rightarrow>
       if sx_closed sx then (Inl (Errorf ''channel not available''), p)
       else (case sx_open sx of
          Inl e \<Rightarrow> (Inl e, p)
        | Inr s \<Rightarrow> (Inr (s, fst best + 1), p)))"

text \<open>
  \<^verbatim>\<open>openBestStream\<close>: the stream and the channel's number, or the error; \<^verbatim>\<open>None\<close> is the panic of an
  index out of range.
\<close>

definition openBestStream ::
  "int \<Rightarrow> smux_session option list \<Rightarrow> ECHPool \<Rightarrow> ((stream \<times> nat) res \<times> ECHPool) option"
where
  "openBestStream timeout slots p =
    (let cands = candidates timeout 0 (smuxConns p) (channelRTT p)
     in if length cands = 0 then Some (Inl (Errorf ''no channel available''), p)
        else let near = near_channels cands;
                 p1 = p\<lparr>selectCounter := selectCounter p + 1\<rparr>;
                 pick = go_rem (sint (selectCounter p1 - 1)) (int (length near))
             in if pick < 0 \<or> int (length near) \<le> pick then None
                else Some (open_selected slots (near ! nat pick) p1))"

text \<open>
  \<^verbatim>\<open>openTCPStream\<close> and \<^verbatim>\<open>openUDPStream\<close> differ in the kind alone; when the header cannot be written
  the stream is closed, and it is the second result.
\<close>

definition open_kind ::
  "byte \<Rightarrow> byte \<Rightarrow> int \<Rightarrow> smux_session option list \<Rightarrow> string \<Rightarrow> ECHPool
     \<Rightarrow> ((stream \<times> nat) res \<times> stream option \<times> ECHPool) option"
where
  "open_kind kind strategy timeout slots target p = (case openBestStream timeout slots p of
     None \<Rightarrow> None
   | Some (Inl e, p1) \<Rightarrow> Some (Inl e, None, p1)
   | Some (Inr (s, ch), p1) \<Rightarrow>
       (case writeSmuxOpenHeader kind strategy target s of
          (Inl e, s1) \<Rightarrow> Some (Inl e, Some (Close s1), p1)
        | (Inr _, s1) \<Rightarrow> Some (Inr (s1, ch), None, p1)))"

definition openTCPStream ::
  "byte \<Rightarrow> int \<Rightarrow> smux_session option list \<Rightarrow> string \<Rightarrow> ECHPool
     \<Rightarrow> ((stream \<times> nat) res \<times> stream option \<times> ECHPool) option"
where
  "openTCPStream strategy = open_kind StreamKindTCP strategy"

definition openUDPStream ::
  "byte \<Rightarrow> int \<Rightarrow> smux_session option list \<Rightarrow> string \<Rightarrow> ECHPool
     \<Rightarrow> ((stream \<times> nat) res \<times> stream option \<times> ECHPool) option"
where
  "openUDPStream strategy = open_kind StreamKindUDP strategy"

section \<open>Facts\<close>

text \<open>Which channels are open, with the time that counts.\<close>

definition open_channel :: "ECHPool \<Rightarrow> nat \<Rightarrow> bool" where
  "open_channel p i \<longleftrightarrow> i < length (smuxConns p) \<and>
     (case smuxConns p ! i of None \<Rightarrow> False | Some sx \<Rightarrow> \<not> sx_closed sx)"

definition counted_rtt :: "int \<Rightarrow> ECHPool \<Rightarrow> nat \<Rightarrow> int" where
  "counted_rtt timeout p i = (if channelRTT p ! i \<le> 0 then timeout else channelRTT p ! i)"

definition pool_inv :: "ECHPool \<Rightarrow> bool" where
  "pool_inv p \<longleftrightarrow> length (channelRTT p) = length (smuxConns p)"

lemma pool_inv_steps:
  "startPool conf = Some q \<Longrightarrow> pool_inv q"
  "pool_inv p \<Longrightarrow> pool_inv (channel_ready i sx p)"
  "pool_inv p \<Longrightarrow> pool_inv (channel_gone i p)"
  "pool_inv p \<Longrightarrow> pool_inv (store_rtt i rtt p)"
  "pool_inv p \<Longrightarrow> pool_inv (snd (probe_round timeout i closed probe p))"
  by (auto simp: pool_inv_def startPool_def channel_ready_def channel_gone_def store_rtt_def probe_round_def
      split: if_splits sum.split)

lemma pool_inv_probing: "pool_inv p \<Longrightarrow> pool_inv (snd (probe_rounds timeout i rounds p))"
proof (induction timeout i rounds p rule: probe_rounds.induct)
  case (2 timeout i closed probe rounds p)
  obtain go_on p1 where r: "probe_round timeout i closed probe p = (go_on, p1)" by fastforce
  have "pool_inv p1" using pool_inv_steps(5) [OF 2(2), of timeout i closed probe] r by simp
  with 2(1) [OF r [symmetric]] r show ?case by (cases go_on) auto
qed simp

lemma pool_inv_round:
  assumes "dialAndServe_round interval timeout i connected muxed first rounds p = Some q" "pool_inv p"
  shows "pool_inv q"
proof -
  have up: "pool_inv (dialAndServe_up i sx first p)" for sx
    using assms(2) by (simp add: dialAndServe_up_def Let_def pool_inv_steps split: sum.split)
  have "pool_inv (channel_gone i (snd (probe_rounds timeout i rounds (dialAndServe_up i sx first p))))" for sx
    by (intro pool_inv_steps pool_inv_probing up)
  with assms show ?thesis
    by (auto simp: dialAndServe_round_def probeChannelRTT_def split_beta split: if_splits sum.splits)
qed

lemma candidates_set:
  "length rtts = length sxs \<Longrightarrow> (j, r) \<in> set (candidates timeout i sxs rtts) \<longleftrightarrow>
     (\<exists>k < length sxs. j = i + k \<and> (case sxs ! k of None \<Rightarrow> False | Some x \<Rightarrow> \<not> sx_closed x)
        \<and> r = (if rtts ! k \<le> 0 then timeout else rtts ! k))"
proof (induction timeout i sxs rtts rule: candidates.induct)
  case (1 timeout i sx sxs rtt rtts)
  have ex: "(\<exists>k < Suc n. P k) \<longleftrightarrow> P 0 \<or> (\<exists>k < n. P (Suc k))" for P :: "nat \<Rightarrow> bool" and n
    using less_Suc_eq_0_disj by auto
  from 1 show ?case by (auto simp: ex split: option.splits)
qed auto

lemma candidates_pool:
  assumes "pool_inv p"
  shows "(j, r) \<in> set (candidates timeout 0 (smuxConns p) (channelRTT p)) \<longleftrightarrow>
     open_channel p j \<and> r = counted_rtt timeout p j"
  using assms by (auto simp: candidates_set pool_inv_def open_channel_def counted_rtt_def)

lemma candidates_index: "j \<in> fst ` set (candidates timeout i sxs rtts) \<Longrightarrow> i \<le> j"
  by (induction timeout i sxs rtts rule: candidates.induct) (force split: if_splits)+

lemma candidates_distinct: "distinct (List.map fst (candidates timeout i sxs rtts))"
proof (induction timeout i sxs rtts rule: candidates.induct)
  case (1 timeout i sx sxs rtt rtts)
  have "i \<notin> fst ` set (candidates timeout (Suc i) sxs rtts)"
    using candidates_index [of i timeout "Suc i" sxs rtts] by auto
  with 1 show ?case by auto
qed auto

lemma min_rtt_le: "min_rtt m cs \<le> m \<and> (\<forall>c \<in> set cs. min_rtt m cs \<le> snd c)
    \<and> (min_rtt m cs = m \<or> min_rtt m cs \<in> snd ` set cs)"
proof (induction m cs rule: min_rtt.induct)
  case (2 m c cs)
  then show ?case by (cases "snd c < m") force+
qed simp

text \<open>No sum with the tie window leaves the 64 bits.\<close>

definition rtts_ok :: "int \<Rightarrow> ECHPool \<Rightarrow> bool" where
  "rtts_ok timeout p \<longleftrightarrow> 0 < timeout \<and> timeout + tieWindow < 2 ^ 63
     \<and> (\<forall>r \<in> set (channelRTT p). r + tieWindow < 2 ^ 63)"

lemma near_channels_filter: "\<exists>P. near_channels cs = List.filter P cs"
  unfolding near_channels_def by (cases cs) (auto simp only: list.case filter.simps)

lemma near_channels_iff:
  assumes "\<forall>c \<in> set cs. 0 < snd c \<and> snd c + tieWindow < 2 ^ 63"
  shows "d \<in> set (near_channels cs) \<longleftrightarrow> d \<in> set cs \<and> (\<forall>c \<in> set cs. snd d \<le> snd c + tieWindow)"
proof (cases cs)
  case (Cons c rest)
  let ?m = "min_rtt (snd c) rest"
  have le: "\<forall>e \<in> set cs. ?m \<le> snd e" and mem: "?m \<in> snd ` set cs"
    using min_rtt_le [of "snd c" rest] Cons by auto
  then have "0 < ?m" "?m + tieWindow < 2 ^ 63" using assms by auto
  then have "wrap64 (?m + tieWindow) = ?m + tieWindow" by (intro wrap64_id) (auto simp: tieWindow_def)
  then show ?thesis using Cons le mem by (auto simp: near_channels_def)
qed (simp add: near_channels_def)

lemma near_channels_ne: "\<forall>c \<in> set cs. 0 < snd c \<and> snd c + tieWindow < 2 ^ 63
    \<Longrightarrow> c \<in> set cs \<Longrightarrow> near_channels cs \<noteq> []"
proof -
  assume c: "c \<in> set cs" and ok: "\<forall>c \<in> set cs. 0 < snd c \<and> snd c + tieWindow < 2 ^ 63"
  then obtain b rest where cs: "cs = b # rest" by (cases cs) auto
  from min_rtt_le [of "snd b" rest] cs obtain d where "d \<in> set cs" "\<forall>e \<in> set cs. snd d \<le> snd e"
    by (metis (no_types, lifting) image_iff list.set_intros(1) set_ConsD list.set_intros(2))
  then have "d \<in> set (near_channels cs)"
    unfolding near_channels_iff [OF ok] by (auto simp: tieWindow_def intro: order_trans)
  then show ?thesis by auto
qed

lemma candidates_ok:
  assumes "pool_inv p" "rtts_ok timeout p" "c \<in> set (candidates timeout 0 (smuxConns p) (channelRTT p))"
  shows "0 < snd c \<and> snd c + tieWindow < 2 ^ 63"
proof -
  obtain j r where "c = (j, r)" by (cases c)
  with assms show ?thesis
    by (auto simp: candidates_pool rtts_ok_def counted_rtt_def open_channel_def pool_inv_def)
qed

text \<open>The channels within the tie window of the fastest.\<close>

definition near_of :: "int \<Rightarrow> ECHPool \<Rightarrow> (nat \<times> int) list" where
  "near_of timeout p = near_channels (candidates timeout 0 (smuxConns p) (channelRTT p))"

definition fast_channel :: "int \<Rightarrow> ECHPool \<Rightarrow> nat \<Rightarrow> bool" where
  "fast_channel timeout p j \<longleftrightarrow> open_channel p j
     \<and> (\<forall>k. open_channel p k \<longrightarrow> counted_rtt timeout p j \<le> counted_rtt timeout p k + tieWindow)"

lemma near_of_iff:
  assumes "pool_inv p" "rtts_ok timeout p"
  shows "(j, r) \<in> set (near_of timeout p) \<longleftrightarrow> fast_channel timeout p j \<and> r = counted_rtt timeout p j"
proof -
  have "\<forall>c \<in> set (candidates timeout 0 (smuxConns p) (channelRTT p)). 0 < snd c \<and> snd c + tieWindow < 2 ^ 63"
    using candidates_ok [OF assms] by blast
  note near = near_channels_iff [OF this, of "(j, r)"]
  have all: "(\<forall>c \<in> set (candidates timeout 0 (smuxConns p) (channelRTT p)). r \<le> snd c + tieWindow)
      \<longleftrightarrow> (\<forall>k. open_channel p k \<longrightarrow> r \<le> counted_rtt timeout p k + tieWindow)"
    using candidates_pool [OF assms(1), of _ _ timeout] by (metis prod.collapse snd_conv)
  show ?thesis
    unfolding near_of_def near fst_conv snd_conv all fast_channel_def candidates_pool [OF assms(1)] by auto
qed

lemma near_of_ne:
  assumes "pool_inv p" "rtts_ok timeout p" "open_channel p j"
  shows "near_of timeout p \<noteq> []" "candidates timeout 0 (smuxConns p) (channelRTT p) \<noteq> []"
proof -
  have m: "(j, counted_rtt timeout p j) \<in> set (candidates timeout 0 (smuxConns p) (channelRTT p))"
    using assms by (simp add: candidates_pool)
  from near_channels_ne [OF _ this] candidates_ok [OF assms(1,2)]
  show "near_of timeout p \<noteq> []" by (auto simp: near_of_def)
  from m show "candidates timeout 0 (smuxConns p) (channelRTT p) \<noteq> []" by auto
qed

lemma near_of_length: "length (near_of timeout p) \<le> length (smuxConns p)"
proof -
  have "length (candidates timeout i sxs rtts) \<le> length sxs" for i sxs rtts
    by (induction timeout i sxs rtts rule: candidates.induct) (auto simp: le_SucI)
  moreover have "length (near_channels cs) \<le> length cs" for cs
    using near_channels_filter [of cs] length_filter_le by auto
  ultimately show ?thesis unfolding near_of_def using order_trans by blast
qed

text \<open>What a selection does once the list of near channels is known.\<close>

lemma openBestStream_pick:
  assumes "pool_inv p" "rtts_ok timeout p" "open_channel p k" "0 \<le> sint (selectCounter p)"
  shows "\<exists>c \<in> set (near_of timeout p).
      c = near_of timeout p ! (nat (sint (selectCounter p)) mod length (near_of timeout p))
    \<and> openBestStream timeout slots p = Some (open_selected slots c (p\<lparr>selectCounter := selectCounter p + 1\<rparr>))"
proof -
  let ?n = "near_of timeout p" and ?c = "sint (selectCounter p)"
  have ne: "?n \<noteq> []" "candidates timeout 0 (smuxConns p) (channelRTT p) \<noteq> []"
    using near_of_ne assms(1-3) by auto
  have pick: "go_rem ?c (int (length ?n)) = int (nat ?c mod length ?n)"
    using assms(4) by (simp add: go_rem_def zmod_int)
  have less: "nat ?c mod length ?n < length ?n" using ne by simp
  then have in_range: "\<not> length ?n \<le> nat ?c mod length ?n" by linarith
  have "openBestStream timeout slots p =
      Some (open_selected slots (?n ! (nat ?c mod length ?n)) (p\<lparr>selectCounter := selectCounter p + 1\<rparr>))"
    unfolding openBestStream_def near_of_def [symmetric]
    using ne by (simp add: Let_def pick in_range near_of_def [symmetric] del: of_nat_mod)
  with less show ?thesis by (intro bexI [of _ "?n ! (nat ?c mod length ?n)"]) auto
qed

section \<open>The contract of an opener\<close>

text \<open>
  What the proxies rely on: when a channel gives a stream, opening writes the open header for the
  target on it and hands it over with the channel's number, or fails for a target that is too long.
  What follows for the other end is proved here once.
\<close>

locale stream_opener =
  fixes best :: "'p \<Rightarrow> ((stream \<times> nat) res \<times> 'p) option"
    and open_stream :: "string \<Rightarrow> 'p \<Rightarrow> ((stream \<times> nat) res \<times> stream option \<times> 'p) option"
    and kind :: byte and strategy :: byte
  assumes opens: "best p = Some (Inr (s, ch), p1) \<Longrightarrow> s_wr s = [] \<Longrightarrow> length t \<le> 65535 \<Longrightarrow>
      \<exists>s'. open_stream t p = Some (Inr (s', ch), None, p1)
        \<and> s_out s' = s_out s @ header_enc (kind, strategy, t) \<and> s_wr s' = []"
    and too_long: "best p = Some (Inr (s, ch), p1) \<Longrightarrow> 65535 < length t \<Longrightarrow>
      \<exists>e s'. open_stream t p = Some (Inl e, Some s', p1) \<and> s_closed s'"
begin

lemma relay_reads:
  assumes "s_in r = header_enc (kind, strategy, t) @ more_bytes" "length t \<le> 65535"
  obtains r' where "ReadSmuxOpenHeader r = (Inr (kind, strategy, t), r')" "s_in r' = more_bytes"
  using opn.rd_enc [of "(kind, strategy, t)" r more_bytes] assms by auto

text \<open>The relay's handlers get the target, the strategy and what follows the header.\<close>

lemma relay_dispatches:
  assumes "s_in r = header_enc (kind, strategy, t) @ more_bytes" "length t \<le> 65535" "kind = StreamKindTCP"
  shows "\<exists>r'. s_in r' = more_bytes \<and> HandleSmuxStream tcp udp r = Close (tcp t strategy r')"
proof -
  obtain r' where "ReadSmuxOpenHeader r = (Inr (kind, strategy, t), r')" "s_in r' = more_bytes"
    using assms(1,2) by (rule relay_reads)
  then show ?thesis using assms(3) by (auto simp: HandleSmuxStream_def)
qed

lemma opened_target:
  assumes "best p = Some (Inr (s, ch), p1)" "s_wr s = []" "s_out s = []" "open_stream t p = Some (Inr (s', ch'), x, p2)"
  shows "length t \<le> 65535 \<and> ch' = ch \<and> p2 = p1 \<and> s_out s' = header_enc (kind, strategy, t) \<and> s_wr s' = []"
proof -
  have len: "length t \<le> 65535" using too_long [OF assms(1), of t] assms(4) by (rule_tac ccontr) auto
  from opens [OF assms(1,2) len] assms(3,4) len show ?thesis by auto
qed

end

lemma open_kind_contract: "stream_opener (openBestStream timeout slots) (open_kind k st timeout slots) k st"
proof
  fix p s ch p1 t
  assume o: "openBestStream timeout slots p = Some (Inr (s, ch), p1)"
  show "\<exists>s'. open_kind k st timeout slots t p = Some (Inr (s', ch), None, p1)
      \<and> s_out s' = s_out s @ header_enc (k, st, t) \<and> s_wr s' = []" if "s_wr s = []" "length t \<le> 65535"
    using opn.wr_enc [of "(k, st, t)" s] o that by (auto simp: open_kind_def)
  show "\<exists>e s'. open_kind k st timeout slots t p = Some (Inl e, Some s', p1) \<and> s_closed s'" if "65535 < length t"
    using o that by (simp add: open_kind_def writeSmuxOpenHeader_def Close_def)
qed

interpretation tcp_open: stream_opener "openBestStream timeout slots" "openTCPStream st timeout slots" StreamKindTCP st
  for timeout slots st
  unfolding openTCPStream_def by (rule open_kind_contract)

interpretation udp_open: stream_opener "openBestStream timeout slots" "openUDPStream st timeout slots" StreamKindUDP st
  for timeout slots st
  unfolding openUDPStream_def by (rule open_kind_contract)

text \<open>A pool of one channel with a fresh stream, for the examples.\<close>

definition one_slot :: "smux_session option list" where
  "one_slot = [Some \<lparr>sx_closed = False, sx_open = Inr (fresh_stream [])\<rparr>]"

definition one_channel :: ECHPool where
  "one_channel = \<lparr>wsServerAddr = [], connectionNum = 1, targetIPs = [], clientID = [], smuxConns = one_slot,
     channelRTT = [0], selectCounter = 0\<rparr>"

lemma open_one_channel:
  "openBestStream 5 one_slot one_channel = Some (Inr (fresh_stream [], 1), one_channel\<lparr>selectCounter := 1\<rparr>)"
  by (simp add: openBestStream_def near_channels_def Let_def tieWindow_def wrap64_id go_rem_def open_selected_def
      one_channel_def one_slot_def)

section \<open>Properties\<close>

text \<open>
  A stream is opened on a fast channel. Whenever \<^verbatim>\<open>openBestStream\<close> returns a stream, whatever the
  sessions have become at its second look, the channel it names was open at the first, no open
  channel was more than 10 ms faster, and the stream is a new one of the open session found in its
  slot; the counter has advanced by one and nothing else of the pool has changed.
\<close>

theorem best_channel_fast:
  assumes "pool_inv p" "rtts_ok timeout p" "openBestStream timeout slots p = Some (Inr (s, ch), p1)"
  shows "1 \<le> ch \<and> fast_channel timeout p (ch - 1)
    \<and> (\<exists>sx. slots ! (ch - 1) = Some sx \<and> \<not> sx_closed sx \<and> sx_open sx = Inr s)
    \<and> p1 = p\<lparr>selectCounter := selectCounter p + 1\<rparr>"
proof -
  let ?n = "near_of timeout p" and ?p = "p\<lparr>selectCounter := selectCounter p + 1\<rparr>"
  from assms(3) obtain k where k: "k < length ?n" "open_selected slots (?n ! k) ?p = (Inr (s, ch), p1)"
    by (auto simp: openBestStream_def Let_def near_of_def [symmetric] split: if_splits
        intro: that [of "nat (go_rem (sint (selectCounter p)) (int (length ?n)))"])
  then have "?n ! k \<in> set ?n" by simp
  then have "fast_channel timeout p (fst (?n ! k))"
    using near_of_iff [OF assms(1,2), of "fst (?n ! k)" "snd (?n ! k)"] by simp
  with k(2) show ?thesis by (auto simp: open_selected_def split: option.splits if_splits sum.splits)
qed

theorem best_channel_fast_witness:
  "fast_channel 100 \<lparr>wsServerAddr = [], connectionNum = 2, targetIPs = [], clientID = [],
      smuxConns = [None, Some \<lparr>sx_closed = False, sx_open = Inr (fresh_stream [])\<rparr>],
      channelRTT = [0, 0], selectCounter = 5\<rparr> 1"
proof -
  let ?slots = "[None, Some \<lparr>sx_closed = False, sx_open = Inr (fresh_stream [])\<rparr>]"
  let ?p = "\<lparr>wsServerAddr = [], connectionNum = 2, targetIPs = [], clientID = [],
      smuxConns = ?slots, channelRTT = [0, 0], selectCounter = 5\<rparr>"
  have "openBestStream 100 ?slots ?p = Some (Inr (fresh_stream [], 2), ?p\<lparr>selectCounter := 6\<rparr>)"
    by (simp add: openBestStream_def near_channels_def Let_def tieWindow_def wrap64_id go_rem_def open_selected_def)
  from best_channel_fast [OF _ _ this] show ?thesis
    by (simp add: pool_inv_def rtts_ok_def tieWindow_def)
qed

text \<open>
  C25: the candidate list is the set of fast channels. The two loops of \<^verbatim>\<open>openBestStream\<close>, the running
  minimum and the filter by the tie window compute, each once, exactly the open channels that no
  open channel beats by more than 10 ms, with the time that counts for them.
\<close>

theorem near_channels_reference:
  assumes "pool_inv p" "rtts_ok timeout p"
  shows "set (near_channels (candidates timeout 0 (smuxConns p) (channelRTT p)))
      = {(j, r). fast_channel timeout p j \<and> r = counted_rtt timeout p j}
    \<and> distinct (List.map fst (near_channels (candidates timeout 0 (smuxConns p) (channelRTT p))))"
proof -
  have "distinct (List.map fst (near_channels cs))" if "distinct (List.map fst cs)" for cs
    using that near_channels_filter [of cs] by (auto simp: distinct_map_filter)
  moreover have "set (near_of timeout p) = {(j, r). fast_channel timeout p j \<and> r = counted_rtt timeout p j}"
    using near_of_iff [OF assms] by auto
  ultimately show ?thesis using candidates_distinct unfolding near_of_def by blast
qed

theorem near_channels_reference_witness:
  "fast_channel 100 \<lparr>wsServerAddr = [], connectionNum = 1, targetIPs = [], clientID = [],
      smuxConns = [Some \<lparr>sx_closed = False, sx_open = Inr (fresh_stream [])\<rparr>], channelRTT = [3], selectCounter = 0\<rparr> 0"
proof -
  let ?p = "\<lparr>wsServerAddr = [], connectionNum = 1, targetIPs = [], clientID = [],
      smuxConns = [Some \<lparr>sx_closed = False, sx_open = Inr (fresh_stream [])\<rparr>], channelRTT = [3], selectCounter = 0\<rparr>"
  have "near_channels (candidates 100 0 (smuxConns ?p) (channelRTT ?p)) = [(0, 3)]"
    by (simp add: near_channels_def tieWindow_def wrap64_id)
  moreover have "pool_inv ?p" "rtts_ok 100 ?p" by (simp_all add: pool_inv_def rtts_ok_def tieWindow_def)
  ultimately show ?thesis using near_channels_reference [of ?p 100] by auto
qed

text \<open>
  C24: the fast channels take turns. As long as the counter is below $2^{63}$, selection never
  panics, and every fast channel is chosen within as many consecutive selections as the pool has
  slots: for some number \<open>i\<close> of intervening selections, \<^verbatim>\<open>openBestStream\<close> opens its stream on it.
\<close>

theorem fast_channels_take_turns:
  assumes "pool_inv p" "rtts_ok timeout p" "fast_channel timeout p j"
    "0 \<le> sint (selectCounter p)" "sint (selectCounter p) + int (length (smuxConns p)) < 2 ^ 63"
    "smuxConns p ! j = Some sx" "sx_open sx = Inr s"
  shows "\<exists>i < length (smuxConns p). let q = p\<lparr>selectCounter := selectCounter p + of_nat i\<rparr>
    in openBestStream timeout (smuxConns p) q =
         Some (Inr (s, j + 1), q\<lparr>selectCounter := selectCounter q + 1\<rparr>)"
proof -
  let ?n = "near_of timeout p" and ?c = "nat (sint (selectCounter p))"
  have op: "open_channel p j" using assms(3) by (simp add: fast_channel_def)
  have "(j, counted_rtt timeout p j) \<in> set ?n" using assms(3) by (simp add: near_of_iff [OF assms(1,2)])
  then obtain k where k: "k < length ?n" "?n ! k = (j, counted_rtt timeout p j)"
    by (auto simp: in_set_conv_nth)
  define i where "i = (k + (length ?n - ?c mod length ?n)) mod length ?n"
  have i: "i < length ?n" unfolding i_def using k(1) by (intro mod_less_divisor) linarith
  have turn: "(?c + i) mod length ?n = k"
  proof -
    have "?c mod length ?n < length ?n" using k(1) by (intro mod_less_divisor) linarith
    then have "?c mod length ?n + (k + (length ?n - ?c mod length ?n)) = k + length ?n" by linarith
    then show ?thesis using k(1) unfolding i_def
      by (metis mod_add_left_eq mod_add_right_eq mod_add_self2 mod_less)
  qed
  have len: "i < length (smuxConns p)" using i near_of_length [of timeout p] by linarith
  let ?q = "p\<lparr>selectCounter := selectCounter p + of_nat i\<rparr>"
  have cnt: "sint (selectCounter p + of_nat i) = sint (selectCounter p) + int i"
  proof -
    have si: "sint (of_nat i :: 64 word) = int i"
      using assms(4,5) len by (simp add: signed_of_nat signed_take_bit_int_eq_self)
    have "sint (selectCounter p + of_nat i) = signed_take_bit 63 (sint (selectCounter p) + int i)"
      using si by (simp add: sint_word_ariths)
    then show ?thesis using assms(4,5) len by (simp add: signed_take_bit_int_eq_self)
  qed
  have same: "pool_inv ?q" "rtts_ok timeout ?q" "open_channel ?q j" "near_of timeout ?q = ?n"
    using assms(1,2) op by (auto simp: pool_inv_def rtts_ok_def open_channel_def near_of_def)
  from openBestStream_pick [OF same(1-3), of "smuxConns p"] cnt assms(4)
  have "openBestStream timeout (smuxConns p) ?q =
      Some (open_selected (smuxConns p) (?n ! k) (?q\<lparr>selectCounter := selectCounter ?q + 1\<rparr>))"
    by (auto simp: same(4) nat_add_distrib turn)
  moreover have "\<not> sx_closed sx" using op assms(6) by (simp add: open_channel_def)
  ultimately show ?thesis
    using k(2) assms(6,7) len by (auto simp: open_selected_def Let_def intro!: exI [of _ i])
qed

theorem fast_channels_take_turns_witness:
  "let slots = [Some \<lparr>sx_closed = False, sx_open = Inr (fresh_stream [])\<rparr>,
      Some \<lparr>sx_closed = False, sx_open = Inl EOF\<rparr>];
    p = \<lparr>wsServerAddr = [], connectionNum = 2, targetIPs = [], clientID = [], smuxConns = slots,
      channelRTT = [3, 4], selectCounter = 7\<rparr>
   in \<exists>i < 2. \<exists>q. openBestStream 100 slots (p\<lparr>selectCounter := 7 + of_nat i\<rparr>) = Some (Inr (fresh_stream [], 1), q)"
proof -
  let ?slots = "[Some \<lparr>sx_closed = False, sx_open = Inr (fresh_stream [])\<rparr>,
      Some \<lparr>sx_closed = False, sx_open = Inl EOF\<rparr>]"
  let ?p = "\<lparr>wsServerAddr = [], connectionNum = 2, targetIPs = [], clientID = [], smuxConns = ?slots,
      channelRTT = [3, 4], selectCounter = 7\<rparr>"
  have "pool_inv ?p" "rtts_ok 100 ?p" by (simp_all add: pool_inv_def rtts_ok_def tieWindow_def)
  moreover have "fast_channel 100 ?p 0"
    by (auto simp: fast_channel_def open_channel_def counted_rtt_def tieWindow_def less_Suc_eq)
  ultimately have "\<exists>i < Suc (Suc 0). openBestStream 100 ?slots (?p\<lparr>selectCounter := 7 + of_nat i\<rparr>) =
      Some (Inr (fresh_stream [], 1), ?p\<lparr>selectCounter := 8 + of_nat i\<rparr>)"
    using fast_channels_take_turns [of ?p 100 0 "\<lparr>sx_closed = False, sx_open = Inr (fresh_stream [])\<rparr>" "fresh_stream []"]
    by (auto simp: Let_def)
  then show ?thesis unfolding Let_def numeral_2_eq_2 by auto
qed

text \<open>
  Beyond $2^{63}$ selections the conversion to \<^verbatim>\<open>int\<close> is negative, and so is the remainder: the index
  is out of range and the program panics.
\<close>

theorem counter_sign_panic:
  "let sx = Some \<lparr>sx_closed = False, sx_open = Inr (fresh_stream [])\<rparr>
   in openBestStream 100 [sx, sx, sx] \<lparr>wsServerAddr = [], connectionNum = 3, targetIPs = [], clientID = [],
      smuxConns = [sx, sx, sx], channelRTT = [1, 1, 1], selectCounter = 2 ^ 63\<rparr> = None"
  by (simp add: openBestStream_def near_channels_def Let_def tieWindow_def wrap64_id go_rem_def)

text \<open>
  A probe measures a round trip. What \<^verbatim>\<open>probeChannelRTTOnce\<close> has written is the open header of a
  ping and its payload; when the relay at the other end has read exactly that and its answer is
  what the client reads, the probe returns the time passed, and both ends have closed the stream.
\<close>

theorem probe_round_trip:
  assumes "length payload = 8" "s_wr s = []" "s_out s = []" "s_wr r = []" "s_out r = []"
    "s_in r = header_enc (StreamKindPing, 0, []) @ payload"
    "s_in s = s_out (HandleSmuxStream tcp udp r)"
  shows "\<exists>s'. probeChannelRTTOnce timeout (Inr s) payload passed = (Inr passed, Some s')
    \<and> s_out s' = s_in r \<and> s_closed s' \<and> s_closed (HandleSmuxStream tcp udp r)"
proof -
  from opn.rd_enc [of "(StreamKindPing, 0, [])" r, OF _ assms(6)] obtain r1 where
    r1: "ReadSmuxOpenHeader r = (Inr (StreamKindPing, 0, []), r1)" "s_in r1 = payload" by auto
  moreover have "s_out r1 = []" "s_wr r1 = []"
    using r1(1) assms(4,5) by (auto simp: ReadSmuxOpenHeader_def ReadFull_def ReadFull_into_def Let_def split: if_splits)
  ultimately have relay: "s_out (HandleSmuxStream tcp udp r) = payload" "s_closed (HandleSmuxStream tcp udp r)"
    using assms(1) by (auto simp: HandleSmuxStream_def ReadFull_ok Write_ok Close_def)
  let ?s = "SetDeadline timeout s"
  have d: "s_wr ?s = []" "s_out ?s = []" "s_in ?s = payload"
    using assms(2,3,7) relay(1) by (simp_all add: deadline_defs)
  from opn.wr_enc [of "(StreamKindPing, 0, [])" ?s] d obtain s1 where
    s1: "writeSmuxOpenHeader StreamKindPing 0 [] ?s = (Inr (), s1)" "s_out s1 = header_enc (StreamKindPing, 0, [])"
      "s_wr s1 = []" by auto
  have "s_in s1 = payload"
    using s1(1) d by (auto simp: writeSmuxOpenHeader_def Write_ok)
  with s1 show ?thesis
    using assms(1,6) relay by (auto simp: probeChannelRTTOnce_def Write_ok ReadFull_ok Close_def)
qed

theorem probe_round_trip_witness:
  "\<exists>s'. probeChannelRTTOnce 5 (Inr (fresh_stream (replicate 8 7))) (replicate 8 7) 42 = (Inr 42, Some s')"
proof -
  let ?r = "fresh_stream (header_enc (StreamKindPing, 0, []) @ replicate 8 7)"
  have "s_in (fresh_stream (replicate 8 7)) = s_out (HandleSmuxStream (\<lambda>_ _ s. s) (\<lambda>_ _ s. s) ?r)"
    by (simp add: HandleSmuxStream_def ReadSmuxOpenHeader_def header_enc_def put_u16_def ReadFull_ok Write_ok
        Close_def get_u16_def)
  from probe_round_trip [OF _ _ _ _ _ _ this, of "replicate 8 7" 5 42] show ?thesis by auto
qed

end
