(* ===== verification/Startup.thy ===== *)
theory Startup
  imports Server Client Pool
begin

text \<open>
  The start of both programs, \<^verbatim>\<open>cmd/client/main.go\<close> and \<^verbatim>\<open>cmd/server/main.go\<close>, up to the point where
  their goroutines run: configuration, identity, ECH, pool. \<^verbatim>\<open>Failed\<close> is \<^verbatim>\<open>log.Fatalf\<close>. What
  follows is in \<^verbatim>\<open>Processes\<close>.
\<close>

datatype 'r startup = Failed go_error | Panics | Running 'r

text \<open>The client's identity, ECH state and pool; an ECH error is only logged.\<close>

definition client_startup ::
  "(byte \<Rightarrow> string) \<Rightarrow> (string \<Rightarrow> json res) \<Rightarrow> (string \<Rightarrow> bytes \<Rightarrow> bytes res)
     \<Rightarrow> (string \<Rightarrow> string \<Rightarrow> (nat \<times> bytes) res) \<Rightarrow> string \<Rightarrow> (uuid_state \<times> ech_state \<times> ECHPool) startup"
where
  "client_startup to_text open_json udp doh path =
    (case LoadClientConfig to_text open_json path \<lparr>ClientConf = None, ServerConf = None\<rparr> of
       (Some e, g) \<Rightarrow> Failed e
     | (None, g) \<Rightarrow> (case ClientConf g of
         None \<Rightarrow> Panics
       | Some conf \<Rightarrow> (case InitUUID (UUID conf) uuid_zero of
           (Some e, ids) \<Rightarrow> Failed e
         | (None, ids) \<Rightarrow> (case InitECH udp doh (DNSServer conf) (ECHDomain conf) (Fallback conf) ech_zero of
             None \<Rightarrow> Panics
           | Some (err, ech) \<Rightarrow> (case startPool conf of
               None \<Rightarrow> Panics
             | Some p \<Rightarrow> Running (ids, ech, p))))))"

text \<open>The server's configuration and identity; errors of the identities are only logged.\<close>

definition server_startup ::
  "(byte \<Rightarrow> string) \<Rightarrow> (string \<Rightarrow> json res) \<Rightarrow> string \<Rightarrow> (ServerConfig \<times> uuid_state) startup"
where
  "server_startup to_text open_json path =
    (case LoadServerConfig to_text open_json path \<lparr>ClientConf = None, ServerConf = None\<rparr> of
       (Some e, g) \<Rightarrow> Failed e
     | (None, g) \<Rightarrow> (case ServerConf g of
         None \<Rightarrow> Panics
       | Some conf \<Rightarrow> Running (conf, init_uuids (AuthUUIDs conf) uuid_zero)))"

text \<open>A client that runs has an identity of 16 bytes and an empty pool that satisfies its invariant.\<close>

lemma client_running:
  assumes "client_startup to_text open_json udp doh path = Running (ids, ech, p)"
  shows "pool_inv p \<and> (\<exists>u. GetUUIDBytes ids = Some u \<and> length u = 16) \<and> (\<forall>j. \<not> open_channel p j)"
proof -
  obtain conf where conf: "InitUUID (UUID conf) uuid_zero = (None, ids)" "startPool conf = Some p"
    using assms by (auto simp: client_startup_def split: prod.splits option.splits)
  then obtain u where "parse_uuid (UUID conf) = Inr u" "uuidBytes ids = Some u"
    by (auto simp: InitUUID_def uuid_zero_def split: sum.splits)
  moreover from this have "length u = 16" by (auto simp: parse_uuid_def Let_def split: if_splits option.splits)
  moreover have "\<not> open_channel p j" for j
    using conf(2) by (auto simp: startPool_def open_channel_def split: if_splits)
  ultimately show ?thesis using pool_inv_steps(1) [OF conf(2)] by (auto simp: GetUUIDBytes_def)
qed

section \<open>Property\<close>

text \<open>The names of the fields a document may use, looked up.\<close>

lemma client_field_lookup:
  "field_of client_fields ''uuid'' = Some (set_string (\<lambda>n c. c\<lparr>UUID := n\<rparr>))"
  "field_of client_fields ''concur'' = Some (set_int64 (\<lambda>n c. c\<lparr>Concur := n\<rparr>))"
  "field_of client_fields ''keep_alive_interval'' = Some (set_int64 (\<lambda>n c. c\<lparr>KeepAlive := n\<rparr>))"
  by (simp_all add: field_of_def client_fields_def common_fields_def)

lemma load_settings:
  assumes "open_json path = Inr (JObj [(''uuid'', JStr u), (''concur'', JInt n), (''keep_alive_interval'', JInt k)])"
    "- (2 ^ 63) \<le> n" "n < 2 ^ 63" "- (2 ^ 63) \<le> k" "k < 2 ^ 63"
  shows "\<exists>c. LoadClientConfig to_text open_json path g = (None, g\<lparr>ClientConf := Some c\<rparr>)
    \<and> UUID c = u \<and> Concur c = (if n = 0 then 2 else n) \<and> KeepAlive c = (if k = 0 then 30 * 10 ^ 9 else k)"
  using assms
  by (intro exI [of _ "setCommonDefaults (zero_client\<lparr>UUID := u, Concur := n, KeepAlive := k\<rparr>)
      \<lparr>IPStrategy := parseStrategy (to_text 0)\<rparr>"])
    (simp add: LoadClientConfig_def decode_json_def client_field_lookup set_string_def set_int64_def setCommonDefaults_def
      Let_def zero_client_def)

text \<open>
  Settings that crash the client are accepted. Only a zero is replaced by a default: a configuration with a
  negative number of channels or a negative keep-alive interval loads without an error. The first makes the start
  panic, whatever the identity; with the second the start succeeds, but the first channel that connects panics in
  \<^verbatim>\<open>time.NewTicker\<close> whatever its probes give, and so does the keep-alive of the first session.
\<close>

theorem negative_settings_crash:
  assumes "open_json path = Inr (JObj [(''uuid'', JStr u), (''concur'', JInt n), (''keep_alive_interval'', JInt k)])"
    "- (2 ^ 63) \<le> n" "n < 2 ^ 63" "- (2 ^ 63) \<le> k" "k < 2 ^ 63" "parse_uuid u = Inr b"
  shows "\<exists>c. LoadClientConfig to_text open_json path \<lparr>ClientConf = None, ServerConf = None\<rparr>
        = (None, \<lparr>ClientConf = Some c, ServerConf = None\<rparr>) \<and> Concur c = (if n = 0 then 2 else n)
    \<and> (n < 0 \<longrightarrow> client_startup to_text open_json udp doh path = Panics)
    \<and> (k < 0 \<longrightarrow> dialAndServe_round (KeepAlive c) (DialTimeout c) i True (Inr sx) first rounds p = None
         \<and> keepAlive (KeepAlive c) ticks sess = None)"
proof -
  let ?g = "\<lparr>ClientConf = None, ServerConf = None\<rparr>"
  from load_settings [of open_json path u n k to_text ?g, OF assms(1-5)] obtain c where
    c: "LoadClientConfig to_text open_json path ?g = (None, \<lparr>ClientConf = Some c, ServerConf = None\<rparr>)" "UUID c = u"
      "Concur c = (if n = 0 then 2 else n)" "KeepAlive c = (if k = 0 then 30 * 10 ^ 9 else k)" by auto
  have "InitUUID u uuid_zero = (None, uuid_zero\<lparr>uuidOnce := True, uuidBytes := Some b\<rparr>)"
    using assms(6) by (simp add: InitUUID_def uuid_zero_def)
  with c have "n < 0 \<longrightarrow> client_startup to_text open_json udp doh path = Panics"
    by (auto simp: client_startup_def startPool_def split: option.split)
  with c show ?thesis by (auto simp: dialAndServe_round_def probeChannelRTT_def keepAlive_def)
qed

theorem negative_settings_crash_witness:
  "client_startup (\<lambda>_. []) (\<lambda>_. Inr (JObj [(''uuid'', JStr (uuid_text (replicate 16 7))), (''concur'', JInt (- 1)),
      (''keep_alive_interval'', JInt (- 5))])) (\<lambda>_ _. Inl EOF) (\<lambda>_ _. Inl EOF) [] = Panics"
proof -
  let ?d = "\<lambda>_. Inr (JObj [(''uuid'', JStr (uuid_text (replicate 16 7))), (''concur'', JInt (- 1)),
      (''keep_alive_interval'', JInt (- 5))])"
  have "parse_uuid (uuid_text (replicate 16 7)) = Inr (replicate 16 7)" by (rule parse_uuid_text) simp
  from negative_settings_crash [of ?d "[]" _ "- 1" "- 5" _ "\<lambda>_. []" "\<lambda>_ _. Inl EOF" "\<lambda>_ _. Inl EOF" 0
      "\<lparr>sx_closed = False, sx_open = Inl EOF\<rparr>" "Inl EOF" "[]" one_channel "[]" "NewClientSession []", OF refl _ _ _ _ this] show ?thesis by auto
qed

end
