(* ===== verification/PoolRun.thy ===== *)
theory PoolRun
  imports Pool
begin

text \<open>
  The pool of channels with its goroutines interleaved, \<^verbatim>\<open>cmd/client/main.go\<close>: for every slot the goroutine of
  \<^verbatim>\<open>dialAndServe\<close> and the one of \<^verbatim>\<open>probeChannelRTT\<close> it starts, the death of connections, and any number of
  goroutines in \<^verbatim>\<open>openBestStream\<close>, which looks at the pool twice.

  Every step is a locked section or one atomic access. The channel \<^verbatim>\<open>done\<close> holds one value, so the probe's
  goroutine never waits to send: it is \<open>Exited\<close> until the other has received. The keep-alive interval is positive;
  otherwise \<^verbatim>\<open>probeChannelRTT\<close> panics at its start, as in \<^verbatim>\<open>Pool\<close>.
\<close>

datatype serve_pc = Dialling | FirstProbe | Waiting | WaitProbe | Leaving | Closing
datatype probe_pc = NoProbe | Opening | Acking | Judging | Ticking | Exited

record pool_sys =
  ps_pool :: ECHPool
  ps_serve :: "serve_pc list"
  ps_probe :: "probe_pc list"
  ps_picked :: "(nat \<times> int) list"

definition pool_start :: "ECHPool \<Rightarrow> pool_sys" where
  "pool_start p = \<lparr>ps_pool = p, ps_serve = replicate (length (smuxConns p)) Dialling,
     ps_probe = replicate (length (smuxConns p)) NoProbe, ps_picked = []\<rparr>"

text \<open>A multiplexer session is closed, by either end, or changes what its next stream will be.\<close>

definition close_session :: "nat \<Rightarrow> ECHPool \<Rightarrow> ECHPool" where
  "close_session i p = p\<lparr>smuxConns := (smuxConns p)[i := map_option (sx_closed_update (\<lambda>_. True)) (smuxConns p ! i)]\<rparr>"

definition change_session :: "nat \<Rightarrow> stream res \<Rightarrow> ECHPool \<Rightarrow> ECHPool" where
  "change_session i next_open p =
     p\<lparr>smuxConns := (smuxConns p)[i := map_option (sx_open_update (\<lambda>_. next_open)) (smuxConns p ! i)]\<rparr>"

definition session_closed :: "nat \<Rightarrow> ECHPool \<Rightarrow> bool" where
  "session_closed i p \<longleftrightarrow> (case smuxConns p ! i of None \<Rightarrow> True | Some sx \<Rightarrow> sx_closed sx)"

text \<open>A measured time is not negative and below $2^{62}$ ns, 146 years.\<close>

definition measurable :: "int \<Rightarrow> bool" where
  "measurable rtt \<longleftrightarrow> 0 \<le> rtt \<and> rtt < 2 ^ 62"

text \<open>The first look of \<^verbatim>\<open>openBestStream\<close>: the candidate picked, with the counter advanced.\<close>

definition first_look :: "int \<Rightarrow> ECHPool \<Rightarrow> ((nat \<times> int) res \<times> ECHPool) option" where
  "first_look timeout p =
    (let cands = candidates timeout 0 (smuxConns p) (channelRTT p)
     in if length cands = 0 then Some (Inl (Errorf ''no channel available''), p)
        else let near = near_channels cands;
                 p1 = p\<lparr>selectCounter := selectCounter p + 1\<rparr>;
                 pick = go_rem (sint (selectCounter p1 - 1)) (int (length near))
             in if pick < 0 \<or> int (length near) \<le> pick then None else Some (Inr (near ! nat pick), p1))"

lemma openBestStream_looks:
  "openBestStream timeout slots p = (case first_look timeout p of
     None \<Rightarrow> None
   | Some (Inl e, p1) \<Rightarrow> Some (Inl e, p1)
   | Some (Inr best, p1) \<Rightarrow> Some (open_selected slots best p1))"
  by (simp add: openBestStream_def first_look_def Let_def)

abbreviation serve_at :: "nat \<Rightarrow> serve_pc \<Rightarrow> pool_sys \<Rightarrow> pool_sys" where
  "serve_at i pc s \<equiv> s\<lparr>ps_serve := (ps_serve s)[i := pc]\<rparr>"

abbreviation probe_at :: "nat \<Rightarrow> probe_pc \<Rightarrow> pool_sys \<Rightarrow> pool_sys" where
  "probe_at i pc s \<equiv> s\<lparr>ps_probe := (ps_probe s)[i := pc]\<rparr>"

abbreviation with_pool :: "(ECHPool \<Rightarrow> ECHPool) \<Rightarrow> pool_sys \<Rightarrow> pool_sys" where
  "with_pool f s \<equiv> s\<lparr>ps_pool := f (ps_pool s)\<rparr>"

text \<open>
  A slot's own steps. \<open>sv_\<close> is \<^verbatim>\<open>dialAndServe\<close>: a dial fails; a channel is ready, probed once, and given a probe
  goroutine; the probe ends, or the connection dies and the session is closed and the probe awaited; the session is
  closed and the slot emptied. \<open>pr_\<close> is \<^verbatim>\<open>probeChannelRTT\<close>: a stream opens, which it does not on a closed session;
  the probe is answered or fails; after a failure the loop ends if the session is closed; the ticker fires.
\<close>

inductive slot_step :: "int \<Rightarrow> nat \<Rightarrow> pool_sys \<Rightarrow> pool_sys \<Rightarrow> bool" for timeout i where
  sv_dial_fails: "i < length (ps_serve s) \<Longrightarrow> ps_serve s ! i = Dialling \<Longrightarrow> slot_step timeout i s s"
| sv_ready: "i < length (ps_serve s) \<Longrightarrow> ps_serve s ! i = Dialling \<Longrightarrow> \<not> sx_closed sx \<Longrightarrow>
    slot_step timeout i s (serve_at i FirstProbe (with_pool (channel_ready i sx) s))"
| sv_first_ok: "i < length (ps_serve s) \<Longrightarrow> ps_serve s ! i = FirstProbe \<Longrightarrow> measurable rtt \<Longrightarrow>
    slot_step timeout i s (serve_at i Waiting (probe_at i Opening (with_pool (store_rtt i rtt) s)))"
| sv_first_fails: "i < length (ps_serve s) \<Longrightarrow> ps_serve s ! i = FirstProbe \<Longrightarrow>
    slot_step timeout i s (serve_at i Waiting (probe_at i Opening s))"
| sv_probe_over: "i < length (ps_serve s) \<Longrightarrow> ps_serve s ! i = Waiting \<or> ps_serve s ! i = WaitProbe \<Longrightarrow> ps_probe s ! i = Exited \<Longrightarrow>
    slot_step timeout i s (serve_at i Leaving (probe_at i NoProbe s))"
| sv_dead: "i < length (ps_serve s) \<Longrightarrow> ps_serve s ! i = Waiting \<Longrightarrow>
    slot_step timeout i s (serve_at i WaitProbe (with_pool (close_session i) s))"
| sv_close: "i < length (ps_serve s) \<Longrightarrow> ps_serve s ! i = Leaving \<Longrightarrow>
    slot_step timeout i s (serve_at i Closing (with_pool (close_session i) s))"
| sv_gone: "i < length (ps_serve s) \<Longrightarrow> ps_serve s ! i = Closing \<Longrightarrow>
    slot_step timeout i s (serve_at i Dialling (with_pool (channel_gone i) s))"
| pr_open: "i < length (ps_serve s) \<Longrightarrow> ps_probe s ! i = Opening \<Longrightarrow> \<not> session_closed i (ps_pool s) \<Longrightarrow>
    slot_step timeout i s (probe_at i Acking s)"
| pr_ok: "i < length (ps_serve s) \<Longrightarrow> ps_probe s ! i = Acking \<Longrightarrow> measurable rtt \<Longrightarrow>
    slot_step timeout i s (probe_at i Ticking (with_pool (store_rtt i rtt) s))"
| pr_fails: "i < length (ps_serve s) \<Longrightarrow> ps_probe s ! i = Opening \<or> ps_probe s ! i = Acking \<Longrightarrow>
    slot_step timeout i s (probe_at i Judging (with_pool (store_rtt i timeout) s))"
| pr_ends: "i < length (ps_serve s) \<Longrightarrow> ps_probe s ! i = Judging \<Longrightarrow> session_closed i (ps_pool s) \<Longrightarrow>
    slot_step timeout i s (probe_at i Exited s)"
| pr_goes_on: "i < length (ps_serve s) \<Longrightarrow> ps_probe s ! i = Judging \<Longrightarrow> \<not> session_closed i (ps_pool s) \<Longrightarrow>
    slot_step timeout i s (probe_at i Ticking s)"
| pr_tick: "i < length (ps_serve s) \<Longrightarrow> ps_probe s ! i = Ticking \<Longrightarrow> slot_step timeout i s (probe_at i Opening s)"

inductive_cases slot_stepE: "slot_step timeout i s s'"

text \<open>
  All steps: those of a slot, a session dies or changes by itself, an opener takes its first look or, with a
  candidate picked, its second.
\<close>

inductive pool_step :: "int \<Rightarrow> pool_sys \<Rightarrow> pool_sys \<Rightarrow> bool" for timeout where
  by_slot: "slot_step timeout i s s' \<Longrightarrow> pool_step timeout s s'"
| session_dies: "pool_step timeout s (with_pool (close_session i) s)"
| session_changes: "pool_step timeout s (with_pool (change_session i next_open) s)"
| opener_none: "first_look timeout (ps_pool s) = Some (Inl e, p) \<Longrightarrow> pool_step timeout s (s\<lparr>ps_pool := p\<rparr>)"
| opener_picks: "first_look timeout (ps_pool s) = Some (Inr best, p) \<Longrightarrow>
    pool_step timeout s (s\<lparr>ps_pool := p, ps_picked := best # ps_picked s\<rparr>)"
| opener_opens: "best \<in> set (ps_picked s) \<Longrightarrow> open_selected (smuxConns (ps_pool s)) best (ps_pool s) = (r, p) \<Longrightarrow>
    pool_step timeout s (s\<lparr>ps_pool := p, ps_picked := remove1 best (ps_picked s)\<rparr>)"

inductive_cases pool_stepE: "pool_step timeout s s'"

inductive pool_reach :: "int \<Rightarrow> ECHPool \<Rightarrow> pool_sys \<Rightarrow> bool" for timeout p0 where
  pool_init: "pool_reach timeout p0 (pool_start p0)"
| pool_next: "pool_reach timeout p0 s \<Longrightarrow> pool_step timeout s s' \<Longrightarrow> pool_reach timeout p0 s'"

section \<open>What the pool keeps\<close>

text \<open>
  One slot: it is empty, with no time, exactly while its goroutine dials; its probe runs exactly while the
  goroutine waits for it; and a session that has been given up, or whose probe has ended, is closed.
\<close>

definition slot_inv :: "smux_session option \<Rightarrow> int \<Rightarrow> serve_pc \<Rightarrow> probe_pc \<Rightarrow> bool" where
  "slot_inv sx rtt serve probe \<longleftrightarrow> (sx = None \<longleftrightarrow> serve = Dialling) \<and> (serve = Dialling \<longrightarrow> rtt = 0)
     \<and> 0 \<le> rtt \<and> rtt < 2 ^ 62
     \<and> (probe = NoProbe \<longleftrightarrow> serve \<noteq> Waiting \<and> serve \<noteq> WaitProbe)
     \<and> (serve \<in> {WaitProbe, Leaving, Closing} \<or> probe = Exited \<longrightarrow> (case sx of None \<Rightarrow> False | Some x \<Rightarrow> sx_closed x))"

definition pool_sys_inv :: "pool_sys \<Rightarrow> bool" where
  "pool_sys_inv s \<longleftrightarrow> (let p = ps_pool s; n = length (smuxConns p) in
     length (channelRTT p) = n \<and> length (ps_serve s) = n \<and> length (ps_probe s) = n
     \<and> (\<forall>i < n. slot_inv (smuxConns p ! i) (channelRTT p ! i) (ps_serve s ! i) (ps_probe s ! i))
     \<and> (\<forall>best \<in> set (ps_picked s). fst best < n))"

lemma pool_sys_invI:
  assumes "pool_sys_inv s" "i < length (ps_serve s)"
    "smuxConns (ps_pool s') = (smuxConns (ps_pool s))[i := sx]" "channelRTT (ps_pool s') = (channelRTT (ps_pool s))[i := rtt]"
    "ps_serve s' = (ps_serve s)[i := sv]" "ps_probe s' = (ps_probe s)[i := pr]" "ps_picked s' = ps_picked s"
    "slot_inv sx rtt sv pr"
  shows "pool_sys_inv s'"
  using assms by (auto simp: pool_sys_inv_def Let_def nth_list_update)

lemma pool_sys_slot:
  assumes "pool_sys_inv s" "i < length (ps_serve s)"
  shows "slot_inv (smuxConns (ps_pool s) ! i) (channelRTT (ps_pool s) ! i) (ps_serve s ! i) (ps_probe s ! i)"
  using assms by (auto simp: pool_sys_inv_def Let_def)

lemma list_update_at: "xs ! i = x \<Longrightarrow> xs = xs[i := x]"
  by auto

lemmas slot_updates = channel_ready_def channel_gone_def store_rtt_def close_session_def change_session_def

lemma slot_inv_pc [simp]:
  "slot_inv sx rtt Dialling pr \<longleftrightarrow> sx = None \<and> rtt = 0 \<and> pr = NoProbe"
  "slot_inv sx rtt FirstProbe pr \<longleftrightarrow> sx \<noteq> None \<and> measurable rtt \<and> pr = NoProbe"
  "slot_inv sx rtt Waiting pr \<longleftrightarrow> sx \<noteq> None \<and> measurable rtt \<and> pr \<noteq> NoProbe
     \<and> (pr = Exited \<longrightarrow> sx_closed (the sx))"
  "slot_inv sx rtt WaitProbe pr \<longleftrightarrow> sx \<noteq> None \<and> measurable rtt \<and> pr \<noteq> NoProbe \<and> sx_closed (the sx)"
  "slot_inv sx rtt Leaving pr \<longleftrightarrow> sx \<noteq> None \<and> measurable rtt \<and> pr = NoProbe \<and> sx_closed (the sx)"
  "slot_inv sx rtt Closing pr \<longleftrightarrow> sx \<noteq> None \<and> measurable rtt \<and> pr = NoProbe \<and> sx_closed (the sx)"
  by (auto simp: slot_inv_def measurable_def split: option.splits)

lemma probe_change:
  "slot_inv sx rtt sv pr \<Longrightarrow> pr \<noteq> NoProbe \<Longrightarrow> pr' \<noteq> NoProbe \<Longrightarrow> measurable rtt' \<Longrightarrow>
     (pr' = Exited \<longrightarrow> sx = None \<or> sx_closed (the sx)) \<Longrightarrow> slot_inv sx rtt' sv pr'"
  by (cases sv) auto

lemma slot_step_inv:
  assumes "slot_step timeout i s s'" "pool_sys_inv s" "measurable timeout"
  shows "pool_sys_inv s'"
proof -
  have i: "i < length (ps_serve s)" using assms(1) by cases
  note old = pool_sys_slot [OF assms(2) i]
  let ?sx = "smuxConns (ps_pool s) ! i" and ?rtt = "channelRTT (ps_pool s) ! i"
  let ?closed = "map_option (sx_closed_update (\<lambda>_. True)) ?sx"
  note I = pool_sys_invI [OF assms(2) i]
  have meas: "measurable ?rtt" using old by (simp add: slot_inv_def measurable_def)
  from assms(1) show ?thesis
  proof cases
    case sv_dial_fails
    with assms(2) show ?thesis by simp
  next
    case (sv_ready sx)
    with old show ?thesis
      by (intro I [of s' "Some sx" 0 FirstProbe "ps_probe s ! i"]) (auto simp: slot_updates measurable_def intro: list_update_at)
  next
    case (sv_first_ok rtt)
    with old show ?thesis by (intro I [of s' ?sx rtt Waiting Opening]) (auto simp: slot_updates intro: list_update_at)
  next
    case sv_first_fails
    with old show ?thesis by (intro I [of s' ?sx ?rtt Waiting Opening]) auto
  next
    case sv_probe_over
    with old show ?thesis by (intro I [of s' ?sx ?rtt Leaving NoProbe]) auto
  next
    case sv_dead
    with old show ?thesis
      by (intro I [of s' ?closed ?rtt WaitProbe "ps_probe s ! i"]) (auto simp: slot_updates intro: list_update_at)
  next
    case sv_close
    with old show ?thesis by (intro I [of s' ?closed ?rtt Closing "ps_probe s ! i"]) (auto simp: slot_updates intro: list_update_at)
  next
    case sv_gone
    with old show ?thesis by (intro I [of s' None 0 Dialling "ps_probe s ! i"]) (auto simp: slot_updates intro: list_update_at)
  next
    case pr_open
    with probe_change [OF old, of Acking ?rtt] meas show ?thesis
      by (intro I [of s' ?sx ?rtt "ps_serve s ! i" Acking]) simp_all
  next
    case (pr_ok rtt)
    with probe_change [OF old, of Ticking rtt] show ?thesis
      by (intro I [of s' ?sx rtt "ps_serve s ! i" Ticking]) (simp_all add: slot_updates)
  next
    case pr_fails
    with probe_change [OF old, of Judging timeout] assms(3) show ?thesis
      by (intro I [of s' ?sx timeout "ps_serve s ! i" Judging]) (auto simp: slot_updates)
  next
    case pr_ends
    with probe_change [OF old, of Exited ?rtt] meas show ?thesis
      by (intro I [of s' ?sx ?rtt "ps_serve s ! i" Exited]) (auto simp: session_closed_def split: option.splits)
  next
    case pr_goes_on
    with probe_change [OF old, of Ticking ?rtt] meas show ?thesis
      by (intro I [of s' ?sx ?rtt "ps_serve s ! i" Ticking]) simp_all
  next
    case pr_tick
    with probe_change [OF old, of Opening ?rtt] meas show ?thesis
      by (intro I [of s' ?sx ?rtt "ps_serve s ! i" Opening]) simp_all
  qed
qed

text \<open>The other steps.\<close>

lemma slot_inv_closed: "slot_inv sx rtt sv pr \<Longrightarrow> slot_inv (map_option (sx_closed_update (\<lambda>_. True)) sx) rtt sv pr"
  by (cases sv) (auto simp: slot_inv_def)

lemma slot_inv_changed: "slot_inv sx rtt sv pr \<Longrightarrow> slot_inv (map_option (sx_open_update (\<lambda>_. r)) sx) rtt sv pr"
  by (cases sx; cases sv) (auto simp: slot_inv_def)

lemma pool_sys_session:
  assumes "pool_sys_inv s" "\<And>sx rtt sv pr. slot_inv sx rtt sv pr \<Longrightarrow> slot_inv (f sx) rtt sv pr"
  shows "pool_sys_inv (s\<lparr>ps_pool := (ps_pool s)\<lparr>smuxConns := (smuxConns (ps_pool s))[i := f (smuxConns (ps_pool s) ! i)]\<rparr>\<rparr>)"
proof (cases "i < length (smuxConns (ps_pool s))")
  case True
  with assms show ?thesis by (auto simp: pool_sys_inv_def Let_def nth_list_update)
qed (use assms in \<open>simp add: not_less pool_sys_inv_def Let_def\<close>)

lemma pool_sys_rtts_ok:
  assumes "pool_sys_inv s" "0 < timeout" "measurable timeout"
  shows "pool_inv (ps_pool s) \<and> rtts_ok timeout (ps_pool s)"
proof -
  have "r < 2 ^ 62" if "r \<in> set (channelRTT (ps_pool s))" for r
    using that assms(1) by (auto simp: pool_sys_inv_def Let_def in_set_conv_nth slot_inv_def)
  then show ?thesis
    using assms by (fastforce simp: rtts_ok_def pool_inv_def measurable_def tieWindow_def pool_sys_inv_def Let_def)
qed

lemma first_look_facts:
  assumes "first_look timeout p = Some (r, p1)"
  shows "smuxConns p1 = smuxConns p \<and> channelRTT p1 = channelRTT p
    \<and> (\<forall>best. r = Inr best \<longrightarrow> best \<in> set (near_of timeout p))"
proof -
  have "xs ! nat k \<in> set xs" if "\<not> k < 0" "\<not> int (length xs) \<le> k" for k and xs :: "(nat \<times> int) list"
    using that by (intro nth_mem) linarith
  from this [of _ "near_of timeout p"] assms show ?thesis
    unfolding first_look_def Let_def near_of_def [symmetric] by (auto split: if_splits simp del: nth_mem) (metis)
qed

lemma open_selected_pool: "open_selected slots best p = (r, p1) \<Longrightarrow> p1 = p"
  by (auto simp: open_selected_def split: option.splits if_splits sum.splits)

lemma pool_step_inv:
  assumes "pool_step timeout s s'" "pool_sys_inv s" "0 < timeout" "measurable timeout"
  shows "pool_sys_inv s'"
  using assms(1)
proof cases
  case (by_slot i)
  with assms show ?thesis using slot_step_inv by blast
next
  case (session_dies i)
  with pool_sys_session [OF assms(2) slot_inv_closed] show ?thesis by (simp add: close_session_def)
next
  case (session_changes i r)
  with pool_sys_session [OF assms(2) slot_inv_changed] show ?thesis by (simp add: change_session_def)
next
  case (opener_none e p)
  with first_look_facts [OF opener_none(2)] assms(2) show ?thesis by (simp add: pool_sys_inv_def Let_def)
next
  case (opener_picks best p)
  from first_look_facts [OF opener_picks(2)] have f: "smuxConns p = smuxConns (ps_pool s)"
    "channelRTT p = channelRTT (ps_pool s)" "(fst best, snd best) \<in> set (near_of timeout (ps_pool s))" by auto
  from f(3) near_of_iff [of "ps_pool s" timeout "fst best" "snd best"] pool_sys_rtts_ok [OF assms(2-4)]
  have "fst best < length (smuxConns (ps_pool s))" by (simp add: fast_channel_def open_channel_def)
  with f(1,2) assms(2) opener_picks(1) show ?thesis by (simp add: pool_sys_inv_def Let_def)
next
  case (opener_opens best r p)
  with open_selected_pool [OF opener_opens(3)] assms(2) show ?thesis
    by (auto simp: pool_sys_inv_def Let_def dest: notin_set_remove1 [THEN contrapos_pp])
qed

lemma startPool_sys_inv: "startPool conf = Some p \<Longrightarrow> pool_sys_inv (pool_start p)"
  by (auto simp: startPool_def pool_start_def pool_sys_inv_def Let_def split: if_splits)

lemma pool_reach_inv:
  assumes "pool_reach timeout p0 s" "startPool conf = Some p0" "0 < timeout" "measurable timeout"
  shows "pool_sys_inv s"
  using assms(1)
  by induction (use assms startPool_sys_inv pool_step_inv in blast)+

section \<open>How a slot recovers\<close>

text \<open>Where the goroutines of a slot whose session is closed stand on their way back to dialling.\<close>

definition recovery :: "serve_pc \<Rightarrow> probe_pc \<Rightarrow> nat" where
  "recovery sv pr = (case sv of Dialling \<Rightarrow> 0 | Closing \<Rightarrow> 1 | Leaving \<Rightarrow> 2 | WaitProbe \<Rightarrow> 3 | Waiting \<Rightarrow> 4 | FirstProbe \<Rightarrow> 9)
     + (case pr of NoProbe \<Rightarrow> 0 | Exited \<Rightarrow> 1 | Judging \<Rightarrow> 2 | Opening \<Rightarrow> 3 | Ticking \<Rightarrow> 4 | Acking \<Rightarrow> 5)"

lemma session_closed_simps:
  "session_closed i (store_rtt j rtt p) = session_closed i p"
  "i < length (smuxConns p) \<Longrightarrow> session_closed i (channel_gone i p)"
  "i < length (smuxConns p) \<Longrightarrow> session_closed i (close_session i p)"
  by (auto simp: session_closed_def slot_updates split: option.split)

lemma recovery_step:
  assumes "slot_step timeout i s s'" "pool_sys_inv s" "session_closed i (ps_pool s)" "ps_serve s ! i \<noteq> Dialling"
  shows "recovery (ps_serve s' ! i) (ps_probe s' ! i) < recovery (ps_serve s ! i) (ps_probe s ! i)
    \<and> session_closed i (ps_pool s')"
proof -
  have i: "i < length (ps_serve s)" using assms(1) by cases
  have l: "i < length (ps_probe s)" "i < length (smuxConns (ps_pool s))"
    using i assms(2) by (auto simp: pool_sys_inv_def Let_def)
  from pool_sys_slot [OF assms(2) i] assms(3,4)
  have pr: "ps_serve s ! i = FirstProbe \<Longrightarrow> ps_probe s ! i = NoProbe" by auto
  from assms(1) show ?thesis
  proof cases
    case sv_probe_over
    with assms(3,4) i l show ?thesis by (elim disjE) (simp_all add: recovery_def)
  next
    case pr_fails
    with assms(3,4) i l show ?thesis by (elim disjE) (simp_all add: recovery_def session_closed_simps)
  qed (use assms(3,4) i l pr in \<open>simp_all add: recovery_def session_closed_simps\<close>)
qed

lemma slot_progress:
  assumes "pool_sys_inv s" "i < length (ps_serve s)"
  shows "\<exists>s'. slot_step timeout i s s'"
proof -
  have m: "measurable 0" by (simp add: measurable_def)
  have probing: ?thesis if "ps_probe s ! i \<noteq> NoProbe" "ps_serve s ! i = Waiting \<or> ps_serve s ! i = WaitProbe"
  proof (cases "ps_probe s ! i")
    case Judging
    with assms(2) show ?thesis by (cases "session_closed i (ps_pool s)") (blast intro: pr_ends pr_goes_on)+
  qed (use that assms(2) m in \<open>blast intro: pr_fails pr_ok pr_tick sv_probe_over\<close>)+
  note old = pool_sys_slot [OF assms]
  show ?thesis
  proof (cases "ps_serve s ! i")
    case Waiting
    with old probing show ?thesis by simp
  next
    case WaitProbe
    with old probing show ?thesis by simp
  qed (use assms(2) in \<open>blast intro: sv_dial_fails sv_first_fails sv_close sv_gone\<close>)+
qed

text \<open>Runs of one slot's goroutines that do not reach dialling.\<close>

definition busy_step :: "int \<Rightarrow> nat \<Rightarrow> pool_sys \<Rightarrow> pool_sys \<Rightarrow> bool" where
  "busy_step timeout i s s' \<longleftrightarrow> slot_step timeout i s s' \<and> ps_serve s' ! i \<noteq> Dialling"

definition slot_leaving :: "int \<Rightarrow> nat \<Rightarrow> pool_sys \<Rightarrow> bool" where
  "slot_leaving timeout i s \<longleftrightarrow> pool_sys_inv s \<and> measurable timeout \<and> session_closed i (ps_pool s) \<and> ps_serve s ! i \<noteq> Dialling"

interpretation busy: converging "busy_step timeout i" "slot_leaving timeout i"
    "\<lambda>s. recovery (ps_serve s ! i) (ps_probe s ! i)" for timeout i
proof unfold_locales
  fix s s'
  assume "busy_step timeout i s s'" "slot_leaving timeout i s"
  then have s: "slot_step timeout i s s'" "ps_serve s' ! i \<noteq> Dialling" "pool_sys_inv s" "measurable timeout"
    "session_closed i (ps_pool s)" "ps_serve s ! i \<noteq> Dialling" by (simp_all add: busy_step_def slot_leaving_def)
  from recovery_step [OF s(1)] slot_step_inv [OF s(1)] s
  show "slot_leaving timeout i s' \<and> recovery (ps_serve s' ! i) (ps_probe s' ! i) < recovery (ps_serve s ! i) (ps_probe s ! i)"
    by (auto simp: slot_leaving_def)
qed

lemma pool_step_length:
  assumes "pool_step timeout s s'"
  shows "length (smuxConns (ps_pool s')) = length (smuxConns (ps_pool s))"
  using assms
proof cases
  case (by_slot i)
  then show ?thesis by cases (simp_all add: slot_updates)
qed (auto simp: slot_updates dest: first_look_facts open_selected_pool)

lemma pool_reach_length: "pool_reach timeout p0 s \<Longrightarrow> length (smuxConns (ps_pool s)) = length (smuxConns p0)"
  by (induction rule: pool_reach.induct) (auto simp: pool_start_def dest: pool_step_length)

text \<open>The two looks.\<close>

lemma first_look_picks:
  assumes "pool_inv p" "rtts_ok timeout p" "open_channel p k" "0 \<le> sint (selectCounter p)"
  shows "\<exists>best p1. first_look timeout p = Some (Inr best, p1) \<and> fast_channel timeout p (fst best)"
proof -
  have "openBestStream timeout [] p \<noteq> None" using openBestStream_pick [OF assms, of "[]"] by auto
  with near_of_ne [OF assms(1-3)] obtain best p1 where l: "first_look timeout p = Some (Inr best, p1)"
    by (auto simp: first_look_def openBestStream_def Let_def split: if_splits)
  with first_look_facts [OF l] near_of_iff [OF assms(1,2), of "fst best" "snd best"] show ?thesis by auto
qed

lemma first_look_none:
  assumes "pool_inv p" "\<nexists>k. open_channel p k"
  shows "first_look timeout p \<noteq> None"
proof -
  have "candidates timeout 0 (smuxConns p) (channelRTT p) = []"
  proof (rule ccontr)
    assume "candidates timeout 0 (smuxConns p) (channelRTT p) \<noteq> []"
    then obtain c where "c \<in> set (candidates timeout 0 (smuxConns p) (channelRTT p))" by (meson last_in_set)
    with assms candidates_pool [OF assms(1), of "fst c" "snd c" timeout] show False by simp
  qed
  then show ?thesis by (simp add: first_look_def)
qed

lemma second_look:
  assumes "pool_sys_inv q" "open_selected (smuxConns (ps_pool q)) best (ps_pool q) = (Inr (str, ch), q1)"
    "fst best < length (smuxConns (ps_pool q))"
  shows "ch = fst best + 1 \<and> open_channel (ps_pool q) (fst best) \<and> ps_serve q ! fst best \<noteq> Dialling"
proof -
  have "fst best < length (ps_serve q)" using assms(1,3) by (simp add: pool_sys_inv_def Let_def)
  from pool_sys_slot [OF assms(1) this] assms(2,3) show ?thesis
    by (auto simp: open_selected_def open_channel_def slot_inv_def split: option.splits if_splits sum.splits)
qed

section \<open>Properties\<close>

text \<open>
  C15: the pool in every interleaving of its goroutines. A slot has no session, and no time left over from an
  earlier one, exactly while its goroutine dials; a probe runs exactly while that goroutine waits for it, so no
  probe of an old session ever stores a time for a new one; a session whose probe has ended, or that has been given up, is closed;
  and what an opener has picked is a slot of the pool.
\<close>

theorem pool_run_invariant:
  assumes "startPool conf = Some p0" "0 < timeout" "measurable timeout" "pool_reach timeout p0 s" "i < length (ps_serve s)"
  shows "(smuxConns (ps_pool s) ! i = None \<longleftrightarrow> ps_serve s ! i = Dialling)
    \<and> (ps_serve s ! i = Dialling \<longrightarrow> channelRTT (ps_pool s) ! i = 0)
    \<and> (ps_probe s ! i \<noteq> NoProbe \<longleftrightarrow> ps_serve s ! i = Waiting \<or> ps_serve s ! i = WaitProbe)
    \<and> (ps_probe s ! i = Exited \<or> ps_serve s ! i \<in> {WaitProbe, Leaving, Closing} \<longrightarrow> session_closed i (ps_pool s))
    \<and> length (ps_serve s) = length (smuxConns (ps_pool s)) \<and> length (channelRTT (ps_pool s)) = length (smuxConns (ps_pool s))
    \<and> (\<forall>best \<in> set (ps_picked s). fst best < length (smuxConns (ps_pool s)))"
proof -
  from pool_reach_inv [OF assms(4,1-3)] have inv: "pool_sys_inv s" .
  from pool_sys_slot [OF inv assms(5)] inv show ?thesis
    by (auto simp: slot_inv_def session_closed_def pool_sys_inv_def Let_def split: option.splits)
qed

text \<open>
  C16: a slot recovers. In no reachable state are both goroutines of a slot stuck, and once its session is closed they
  take at most ten steps before the slot is empty and dialling again, whatever the order of their steps.
\<close>

theorem pool_slot_recovers:
  assumes "startPool conf = Some p0" "0 < timeout" "measurable timeout" "pool_reach timeout p0 s" "i < length (ps_serve s)"
  shows "(\<exists>s'. slot_step timeout i s s')
    \<and> (session_closed i (ps_pool s) \<and> (busy_step timeout i ^^ n) s s' \<and> ps_serve s ! i \<noteq> Dialling \<longrightarrow> n \<le> 10)"
proof -
  from pool_reach_inv [OF assms(4,1-3)] have inv: "pool_sys_inv s" .
  from pool_sys_slot [OF inv assms(5)] have "recovery (ps_serve s ! i) (ps_probe s ! i) \<le> 9"
    by (cases "ps_serve s ! i"; cases "ps_probe s ! i") (auto simp: recovery_def)
  with busy.run_bound [where i = i and timeout = timeout and n = n and x = s and y = s'] inv assms(3) slot_progress [OF inv assms(5)] show ?thesis
    by (auto simp: slot_leaving_def)
qed


text \<open>A pool of one slot, its channel ready, and the same with the session dead.\<close>

definition example_conf :: ClientConfig where
  "example_conf = zero_client\<lparr>Concur := 1, DialTimeout := 5\<rparr>"

definition example_ready :: pool_sys where
  "example_ready = serve_at 0 FirstProbe (with_pool (channel_ready 0 \<lparr>sx_closed = False, sx_open = Inr (fresh_stream [])\<rparr>)
     (pool_start (the (startPool example_conf))))"

lemma example_start: "startPool example_conf = Some (the (startPool example_conf))"
  by (simp add: startPool_def example_conf_def zero_client_def)

lemma example_reach:
  "pool_reach 5 (the (startPool example_conf)) example_ready"
  "pool_reach 5 (the (startPool example_conf)) (with_pool (close_session 0) example_ready)"
proof -
  have "slot_step 5 0 (pool_start (the (startPool example_conf))) example_ready"
    unfolding example_ready_def
    by (rule sv_ready) (simp_all add: pool_start_def startPool_def example_conf_def zero_client_def)
  then show r: "pool_reach 5 (the (startPool example_conf)) example_ready"
    by (rule pool_next [OF pool_init by_slot])
  show "pool_reach 5 (the (startPool example_conf)) (with_pool (close_session 0) example_ready)"
    by (rule pool_next [OF r session_dies])
qed

lemma example_sel:
  "ps_serve example_ready = [FirstProbe]" "ps_probe example_ready = [NoProbe]" "0 \<le> sint (selectCounter (ps_pool example_ready))"
  "smuxConns (ps_pool example_ready) = [Some \<lparr>sx_closed = False, sx_open = Inr (fresh_stream [])\<rparr>]" "measurable 5"
  by (simp_all add: example_ready_def pool_start_def startPool_def example_conf_def zero_client_def channel_ready_def measurable_def)

theorem pool_run_invariant_witness:
  "pool_reach 5 (the (startPool example_conf)) example_ready \<and> smuxConns (ps_pool example_ready) ! 0 \<noteq> None"
  using pool_run_invariant [OF example_start _ example_sel(5) example_reach(1), of 0] example_reach(1)
  by (simp add: example_sel(1))

theorem pool_slot_recovers_witness:
  "session_closed 0 (ps_pool (with_pool (close_session 0) example_ready))
    \<and> {n. \<exists>s'. (busy_step 5 0 ^^ n) (with_pool (close_session 0) example_ready) s'} \<subseteq> {..10}"
proof -
  have c: "session_closed 0 (ps_pool (with_pool (close_session 0) example_ready))"
    by (simp add: session_closed_simps example_sel(4))
  then have "n \<le> 10" if "(busy_step 5 0 ^^ n) (with_pool (close_session 0) example_ready) s'" for n s'
    using pool_slot_recovers [OF example_start _ example_sel(5) example_reach(2), of 0 n s'] that by (simp add: example_sel(1))
  with c show ?thesis by blast
qed


end
