(* ===== verification/Processes.thy ===== *)
theory Processes
  imports Startup PoolRun
begin

text \<open>
  The two programs as processes: the server's WebSocket handlers over the table of sessions, its start and end, and the
  client's main routine with its reconnection loop, \<^verbatim>\<open>main\<close>, \<^verbatim>\<open>handleWebSocket\<close> and \<^verbatim>\<open>connectLoop\<close> of \<^verbatim>\<open>cmd/server/main.go\<close>
  and \<^verbatim>\<open>cmd/client/main.go\<close>, each as a step relation over its goroutines.
\<close>

section \<open>The server's connections\<close>

text \<open>
  A handler that has accepted its client: it stores the session, waits until the session is done and deletes the
  entry. The accept loop of its session runs from the store on; its events, and closes from elsewhere, are the
  \<^verbatim>\<open>session_step\<close> of \<^verbatim>\<open>Session\<close>. A connection is known by the number of its handler.
\<close>

datatype handler_pc = HStoring | HWaiting

record ws_handler =
  h_client :: string
  h_session :: ClientSession
  h_pc :: handler_pc

record server_state =
  sv_table :: "string \<Rightarrow> live_session option"
  sv_handlers :: "nat \<Rightarrow> ws_handler option"
  sv_next :: nat
  sv_panicked :: bool

definition server_init :: server_state where
  "server_init = \<lparr>sv_table = (\<lambda>_. None), sv_handlers = (\<lambda>_. None), sv_next = 0, sv_panicked = False\<rparr>"

inductive server_step :: "ServerConfig \<Rightarrow> server_state \<Rightarrow> server_state \<Rightarrow> bool" for conf where
  h_turned_away: "\<not> sv_panicked v \<Longrightarrow> handleWebSocket up mux first conf (AuthUUIDBin conf) = (out, s) \<Longrightarrow>
    out = NotUpgraded \<or> out = Refused \<Longrightarrow> server_step conf v (v\<lparr>sv_next := sv_next v + 1\<rparr>)"
| h_connects: "\<not> sv_panicked v \<Longrightarrow> handleWebSocket up mux first conf (AuthUUIDBin conf) = (Connected client, s) \<Longrightarrow>
    server_step conf v (v\<lparr>sv_next := sv_next v + 1, sv_handlers := (sv_handlers v)(sv_next v \<mapsto>
      \<lparr>h_client = client, h_session = NewClientSession client, h_pc = HStoring\<rparr>)\<rparr>)"
| h_stores: "\<not> sv_panicked v \<Longrightarrow> sv_handlers v n = Some h \<Longrightarrow> h_pc h = HStoring \<Longrightarrow>
    sessions_store (h_client h, n) (sv_table v) = Some m \<Longrightarrow>
    server_step conf v (v\<lparr>sv_table := m, sv_handlers := (sv_handlers v)(n \<mapsto> h\<lparr>h_pc := HWaiting\<rparr>)\<rparr>)"
| h_event: "\<not> sv_panicked v \<Longrightarrow> sv_handlers v n = Some h \<Longrightarrow> h_pc h = HWaiting \<Longrightarrow>
    session_step e (h_session h) = Some s \<Longrightarrow>
    server_step conf v (v\<lparr>sv_handlers := (sv_handlers v)(n \<mapsto> h\<lparr>h_session := s\<rparr>)\<rparr>)"
| h_panics: "\<not> sv_panicked v \<Longrightarrow> sv_handlers v n = Some h \<Longrightarrow> h_pc h = HWaiting \<Longrightarrow>
    session_step e (h_session h) = None \<Longrightarrow> server_step conf v (v\<lparr>sv_panicked := True\<rparr>)"
| h_ends: "\<not> sv_panicked v \<Longrightarrow> sv_handlers v n = Some h \<Longrightarrow> h_pc h = HWaiting \<Longrightarrow> cs_done (h_session h) \<Longrightarrow>
    server_step conf v (v\<lparr>sv_table := sessions_delete (h_client h) (sv_table v),
      sv_handlers := (sv_handlers v)(n := None)\<rparr>)"

inductive_cases server_stepE: "server_step conf v v'"

definition server_reach :: "ServerConfig \<Rightarrow> server_state \<Rightarrow> bool" where
  "server_reach conf v \<longleftrightarrow> (server_step conf)\<^sup>*\<^sup>* server_init v"

text \<open>Handlers belong to allowed identities; an entry belongs to a handler that waits for a session of its key.\<close>

definition handler_ok :: "ServerConfig \<Rightarrow> ws_handler \<Rightarrow> bool" where
  "handler_ok conf h \<longleftrightarrow> (\<exists>u \<in> set (AuthUUIDBin conf). h_client h = bytes_str u) \<and> cs_inv (h_session h)
     \<and> GetID (h_session h) = h_client h"

definition server_inv :: "ServerConfig \<Rightarrow> server_state \<Rightarrow> bool" where
  "server_inv conf v \<longleftrightarrow>
     (\<forall>n h. sv_handlers v n = Some h \<longrightarrow> n < sv_next v \<and> handler_ok conf h)
     \<and> (\<forall>k x. sessions_load (sv_table v) k = Some x \<longrightarrow> fst x = k
          \<and> (\<exists>h. sv_handlers v (snd x) = Some h \<and> h_client h = k \<and> h_pc h = HWaiting))"

lemma handleWebSocket_Connected:
  "handleWebSocket up mux first conf auth = (Connected client, s) \<Longrightarrow> \<exists>u \<in> set auth. client = bytes_str u"
  by (auto simp: handleWebSocket_def split: if_splits option.splits prod.splits sum.splits)

lemma session_step_ID: "session_step e s = Some s' \<Longrightarrow> GetID s' = GetID s"
  by (cases e) (auto simp: GetID_def AddChannel_def CS_Close_def Channel_Close_def RemoveChannel_def split: option.splits)

lemma handler_ok_new:
  "u \<in> set (AuthUUIDBin conf) \<Longrightarrow> handler_ok conf \<lparr>h_client = bytes_str u, h_session = NewClientSession (bytes_str u), h_pc = pc\<rparr>"
  by (auto simp: handler_ok_def cs_inv_def NewClientSession_def GetID_def)

lemma server_step_inv:
  assumes "server_step conf v v'" "server_inv conf v"
  shows "server_inv conf v'"
  using assms(1)
proof cases
  case (h_turned_away up mux first out s)
  with assms(2) show ?thesis by (auto simp: server_inv_def less_SucI)
next
  case (h_connects up mux first client s)
  from handleWebSocket_Connected [OF h_connects(3)] obtain u where "u \<in> set (AuthUUIDBin conf)" "client = bytes_str u" by blast
  with handler_ok_new [OF this(1)] assms(2) h_connects(1) show ?thesis by (fastforce simp: server_inv_def less_SucI)
next
  case (h_stores n h m)
  have ok: "handler_ok conf (h\<lparr>h_pc := HWaiting\<rparr>) = handler_ok conf h" by (simp add: handler_ok_def)
  have "sessions_load m k = (if k = h_client h then Some (h_client h, n) else sessions_load (sv_table v) k)" for k
    using sess.lookup_put [OF h_stores(5), of k] by simp
  with assms(2) h_stores ok show ?thesis by (fastforce simp: server_inv_def split: if_splits)
next
  case (h_event n h e s)
  have "handler_ok conf (h\<lparr>h_session := s\<rparr>)" if "handler_ok conf h"
    using that session_step_inv [OF h_event(5)] session_step_ID [OF h_event(5)] by (simp add: handler_ok_def)
  with assms(2) h_event show ?thesis by (fastforce simp: server_inv_def)
next
  case (h_panics n h e)
  with assms(2) show ?thesis by (simp add: server_inv_def)
next
  case (h_ends n h)
  with assms(2) show ?thesis
    by (fastforce simp: server_inv_def sess.lookup_del split: if_splits)
qed

lemma server_reach_inv: "server_reach conf v \<Longrightarrow> server_inv conf v"
  unfolding server_reach_def
proof (induction rule: rtranclp_induct)
  case base
  then show ?case by (simp add: server_inv_def server_init_def sessions_load_def)
next
  case (step v v')
  then show ?case using server_step_inv by blast
qed

section \<open>The server's main routine\<close>

text \<open>
  \<^verbatim>\<open>main\<close> waits for a signal, shuts the HTTP server down, which ends \<^verbatim>\<open>ListenAndServe\<close> at once and which it leaves after
  ten seconds at the latest, and waits for the goroutine that listens. A listener that fails ends the program.
\<close>

datatype server_pc = SAwaitSignal | SShutdown | SJoin | SExited
datatype listen_pc = LServing | LReturned

record server_main =
  sm_pc :: server_pc
  sm_listen :: listen_pc
  sm_stopping :: bool

definition server_main_init :: server_main where
  "server_main_init = \<lparr>sm_pc = SAwaitSignal, sm_listen = LServing, sm_stopping = False\<rparr>"

inductive server_main_step :: "server_main \<Rightarrow> server_main \<Rightarrow> bool" where
  sm_fatal: "sm_listen m = LServing \<Longrightarrow> sm_pc m \<noteq> SExited \<Longrightarrow> \<not> sm_stopping m \<Longrightarrow>
    server_main_step m (m\<lparr>sm_pc := SExited, sm_listen := LReturned\<rparr>)"
| sm_signal: "sm_pc m = SAwaitSignal \<Longrightarrow> server_main_step m (m\<lparr>sm_pc := SShutdown, sm_stopping := True\<rparr>)"
| sm_listen_ends: "sm_listen m = LServing \<Longrightarrow> sm_stopping m \<Longrightarrow> server_main_step m (m\<lparr>sm_listen := LReturned\<rparr>)"
| sm_shut: "sm_pc m = SShutdown \<Longrightarrow> server_main_step m (m\<lparr>sm_pc := SJoin\<rparr>)"
| sm_join: "sm_pc m = SJoin \<Longrightarrow> sm_listen m = LReturned \<Longrightarrow> server_main_step m (m\<lparr>sm_pc := SExited\<rparr>)"

section \<open>The client's main routine\<close>

text \<open>
  After the start, \<^verbatim>\<open>main\<close> waits for a signal, closes the two listeners and the current session and waits for
  \<^verbatim>\<open>connectLoop\<close>, whose rounds are \<^verbatim>\<open>connect_round\<close> of \<^verbatim>\<open>Client\<close>. The current session is shared: other goroutines
  (keep-alive, accept loop) may close it.
\<close>

datatype client_pc = CAwaitSignal | CCloseListeners | CCloseSession | CJoin | CExited
datatype loop_pc = LoopTop | LoopPause nat | LoopWait | LoopReturned

record client_main =
  cm_pc :: client_pc
  cm_loop :: loop_pc
  cm_session :: "ClientSession option"
  cm_listening :: bool

definition client_main_init :: client_main where
  "client_main_init = \<lparr>cm_pc = CAwaitSignal, cm_loop = LoopTop, cm_session = None, cm_listening = True\<rparr>"

definition close_current :: "ClientSession option \<Rightarrow> ClientSession option" where
  "close_current cur = (case getClientSession cur of None \<Rightarrow> None | Some s \<Rightarrow> Some (CS_Close s))"

inductive client_main_step :: "ClientConfig \<Rightarrow> client_main \<Rightarrow> client_main \<Rightarrow> bool" for conf where
  cm_signal: "cm_pc m = CAwaitSignal \<Longrightarrow> client_main_step conf m (m\<lparr>cm_pc := CCloseListeners\<rparr>)"
| cm_close_listeners: "cm_pc m = CCloseListeners \<Longrightarrow>
    client_main_step conf m (m\<lparr>cm_pc := CCloseSession, cm_listening := False\<rparr>)"
| cm_close_session: "cm_pc m = CCloseSession \<Longrightarrow>
    client_main_step conf m (m\<lparr>cm_pc := CJoin, cm_session := close_current (cm_session m)\<rparr>)"
| cm_join: "cm_pc m = CJoin \<Longrightarrow> cm_loop m = LoopReturned \<Longrightarrow> client_main_step conf m (m\<lparr>cm_pc := CExited\<rparr>)"
| cm_round_sleeps: "cm_loop m = LoopTop \<Longrightarrow>
    connect_round conf pool_ready connected muxed hs (cm_session m) = (SleepFor n, cur) \<Longrightarrow>
    client_main_step conf m (m\<lparr>cm_loop := LoopPause n, cm_session := cur\<rparr>)"
| cm_round_connects: "cm_loop m = LoopTop \<Longrightarrow>
    connect_round conf pool_ready connected muxed hs (cm_session m) = (WaitDone, cur) \<Longrightarrow>
    client_main_step conf m (m\<lparr>cm_loop := LoopWait, cm_session := cur\<rparr>)"
| cm_wakes: "cm_loop m = LoopPause n \<Longrightarrow> client_main_step conf m (m\<lparr>cm_loop := LoopTop\<rparr>)"
| cm_session_fails: "client_main_step conf m (m\<lparr>cm_session := close_current (cm_session m)\<rparr>)"
| cm_over: "cm_loop m = LoopWait \<Longrightarrow> cm_session m = Some s \<Longrightarrow> cs_done s \<Longrightarrow>
    session_over (cm_session m) = (SleepFor n, cur) \<Longrightarrow>
    client_main_step conf m (m\<lparr>cm_loop := LoopPause n, cm_session := cur\<rparr>)"

inductive_cases client_main_stepE: "client_main_step conf m m'"

definition client_reach :: "ClientConfig \<Rightarrow> client_main \<Rightarrow> bool" where
  "client_reach conf m \<longleftrightarrow> (client_main_step conf)\<^sup>*\<^sup>* client_main_init m"

text \<open>The loop waits exactly while there is a session, which has the client's identity, and it never returns.\<close>

definition client_main_inv :: "ClientConfig \<Rightarrow> client_main \<Rightarrow> bool" where
  "client_main_inv conf m \<longleftrightarrow> cm_loop m \<noteq> LoopReturned \<and> cm_pc m \<noteq> CExited
     \<and> (cm_loop m = LoopWait \<longleftrightarrow> cm_session m \<noteq> None)
     \<and> (\<forall>s. cm_session m = Some s \<longrightarrow> GetID s = UUID conf \<and> cs_inv s)
     \<and> (cm_pc m \<in> {CCloseSession, CJoin} \<longrightarrow> \<not> cm_listening m)"

lemma close_current_simps [simp]:
  "(close_current cur = None) = (cur = None)"
  "close_current cur = Some s \<longleftrightarrow> (\<exists>x. cur = Some x \<and> s = CS_Close x)"
  by (auto simp: close_current_def getClientSession_def split: option.splits)

lemma CS_Close_facts [simp]: "GetID (CS_Close s) = GetID s" "cs_inv s \<Longrightarrow> cs_inv (CS_Close s)" "cs_inv s \<Longrightarrow> cs_done (CS_Close s)"
  by (auto simp: GetID_def CS_Close_def cs_inv_def)

lemma new_session_facts: "GetID (NewClientSession i) = i" "cs_inv (NewClientSession i)" "\<not> cs_done (NewClientSession i)"
  by (simp_all add: GetID_def NewClientSession_def cs_inv_def)

lemma client_main_step_inv: "client_main_step conf m m' \<Longrightarrow> client_main_inv conf m \<Longrightarrow> client_main_inv conf m'"
  by (erule client_main_stepE)
     (auto simp: client_main_inv_def connect_round_def session_over_def setClientSession_def getClientSession_def
        new_session_facts split: if_splits option.splits)

lemma client_reach_inv: "client_reach conf m \<Longrightarrow> client_main_inv conf m"
  unfolding client_reach_def
proof (induction rule: rtranclp_induct)
  case base
  then show ?case by (simp add: client_main_inv_def client_main_init_def)
next
  case (step m m')
  then show ?case using client_main_step_inv by blast
qed

text \<open>From every state the loop can get to its top without a session, and then connect.\<close>

lemma client_loop_top:
  assumes "client_main_inv conf m"
  shows "\<exists>m'. (client_main_step conf)\<^sup>*\<^sup>* m m' \<and> cm_loop m' = LoopTop \<and> cm_session m' = None \<and> cm_pc m' = cm_pc m
    \<and> cm_listening m' = cm_listening m"
proof (cases "cm_loop m")
  case LoopTop
  with assms show ?thesis by (auto simp: client_main_inv_def)
next
  case (LoopPause n)
  from cm_wakes [OF LoopPause, of conf] have "(client_main_step conf)\<^sup>*\<^sup>* m (m\<lparr>cm_loop := LoopTop\<rparr>)" by blast
  with assms LoopPause show ?thesis
    by (intro exI [of _ "m\<lparr>cm_loop := LoopTop\<rparr>"]) (simp add: client_main_inv_def)
next
  case LoopWait
  with assms obtain s where s: "cm_session m = Some s" "cs_inv s" by (auto simp: client_main_inv_def)
  let ?m1 = "m\<lparr>cm_session := close_current (cm_session m)\<rparr>"
  let ?m2 = "?m1\<lparr>cm_loop := LoopPause 3, cm_session := None\<rparr>"
  have "client_main_step conf ?m1 ?m2"
    by (rule cm_over [of _ "CS_Close s"])
       (use LoopWait s in \<open>simp_all add: session_over_def setClientSession_def\<close>)
  moreover have "client_main_step conf ?m2 (?m2\<lparr>cm_loop := LoopTop\<rparr>)" by (rule cm_wakes) simp
  ultimately have "(client_main_step conf)\<^sup>*\<^sup>* m (?m2\<lparr>cm_loop := LoopTop\<rparr>)"
    using cm_session_fails [of conf m] by (meson converse_rtranclp_into_rtranclp r_into_rtranclp)
  then show ?thesis by (intro exI [of _ "?m2\<lparr>cm_loop := LoopTop\<rparr>"]) simp
next
  case LoopReturned
  with assms show ?thesis by (simp add: client_main_inv_def)
qed

section \<open>Properties\<close>



text \<open>
  C6: only authenticated clients have a session. In every interleaving of connections, handlers and session events, an
  entry of the server's table is kept under the key of its client, the binary form of an allowed identity sent in a
  handshake; it belongs to a handler that still waits for its session; and every handler's session is its client's,
  closed in all its parts or in none.
\<close>

theorem server_sessions_authorised:
  assumes "server_reach conf v"
  shows "(\<forall>k x. sessions_load (sv_table v) k = Some x \<longrightarrow> (\<exists>u \<in> set (AuthUUIDBin conf). k = bytes_str u) \<and> fst x = k
      \<and> (\<exists>h. sv_handlers v (snd x) = Some h \<and> h_client h = k \<and> h_pc h = HWaiting))
    \<and> (\<forall>n h. sv_handlers v n = Some h \<longrightarrow> GetID (h_session h) = h_client h
      \<and> (IsClosed (h_session h) \<longleftrightarrow> cs_done (h_session h)) \<and> (\<exists>u \<in> set (AuthUUIDBin conf). h_client h = bytes_str u))"
proof (intro conjI allI impI)
  from server_reach_inv [OF assms] have inv: "server_inv conf v" .
  fix k x
  assume "sessions_load (sv_table v) k = Some x"
  with inv obtain h where h: "fst x = k" "sv_handlers v (snd x) = Some h" "h_client h = k" "h_pc h = HWaiting"
    unfolding server_inv_def by blast
  with inv have "handler_ok conf h" unfolding server_inv_def by blast
  with h show "\<exists>u \<in> set (AuthUUIDBin conf). k = bytes_str u" "fst x = k"
    "\<exists>h. sv_handlers v (snd x) = Some h \<and> h_client h = k \<and> h_pc h = HWaiting" by (auto simp: handler_ok_def)
next
  from server_reach_inv [OF assms] have inv: "server_inv conf v" .
  fix n h
  assume "sv_handlers v n = Some h"
  with inv have "handler_ok conf h" unfolding server_inv_def by blast
  then show "GetID (h_session h) = h_client h" "IsClosed (h_session h) \<longleftrightarrow> cs_done (h_session h)"
    "\<exists>u \<in> set (AuthUUIDBin conf). h_client h = bytes_str u"
    by (auto simp: handler_ok_def cs_inv_def IsClosed_def)
qed

text \<open>A server with one allowed identity that has stored one session.\<close>

lemma example_server:
  fixes u :: bytes
  assumes "length u = 16"
  shows "\<exists>v. server_reach (zero_server\<lparr>DialTimeout := 1, AuthUUIDBin := [u]\<rparr>) v
    \<and> sessions_load (sv_table v) (bytes_str u) = Some (bytes_str u, 0)"
proof -
  let ?conf = "zero_server\<lparr>DialTimeout := 1, AuthUUIDBin := [u]\<rparr>" and ?s = "fresh_stream (HandshakeReq # u)"
  obtain out s where hw: "handleWebSocket True True (Some ?s) ?conf (AuthUUIDBin ?conf) = (out, s)" by fastforce
  from hsreq.rd_enc [of "DialTimeout ?conf" u ?s "[]"] assms
  have rd: "fst (ReadHandshakeRequest (DialTimeout ?conf) ?s) = Inr u" by auto
  from hw have out: "out = Connected (bytes_str u)"
    by (cases rule: handleWebSocket_cases) (use rd in auto)
  let ?h = "\<lparr>h_client = bytes_str u, h_session = NewClientSession (bytes_str u), h_pc = HStoring\<rparr>"
  let ?v1 = "server_init\<lparr>sv_next := sv_next server_init + 1, sv_handlers := (sv_handlers server_init)(sv_next server_init \<mapsto> ?h)\<rparr>"
  let ?v2 = "?v1\<lparr>sv_table := [bytes_str u \<mapsto> (bytes_str u, 0)], sv_handlers := (sv_handlers ?v1)(0 \<mapsto> ?h\<lparr>h_pc := HWaiting\<rparr>)\<rparr>"
  have 1: "server_step ?conf server_init ?v1"
    by (rule h_connects [OF _ hw [unfolded out]]) (simp add: server_init_def)
  have 2: "server_step ?conf ?v1 ?v2"
    by (rule h_stores [of _ _ ?h]) (simp_all add: server_init_def sessions_store_def)
  from 1 2 have "server_reach ?conf ?v2" unfolding server_reach_def by (meson r_into_rtranclp rtranclp.rtrancl_into_rtrancl)
  then show ?thesis by (intro exI [of _ ?v2]) (simp add: sessions_load_def)
qed

theorem server_sessions_authorised_witness:
  "\<exists>v. server_reach (zero_server\<lparr>DialTimeout := 1, AuthUUIDBin := [replicate 16 7]\<rparr>) v
    \<and> (\<exists>x. sessions_load (sv_table v) (bytes_str (replicate 16 7)) = Some x \<and> fst x = bytes_str (replicate 16 7)
        \<and> (\<exists>h. sv_handlers v (snd x) = Some h \<and> h_pc h = HWaiting))"
proof -
  obtain v where v: "server_reach (zero_server\<lparr>DialTimeout := 1, AuthUUIDBin := [replicate 16 7]\<rparr>) v"
    "sessions_load (sv_table v) (bytes_str (replicate 16 7)) = Some (bytes_str (replicate 16 7), 0)"
    using example_server [of "replicate 16 7"] by auto
  from server_sessions_authorised [OF v(1)] v show ?thesis by blast
qed

text \<open>
  C39: the client does not end. Its main routine waits for \<^verbatim>\<open>connectLoop\<close>, which never returns: in no run does
  \<^verbatim>\<open>main\<close> return, whatever signals arrive; and from every state in which it waits after a signal, its listeners closed, the loop can
  still establish a new session with the server.
\<close>

theorem client_never_exits:
  assumes "client_reach conf m"
  shows "cm_pc m \<noteq> CExited \<and> (cm_pc m = CJoin \<longrightarrow> \<not> cm_listening m \<and> (\<exists>m'. (client_main_step conf)\<^sup>*\<^sup>* m m' \<and> cm_pc m' = CJoin
      \<and> (\<exists>s. cm_session m' = Some s \<and> \<not> cs_done s \<and> GetID s = UUID conf)))"
proof -
  from client_reach_inv [OF assms] have inv: "client_main_inv conf m" .
  from client_loop_top [OF inv] obtain q where q: "(client_main_step conf)\<^sup>*\<^sup>* m q" "cm_loop q = LoopTop"
    "cm_session q = None" "cm_pc q = cm_pc m" by blast
  let ?r = "q\<lparr>cm_loop := LoopWait, cm_session := Some (NewClientSession (UUID conf))\<rparr>"
  have "client_main_step conf q ?r"
    by (rule cm_round_connects [of _ _ True True True None])
       (use q in \<open>simp_all add: connect_round_def getClientSession_def setClientSession_def\<close>)
  with q(1) have "(client_main_step conf)\<^sup>*\<^sup>* m ?r" by simp
  with q(4) inv new_session_facts show ?thesis
    by (auto simp: client_main_inv_def intro!: exI [of _ ?r])
qed

theorem client_never_exits_witness:
  "\<exists>m. client_reach zero_client m \<and> cm_pc m = CJoin \<and> \<not> cm_listening m"
proof -
  let ?m1 = "client_main_init\<lparr>cm_pc := CCloseListeners\<rparr>"
  let ?m2 = "?m1\<lparr>cm_pc := CCloseSession, cm_listening := False\<rparr>"
  let ?m3 = "?m2\<lparr>cm_pc := CJoin, cm_session := close_current (cm_session ?m2)\<rparr>"
  have 1: "client_main_step zero_client client_main_init ?m1" by (rule cm_signal) (simp add: client_main_init_def)
  have 2: "client_main_step zero_client ?m1 ?m2" by (rule cm_close_listeners) simp
  have 3: "client_main_step zero_client ?m2 ?m3" by (rule cm_close_session) simp
  from 1 2 3 have r: "client_reach zero_client ?m3"
    unfolding client_reach_def by (meson r_into_rtranclp rtranclp.rtrancl_into_rtrancl)
  from client_never_exits [OF r] r show ?thesis by (intro exI [of _ ?m3]) simp
qed

text \<open>
  The server's main routine, by contrast, takes at most four steps, and where it stops it has exited.
\<close>

definition server_main_size :: "server_main \<Rightarrow> nat" where
  "server_main_size m = (case sm_pc m of SAwaitSignal \<Rightarrow> 3 | SShutdown \<Rightarrow> 2 | SJoin \<Rightarrow> 1 | SExited \<Rightarrow> 0)
     + (case sm_listen m of LServing \<Rightarrow> 1 | LReturned \<Rightarrow> 0)"

interpretation server_main_run: converging server_main_step
    "\<lambda>m. (sm_listen m = LReturned \<or> sm_pc m = SAwaitSignal \<or> sm_stopping m)
       \<and> (sm_listen m = LReturned \<longrightarrow> sm_stopping m \<or> sm_pc m = SExited)" server_main_size
  by unfold_locales (erule server_main_step.cases; auto simp: server_main_size_def)

lemma server_main_facts:
  assumes "(server_main_step ^^ n) server_main_init m"
  shows "n + server_main_size m \<le> 4 \<and> (sm_listen m = LReturned \<or> sm_pc m = SAwaitSignal \<or> sm_stopping m)"
  using server_main_run.run_bound [OF assms] by (auto simp: server_main_init_def server_main_size_def)

theorem server_main_ends:
  assumes "(server_main_step ^^ n) server_main_init m"
  shows "n \<le> 4 \<and> ((\<nexists>m'. server_main_step m m') \<longrightarrow> sm_pc m = SExited)"
proof -
  have "sm_pc m = SExited" if "\<nexists>m'. server_main_step m m'"
  proof (cases "sm_pc m")
    case SJoin
    with that server_main_facts [OF assms] show ?thesis
      by (cases "sm_listen m") (auto intro: sm_listen_ends sm_join)
  qed (use that in \<open>auto intro: sm_signal sm_shut\<close>)
  with server_main_facts [OF assms] show ?thesis by simp
qed

theorem server_main_ends_witness:
  "(server_main_step ^^ 1) server_main_init (server_main_init\<lparr>sm_pc := SShutdown, sm_stopping := True\<rparr>)"
  using server_main_ends [of 1] sm_signal [of server_main_init] unfolding relpowp_1 by (simp add: server_main_init_def)

end
