(* ===== verification/UdpRelay.thy ===== *)
theory UdpRelay
  imports Relay
begin

text \<open>
  The server's UDP relay with its goroutines interleaved: \<^verbatim>\<open>handleUDPStream\<close> of \<^verbatim>\<open>internal/relay/tcp.go\<close> over
  the relayer of \<^verbatim>\<open>internal/relay/udp.go\<close> and the buffers of \<^verbatim>\<open>internal/pool/pool.go\<close>.

  A \<^verbatim>\<open>net.UDPConn\<close> is a queue of datagrams that have arrived, the error behind them if the socket is broken,
  the datagrams sent, a script of what the next sends do, and its read deadline. \<^verbatim>\<open>sync.Pool\<close> hands out any
  free buffer or, as it may at any time, a new one.
\<close>

section \<open>The buffer pool\<close>

definition BufPool_New :: bytes where
  "BufPool_New = replicate (64 * 1024) 0"

text \<open>\<open>pick\<close> is the pool's choice.\<close>

definition BufPool_Get :: "nat option \<Rightarrow> bytes list \<Rightarrow> bytes \<times> bytes list" where
  "BufPool_Get pick free = (case pick of
     None \<Rightarrow> (BufPool_New, free)
   | Some i \<Rightarrow> if i < length free then (free ! i, take i free @ drop (Suc i) free) else (BufPool_New, free))"

definition BufPool_Put :: "bytes \<Rightarrow> bytes list \<Rightarrow> bytes list" where
  "BufPool_Put b free = b # free"

definition bufs_ok :: "bytes list \<Rightarrow> bool" where
  "bufs_ok free \<longleftrightarrow> (\<forall>b \<in> set free. length b = 64 * 1024)"

lemma BufPool_inv:
  "bufs_ok free \<Longrightarrow> BufPool_Get pick free = (b, free') \<Longrightarrow> length b = 64 * 1024 \<and> bufs_ok free'"
  "bufs_ok free \<Longrightarrow> length b = 64 * 1024 \<Longrightarrow> bufs_ok (BufPool_Put b free)"
  by (auto simp: bufs_ok_def BufPool_Get_def BufPool_Put_def BufPool_New_def
      split: option.splits if_splits) (meson in_set_takeD in_set_dropD)+

section \<open>UDP sockets and the relayer\<close>

text \<open>An address behind Go's interface \<^verbatim>\<open>net.Addr\<close>, and its text.\<close>

datatype net_addr = UDPAddr ip int | OtherAddr string

definition Addr_String :: "net_addr \<Rightarrow> string" where
  "Addr_String x = (case x of
     UDPAddr a port \<Rightarrow> JoinHostPort (if a = [] then [] else IP_String a) (Itoa port)
   | OtherAddr t \<Rightarrow> t)"

record UDPConn =
  u_local :: net_addr
  u_in :: "(net_addr \<times> bytes) list"
  u_broken :: "go_error option"
  u_out :: "(net_addr \<times> bytes) list"
  u_wr :: "go_error option list"
  u_closed :: bool
  u_now :: int
  u_rdl :: "int option"

text \<open>
  \<^verbatim>\<open>ReadFromUDP\<close> into \<open>n\<close> bytes, which cut a longer datagram: closed, past the deadline, a datagram, broken,
  or the deadline passes; \<open>None\<close> is a read that has no deadline and waits for ever.
\<close>

definition ReadFromUDP :: "nat \<Rightarrow> UDPConn \<Rightarrow> ((bytes \<times> net_addr) res \<times> UDPConn) option" where
  "ReadFromUDP n c =
    (if u_closed c then Some (Inl NetErrClosed, c)
     else if (case u_rdl c of None \<Rightarrow> False | Some d \<Rightarrow> d \<le> u_now c) then Some (Inl Timeout, c)
     else case u_in c of
       (a, b) # rest \<Rightarrow> Some (Inr (take n b, a), c\<lparr>u_in := rest\<rparr>)
     | [] \<Rightarrow> (case u_broken c of
           Some e \<Rightarrow> Some (Inl e, c)
         | None \<Rightarrow> (case u_rdl c of None \<Rightarrow> None | Some d \<Rightarrow> Some (Inl Timeout, c\<lparr>u_now := d\<rparr>))))"

definition WriteToUDP :: "bytes \<Rightarrow> net_addr \<Rightarrow> UDPConn \<Rightarrow> nat res \<times> UDPConn" where
  "WriteToUDP b a c =
    (if u_closed c then (Inl NetErrClosed, c)
     else case u_wr c of
       Some e # ws \<Rightarrow> (Inl e, c\<lparr>u_wr := ws\<rparr>)
     | ws \<Rightarrow> (Inr (length b), c\<lparr>u_out := u_out c @ [(a, b)], u_wr := tl ws\<rparr>))"

record DirectUDPRelayer =
  r_conn :: UDPConn

definition NewDirectUDPRelayer :: "UDPConn res \<Rightarrow> DirectUDPRelayer res" where
  "NewDirectUDPRelayer listen = (case listen of Inl e \<Rightarrow> Inl e | Inr c \<Rightarrow> Inr \<lparr>r_conn = c\<rparr>)"

text \<open>\<^verbatim>\<open>Read\<close> fills the front of the buffer.\<close>

definition Relayer_Read ::
  "bytes \<Rightarrow> DirectUDPRelayer \<Rightarrow> ((nat \<times> net_addr) res \<times> bytes \<times> DirectUDPRelayer) option"
where
  "Relayer_Read buf r = (case ReadFromUDP (length buf) (r_conn r) of
     None \<Rightarrow> None
   | Some (Inl e, c) \<Rightarrow> Some (Inl e, buf, r\<lparr>r_conn := c\<rparr>)
   | Some (Inr (b, a), c) \<Rightarrow> Some (Inr (length b, a), b @ drop (length b) buf, r\<lparr>r_conn := c\<rparr>))"

text \<open>The type assertion on the address panics (\<open>None\<close>) for any other kind of address.\<close>

definition Relayer_WriteTo :: "bytes \<Rightarrow> net_addr \<Rightarrow> DirectUDPRelayer \<Rightarrow> (nat res \<times> DirectUDPRelayer) option" where
  "Relayer_WriteTo b addr r = (case addr of
     OtherAddr t \<Rightarrow> None
   | UDPAddr a port \<Rightarrow> (case WriteToUDP b (UDPAddr a port) (r_conn r) of (n, c) \<Rightarrow> Some (n, r\<lparr>r_conn := c\<rparr>)))"

definition Relayer_Close :: "DirectUDPRelayer \<Rightarrow> go_error option \<times> DirectUDPRelayer" where
  "Relayer_Close r = (if u_closed (r_conn r) then (Some NetErrClosed, r)
     else (None, r\<lparr>r_conn := (r_conn r)\<lparr>u_closed := True\<rparr>\<rparr>))"

definition Relayer_SetReadDeadline :: "int \<Rightarrow> DirectUDPRelayer \<Rightarrow> DirectUDPRelayer" where
  "Relayer_SetReadDeadline t r = r\<lparr>r_conn := (r_conn r)\<lparr>u_rdl := Some t\<rparr>\<rparr>"

definition Relayer_LocalAddr :: "DirectUDPRelayer \<Rightarrow> net_addr" where
  "Relayer_LocalAddr r = u_local (r_conn r)"

section \<open>The relay as a step relation\<close>

datatype up_pc = UpReading | UpDone
datatype down_pc = DownReading | DownReturned

record udp_relay =
  ur_stream :: stream
  ur_relay :: DirectUDPRelayer
  ur_up :: up_pc
  ur_down :: down_pc
  ur_cancelled :: bool
  ur_buf :: bytes
  ur_free :: "bytes list"
  ur_arrived :: "(net_addr \<times> bytes) list"

text \<open>\<^verbatim>\<open>ur_arrived\<close> only records the datagrams that have arrived at the socket.\<close>

definition udp_start ::
  "UDPConn res \<Rightarrow> (string \<Rightarrow> ip list res) \<Rightarrow> string \<Rightarrow> byte \<Rightarrow> nat option \<Rightarrow> bytes list \<Rightarrow> stream
     \<Rightarrow> (net_addr \<times> udp_relay) option"
where
  "udp_start listen lookup target strategy pick free s = (case NewDirectUDPRelayer listen of
     Inl e \<Rightarrow> None
   | Inr rel \<Rightarrow> (case resolveUDPAddr lookup target strategy of
       Inl e \<Rightarrow> None
     | Inr (a, port) \<Rightarrow> (case BufPool_Get pick free of (buf, free1) \<Rightarrow>
         Some (UDPAddr a port, \<lparr>ur_stream = s, ur_relay = rel, ur_up = UpReading, ur_down = DownReading,
           ur_cancelled = False, ur_buf = buf, ur_free = free1, ur_arrived = []\<rparr>))))"

text \<open>A round's read, with its deadline five seconds ahead.\<close>

definition udp_read :: "udp_relay \<Rightarrow> ((nat \<times> net_addr) res \<times> bytes \<times> DirectUDPRelayer) option" where
  "udp_read r = Relayer_Read (ur_buf r)
     (Relayer_SetReadDeadline (u_now (r_conn (ur_relay r)) + 5 * 10 ^ 9) (ur_relay r))"

text \<open>The deferred calls of the main routine and of \<^verbatim>\<open>HandleSmuxStream\<close>.\<close>

definition udp_returns :: "udp_relay \<Rightarrow> udp_relay" where
  "udp_returns r = r\<lparr>ur_down := DownReturned, ur_cancelled := True, ur_relay := snd (Relayer_Close (ur_relay r)),
     ur_free := BufPool_Put (ur_buf r) (ur_free r), ur_stream := Close (ur_stream r)\<rparr>"

text \<open>
  The steps: the goroutine from the stream (\<open>up_\<close>), the main routine (\<open>down_\<close>), and the arrival of a datagram,
  the only step with a label. A datagram fits a UDP packet and comes from an address of either family.
\<close>

definition datagram_ok :: "net_addr \<Rightarrow> bytes \<Rightarrow> bool" where
  "datagram_ok x b \<longleftrightarrow> length b \<le> 65507 \<and> (case x of
     OtherAddr t \<Rightarrow> False
   | UDPAddr a port \<Rightarrow> length a \<in> {4, 16} \<and> 0 \<le> port \<and> port \<le> 65535)"

inductive udp_step :: "net_addr \<Rightarrow> (net_addr \<times> bytes) option \<Rightarrow> udp_relay \<Rightarrow> udp_relay \<Rightarrow> bool" for target where
  up_error: "ur_up r = UpReading \<Longrightarrow> \<not> s_closed (ur_stream r) \<Longrightarrow> relay_readChunk (ur_stream r) = (Inl e, s1) \<Longrightarrow>
    udp_step target None r (r\<lparr>ur_stream := s1, ur_up := UpDone, ur_cancelled := True\<rparr>)"
| up_closed: "ur_up r = UpReading \<Longrightarrow> s_closed (ur_stream r) \<Longrightarrow>
    udp_step target None r (r\<lparr>ur_up := UpDone, ur_cancelled := True\<rparr>)"
| up_empty: "ur_up r = UpReading \<Longrightarrow> \<not> s_closed (ur_stream r) \<Longrightarrow> relay_readChunk (ur_stream r) = (Inr [], s1) \<Longrightarrow>
    udp_step target None r (r\<lparr>ur_stream := s1\<rparr>)"
| up_send: "ur_up r = UpReading \<Longrightarrow> \<not> s_closed (ur_stream r) \<Longrightarrow> relay_readChunk (ur_stream r) = (Inr b, s1) \<Longrightarrow>
    b \<noteq> [] \<Longrightarrow> Relayer_WriteTo b target (ur_relay r) = Some (Inr n, rel) \<Longrightarrow>
    udp_step target None r (r\<lparr>ur_stream := s1, ur_relay := rel\<rparr>)"
| up_send_error: "ur_up r = UpReading \<Longrightarrow> \<not> s_closed (ur_stream r) \<Longrightarrow> relay_readChunk (ur_stream r) = (Inr b, s1) \<Longrightarrow>
    b \<noteq> [] \<Longrightarrow> Relayer_WriteTo b target (ur_relay r) = Some (Inl e, rel) \<Longrightarrow>
    udp_step target None r (r\<lparr>ur_stream := s1, ur_relay := rel, ur_up := UpDone, ur_cancelled := True\<rparr>)"
| down_reply: "ur_down r = DownReading \<Longrightarrow> udp_read r = Some (Inr (n, a), buf, rel) \<Longrightarrow>
    relay_writeUDPReply (Addr_String a) (take n buf) (ur_stream r) = (Inr (), s1) \<Longrightarrow>
    udp_step target None r (r\<lparr>ur_stream := s1, ur_relay := rel, ur_buf := buf\<rparr>)"
| down_reply_error: "ur_down r = DownReading \<Longrightarrow> udp_read r = Some (Inr (n, a), buf, rel) \<Longrightarrow>
    relay_writeUDPReply (Addr_String a) (take n buf) (ur_stream r) = (Inl e, s1) \<Longrightarrow>
    udp_step target None r (udp_returns (r\<lparr>ur_stream := s1, ur_relay := rel, ur_buf := buf\<rparr>))"
| down_again: "ur_down r = DownReading \<Longrightarrow> udp_read r = Some (Inl Timeout, buf, rel) \<Longrightarrow> \<not> ur_cancelled r \<Longrightarrow>
    udp_step target None r (r\<lparr>ur_relay := rel, ur_buf := buf\<rparr>)"
| down_cancelled: "ur_down r = DownReading \<Longrightarrow> udp_read r = Some (Inl Timeout, buf, rel) \<Longrightarrow> ur_cancelled r \<Longrightarrow>
    udp_step target None r (udp_returns (r\<lparr>ur_relay := rel, ur_buf := buf\<rparr>))"
| down_error: "ur_down r = DownReading \<Longrightarrow> udp_read r = Some (Inl e, buf, rel) \<Longrightarrow> e \<noteq> Timeout \<Longrightarrow>
    udp_step target None r (udp_returns (r\<lparr>ur_relay := rel, ur_buf := buf\<rparr>))"
| arrive: "\<not> u_closed (r_conn (ur_relay r)) \<Longrightarrow> datagram_ok a b \<Longrightarrow>
    udp_step target (Some (a, b)) r (r\<lparr>ur_arrived := ur_arrived r @ [(a, b)],
      ur_relay := (ur_relay r)\<lparr>r_conn := (r_conn (ur_relay r))\<lparr>u_in := u_in (r_conn (ur_relay r)) @ [(a, b)]\<rparr>\<rparr>\<rparr>)"

inductive_cases udp_stepE: "udp_step target l r r'"

inductive udp_reach :: "net_addr \<Rightarrow> udp_relay \<Rightarrow> udp_relay \<Rightarrow> bool" for target r0 where
  udp_init: "udp_reach target r0 r0"
| udp_next: "udp_reach target r0 r \<Longrightarrow> udp_step target l r r' \<Longrightarrow> udp_reach target r0 r'"

section \<open>Facts\<close>

text \<open>The text of a datagram's source fits the reply's length field.\<close>

lemma hex_of_nat_length: "n < 16 ^ Suc k \<Longrightarrow> length (hex_of_nat n) \<le> Suc k"
proof (induction k arbitrary: n)
  case (Suc k)
  then have "n div 16 < 16 ^ Suc k" by (simp add: less_mult_imp_div_less)
  with Suc.IH show ?case by (subst hex_of_nat.simps) simp
qed (subst hex_of_nat.simps, simp)

lemma join_colon_length: "list_all (\<lambda>t. length t \<le> k) ts \<Longrightarrow> length (join_colon ts) \<le> Suc k * length ts"
  by (induction ts rule: join_colon.induct) auto

lemma ip_groups_facts: "length (ip_groups a) = length a div 2 \<and> list_all (\<lambda>g. g < 65536) (ip_groups a)"
  by (induction a rule: ip_groups.induct) auto

lemma join_groups_length:
  assumes "list_all (\<lambda>g. g < 65536) gs"
  shows "length (join_colon (List.map hex_of_nat gs)) \<le> 5 * length gs"
proof -
  have "list_all (\<lambda>t. length t \<le> 4) (List.map hex_of_nat gs)"
    using assms hex_of_nat_length [of _ 3] by (auto simp: list_all_iff)
  from join_colon_length [OF this] show ?thesis by simp
qed

lemma list_all_parts: "list_all P xs \<Longrightarrow> list_all P (take i xs)" "list_all P xs \<Longrightarrow> list_all P (drop i xs)"
  by (auto simp: list_all_iff dest: in_set_takeD in_set_dropD)

lemma IP_String_length:
  assumes "length a \<in> {4, 16}"
  shows "length (IP_String a) \<le> 82"
proof (cases "To4 a")
  case None
  then have l: "length a = 16" using assms by (auto simp: To4_def)
  have "length (join_colon (List.map hex_of_nat gs)) \<le> 40"
    if "list_all (\<lambda>g. g < 65536) gs" "length gs \<le> 8" for gs
    using join_groups_length [OF that(1)] that(2) by linarith
  from this [of "ip_groups a"] this [of "take _ (ip_groups a)"] this [of "drop _ (ip_groups a)"]
  have "length (ipv6_text a) \<le> 82"
    using l ip_groups_facts [of a]
    by (auto simp: ipv6_text_def Let_def list_all_parts split: option.split intro!: add_mono [of _ 40 _ 40, simplified])
  with None l show ?thesis by (auto simp: IP_String_def)
next
  case (Some b)
  with length_dotted [of b] show ?thesis by (auto simp: IP_String_def)
qed

lemma Addr_String_length: "datagram_ok x b \<Longrightarrow> length (Addr_String x) \<le> 65535"
proof (cases x)
  case (UDPAddr a port)
  assume "datagram_ok x b"
  then have a: "length a \<in> {4, 16}" "0 \<le> port" "port \<le> 65535" by (auto simp: datagram_ok_def UDPAddr)
  have "length (Itoa port) \<le> 5" using a length_dec_of_nat(5) [of "nat port"] by (simp add: Itoa_def)
  with IP_String_length [OF a(1)] a(1) show ?thesis by (auto simp: Addr_String_def JoinHostPort_def UDPAddr)
qed (simp add: datagram_ok_def)

text \<open>What reading a chunk and writing a reply leave alone.\<close>

lemma relay_readChunk_frame:
  "relay_readChunk s = (x, s1) \<Longrightarrow> s_out s1 = s_out s \<and> s_wr s1 = s_wr s \<and> s_closed s1 = s_closed s"
  by (auto simp: relay_readChunk_def ReadFull_def ReadFull_into_def Let_def split: if_splits)

lemma relay_writeUDPReply_frame:
  assumes "relay_writeUDPReply a d s = (x, s1)"
  shows "s_in s1 = s_in s \<and> s_end s1 = s_end s \<and> s_closed s1 = s_closed s"
  using assms
  by (auto simp: relay_writeUDPReply_def split: if_splits prod.splits sum.splits dest!: Write_frame)

lemma relay_writeUDPReply_appends:
  assumes "length a \<le> 65535"
  shows "appends (relay_writeUDPReply a d) (udp_reply_enc (a, d))"
proof -
  from assms show ?thesis
    unfolding relay_writeUDPReply_def [abs_def]
    using appends_bind [OF appends_Write [of "put_u16 (of_nat (length a)) @ put_u16 (of_nat (length d))"],
        OF appends_bind [OF appends_if [of "str_bytes a" "length a"], OF _ appends_bind [OF appends_if [of d "length d"],
        OF _ appends_nothing [of "()"]]]]
    by (simp add: udp_reply_enc_def)
qed

lemma relay_readChunk_cong:
  "s_in s = s_in t \<Longrightarrow> relay_readChunk s = (Inr b, s1) \<Longrightarrow> \<exists>t1. relay_readChunk t = (Inr b, t1) \<and> s_in t1 = s_in s1"
  by (auto simp: relay_readChunk_def ReadFull_def ReadFull_into_def Let_def split: if_splits)

text \<open>The chunks on a stream depend on what is to be read alone.\<close>

lemma udp_up_cong: "s_in s = s_in t \<Longrightarrow> udp_up ok s = udp_up ok t"
proof (induction ok s arbitrary: t rule: udp_up.induct)
  case (1 ok s)
  obtain x s1 where x: "relay_readChunk s = (x, s1)" by fastforce
  show ?case
  proof (cases x)
    case (Inl e)
    moreover have "fst (relay_readChunk t) \<noteq> Inr b" for b
    proof
      assume "fst (relay_readChunk t) = Inr b"
      then obtain t1 where "relay_readChunk t = (Inr b, t1)" by (cases "relay_readChunk t") auto
      from relay_readChunk_cong [OF 1(3) [symmetric] this] x Inl show False by auto
    qed
    then obtain e' t1 where "relay_readChunk t = (Inl e', t1)"
      by (cases "relay_readChunk t"; cases "fst (relay_readChunk t)") auto
    ultimately show ?thesis using x by (subst (1 2) udp_up.simps) simp
  next
    case (Inr b)
    with x relay_readChunk_cong [OF 1(3)] obtain t1 where t1: "relay_readChunk t = (Inr b, t1)" "s_in t1 = s_in s1"
      by blast
    show ?thesis
      using 1(1) [OF x [symmetric] Inr, of t1] 1(2) [OF x [symmetric] Inr, of t1] x Inr t1
      by (subst (1 2) udp_up.simps) auto
  qed
qed

section \<open>What the relay keeps\<close>

definition reply_enc :: "net_addr \<times> bytes \<Rightarrow> bytes" where
  "reply_enc m = udp_reply_enc (Addr_String (fst m), snd m)"

text \<open>Control and buffers; the datagrams sent; the replies written. \<open>s0\<close> is the stream at the start.\<close>

definition udp_ctl_inv :: "udp_relay \<Rightarrow> bool" where
  "udp_ctl_inv r \<longleftrightarrow> list_all (\<lambda>(a, b). datagram_ok a b) (ur_arrived r)
     \<and> length (ur_buf r) = 64 * 1024 \<and> bufs_ok (ur_free r)
     \<and> (u_closed (r_conn (ur_relay r)) \<longleftrightarrow> ur_down r = DownReturned)
     \<and> (s_closed (ur_stream r) \<longleftrightarrow> ur_down r = DownReturned)
     \<and> (ur_cancelled r \<longleftrightarrow> ur_down r = DownReturned \<or> ur_up r = UpDone)"

definition udp_up_inv :: "net_addr \<Rightarrow> stream \<Rightarrow> udp_relay \<Rightarrow> bool" where
  "udp_up_inv target s0 r \<longleftrightarrow> (let sent = u_out (r_conn (ur_relay r)) in
     (\<forall>m \<in> set sent. fst m = target) \<and> (\<exists>tail. udp_up (\<lambda>_. True) s0 = List.map snd sent @ tail)
     \<and> (ur_up r = UpReading \<longrightarrow> udp_up (\<lambda>_. True) s0 = List.map snd sent @ udp_up (\<lambda>_. True) (ur_stream r)))"

definition udp_down_inv :: "stream \<Rightarrow> udp_relay \<Rightarrow> bool" where
  "udp_down_inv s0 r \<longleftrightarrow>
     (\<exists>tail. s_out s0 @ concat (List.map reply_enc (ur_arrived r)) = s_out (ur_stream r) @ tail)
     \<and> (ur_down r = DownReading \<longrightarrow> (\<exists>replied. ur_arrived r = replied @ u_in (r_conn (ur_relay r))
          \<and> s_out (ur_stream r) = s_out s0 @ concat (List.map reply_enc replied)))"

text \<open>What a round's read can return while the main routine runs.\<close>

lemma udp_read_facts:
  assumes "udp_read r = Some (x, buf, rel)" "udp_ctl_inv r" "ur_down r = DownReading"
  shows "length buf = 64 * 1024 \<and> \<not> u_closed (r_conn rel) \<and> u_out (r_conn rel) = u_out (r_conn (ur_relay r))
    \<and> u_broken (r_conn rel) = u_broken (r_conn (ur_relay r))
    \<and> (case x of
        Inl e \<Rightarrow> u_in (r_conn (ur_relay r)) = [] \<and> u_in (r_conn rel) = []
          \<and> (e = Timeout \<or> u_broken (r_conn (ur_relay r)) = Some e)
      | Inr (n, a) \<Rightarrow> \<exists>b. u_in (r_conn (ur_relay r)) = (a, b) # u_in (r_conn rel)
          \<and> (length b \<le> 64 * 1024 \<longrightarrow> take n buf = b))"
proof -
  have c: "\<not> u_closed (r_conn (ur_relay r))" "length (ur_buf r) = 64 * 1024"
    using assms(2,3) by (auto simp: udp_ctl_inv_def)
  show ?thesis
  proof (cases "u_in (r_conn (ur_relay r))")
    case Nil
    with assms(1) c show ?thesis
      by (auto simp: udp_read_def Relayer_Read_def ReadFromUDP_def Relayer_SetReadDeadline_def
          split: option.splits)
  next
    case (Cons m rest)
    with assms(1) c show ?thesis
      by (cases m) (auto simp: udp_read_def Relayer_Read_def ReadFromUDP_def Relayer_SetReadDeadline_def)
  qed
qed

lemma udp_returns_sel [simp]:
  "ur_down (udp_returns r) = DownReturned" "ur_cancelled (udp_returns r)" "ur_up (udp_returns r) = ur_up r"
  "ur_buf (udp_returns r) = ur_buf r" "ur_free (udp_returns r) = ur_buf r # ur_free r"
  "ur_arrived (udp_returns r) = ur_arrived r" "s_closed (ur_stream (udp_returns r))"
  "s_out (ur_stream (udp_returns r)) = s_out (ur_stream r)" "s_in (ur_stream (udp_returns r)) = s_in (ur_stream r)"
  "u_closed (r_conn (ur_relay (udp_returns r)))"
  "u_out (r_conn (ur_relay (udp_returns r))) = u_out (r_conn (ur_relay r))"
  "u_in (r_conn (ur_relay (udp_returns r))) = u_in (r_conn (ur_relay r))"
  by (simp_all add: udp_returns_def Relayer_Close_def Close_def BufPool_Put_def)

text \<open>A send adds the datagram when it succeeds and changes nothing else that is kept.\<close>

lemma Relayer_WriteTo_facts:
  "Relayer_WriteTo b a rel = Some (x, rel') \<Longrightarrow>
     u_out (r_conn rel') = u_out (r_conn rel) @ (case x of Inl e \<Rightarrow> [] | Inr n \<Rightarrow> [(a, b)])
     \<and> u_in (r_conn rel') = u_in (r_conn rel) \<and> u_closed (r_conn rel') = u_closed (r_conn rel)
     \<and> u_broken (r_conn rel') = u_broken (r_conn rel)"
  by (auto simp: Relayer_WriteTo_def WriteToUDP_def split: net_addr.splits if_splits list.splits option.splits)

lemma udp_step_ctl:
  assumes "udp_step target l r r'" "udp_ctl_inv r"
  shows "udp_ctl_inv r'"
  using assms(1)
proof cases
  case (down_reply n a buf rel s1)
  from udp_read_facts [OF down_reply(4) assms(2) down_reply(3)] relay_writeUDPReply_frame [OF down_reply(5)]
    assms(2) down_reply show ?thesis by (auto simp: udp_ctl_inv_def)
next
  case (down_reply_error n a buf rel e s1)
  from udp_read_facts [OF down_reply_error(4) assms(2) down_reply_error(3)] assms(2) down_reply_error
  show ?thesis by (auto simp: udp_ctl_inv_def bufs_ok_def)
next
  case (down_again buf rel)
  from udp_read_facts [OF down_again(4) assms(2) down_again(3)] assms(2) down_again
  show ?thesis by (auto simp: udp_ctl_inv_def)
next
  case (down_cancelled buf rel)
  from udp_read_facts [OF down_cancelled(4) assms(2) down_cancelled(3)] assms(2) down_cancelled
  show ?thesis by (auto simp: udp_ctl_inv_def bufs_ok_def)
next
  case (down_error e buf rel)
  from udp_read_facts [OF down_error(4) assms(2) down_error(3)] assms(2) down_error
  show ?thesis by (auto simp: udp_ctl_inv_def bufs_ok_def)
qed (use assms(2) in \<open>auto simp: udp_ctl_inv_def dest!: relay_readChunk_frame Relayer_WriteTo_facts\<close>)

lemma udp_up_unfold:
  "relay_readChunk s = (Inr [], s1) \<Longrightarrow> udp_up (\<lambda>_. True) s = udp_up (\<lambda>_. True) s1"
  "relay_readChunk s = (Inr b, s1) \<Longrightarrow> b \<noteq> [] \<Longrightarrow> udp_up (\<lambda>_. True) s = b # udp_up (\<lambda>_. True) s1"
  by (subst udp_up.simps, simp)+

lemma udp_up_frame:
  assumes "udp_up_inv target s0 r" "u_out (r_conn (ur_relay r')) = u_out (r_conn (ur_relay r))"
    "ur_up r' = UpReading \<longrightarrow> ur_up r = UpReading \<and> udp_up (\<lambda>_. True) (ur_stream r') = udp_up (\<lambda>_. True) (ur_stream r)"
  shows "udp_up_inv target s0 r'"
  using assms unfolding udp_up_inv_def by (simp add: Let_def)

lemma udp_step_up:
  assumes "udp_step target l r r'" "udp_up_inv target s0 r" "udp_ctl_inv r"
  shows "udp_up_inv target s0 r'"
  using assms(1)
proof cases
  case (up_empty s1)
  with assms(2) udp_up_unfold(1) [OF up_empty(5)] show ?thesis by (intro udp_up_frame [OF assms(2)]) auto
next
  case (up_send b s1 n rel)
  from Relayer_WriteTo_facts [OF up_send(7)] udp_up_unfold(2) [OF up_send(5,6)] assms(2) up_send(1-3)
  show ?thesis by (simp add: udp_up_inv_def Let_def)
next
  case (up_send_error b s1 e rel)
  with Relayer_WriteTo_facts [OF up_send_error(7)] show ?thesis by (intro udp_up_frame [OF assms(2)]) auto
next
  case (down_reply n a buf rel s1)
  from udp_read_facts [OF down_reply(4) assms(3) down_reply(3)]
    udp_up_cong [of s1 "ur_stream r" "\<lambda>_. True"] relay_writeUDPReply_frame [OF down_reply(5)] down_reply(2)
  show ?thesis by (intro udp_up_frame [OF assms(2)]) auto
next
  case (down_reply_error n a buf rel e s1)
  from udp_read_facts [OF down_reply_error(4) assms(3) down_reply_error(3)]
    udp_up_cong [of "ur_stream r'" "ur_stream r" "\<lambda>_. True"]
    relay_writeUDPReply_frame [OF down_reply_error(5)] down_reply_error(2)
  show ?thesis by (intro udp_up_frame [OF assms(2)]) auto
next
  case (down_again buf rel)
  from udp_read_facts [OF down_again(4) assms(3) down_again(3)] down_again(2)
  show ?thesis by (intro udp_up_frame [OF assms(2)]) auto
next
  case (down_cancelled buf rel)
  from udp_read_facts [OF down_cancelled(4) assms(3) down_cancelled(3)] down_cancelled(2)
    udp_up_cong [of "ur_stream r'" "ur_stream r" "\<lambda>_. True"]
  show ?thesis by (intro udp_up_frame [OF assms(2)]) auto
next
  case (down_error e buf rel)
  from udp_read_facts [OF down_error(4) assms(3) down_error(3)] down_error(2)
    udp_up_cong [of "ur_stream r'" "ur_stream r" "\<lambda>_. True"]
  show ?thesis by (intro udp_up_frame [OF assms(2)]) auto
qed (intro udp_up_frame [OF assms(2)]; simp)+

text \<open>The next datagram in the queue is one that fits the buffer and the reply.\<close>

lemma udp_next_packet:
  assumes "udp_read r = Some (Inr (n, a), buf, rel)" "udp_ctl_inv r" "udp_down_inv s0 r" "ur_down r = DownReading"
  obtains replied b where "ur_arrived r = replied @ (a, b) # u_in (r_conn rel)" "take n buf = b" "datagram_ok a b"
    "s_out (ur_stream r) = s_out s0 @ concat (List.map reply_enc replied)"
proof -
  from udp_read_facts [OF assms(1,2,4)] obtain b where b: "u_in (r_conn (ur_relay r)) = (a, b) # u_in (r_conn rel)"
    "length b \<le> 64 * 1024 \<longrightarrow> take n buf = b" by auto
  from assms(3,4) obtain replied where r: "ur_arrived r = replied @ u_in (r_conn (ur_relay r))"
    "s_out (ur_stream r) = s_out s0 @ concat (List.map reply_enc replied)" by (auto simp: udp_down_inv_def)
  with b(1) have "ur_arrived r = replied @ (a, b) # u_in (r_conn rel)" by simp
  with assms(2) have "datagram_ok a b" by (simp add: udp_ctl_inv_def)
  moreover from this have "length b \<le> 64 * 1024" by (simp add: datagram_ok_def)
  ultimately show thesis using that b r by auto
qed

lemma udp_down_frame:
  assumes "udp_down_inv s0 r" "s_out (ur_stream r') = s_out (ur_stream r)"
    "ur_arrived r' = ur_arrived r" "ur_down r' = DownReading \<longrightarrow> ur_down r = DownReading
      \<and> u_in (r_conn (ur_relay r')) = u_in (r_conn (ur_relay r))"
  shows "udp_down_inv s0 r'"
  using assms unfolding udp_down_inv_def by simp

lemma udp_step_down:
  assumes "udp_step target l r r'" "udp_down_inv s0 r" "udp_ctl_inv r"
  shows "udp_down_inv s0 r'"
  using assms(1)
proof cases
  case (down_reply n a buf rel s1)
  from down_reply(4) assms(3,2) down_reply(3) obtain replied b where
    b: "ur_arrived r = replied @ (a, b) # u_in (r_conn rel)" "take n buf = b" "datagram_ok a b"
      "s_out (ur_stream r) = s_out s0 @ concat (List.map reply_enc replied)" by (rule udp_next_packet)
  from relay_writeUDPReply_appends [OF Addr_String_length [OF b(3)]] down_reply(5) b(2)
  have "s_out s1 = s_out (ur_stream r) @ reply_enc (a, b)" unfolding appends_def reply_enc_def by simp
  with b(1,4) down_reply(2) show ?thesis
    unfolding udp_down_inv_def by (intro conjI impI exI [of _ "replied @ [(a, b)]"]) simp_all
next
  case (down_reply_error n a buf rel e s1)
  from down_reply_error(4) assms(3,2) down_reply_error(3) obtain replied b where
    b: "ur_arrived r = replied @ (a, b) # u_in (r_conn rel)" "take n buf = b" "datagram_ok a b"
      "s_out (ur_stream r) = s_out s0 @ concat (List.map reply_enc replied)" by (rule udp_next_packet)
  from relay_writeUDPReply_appends [OF Addr_String_length [OF b(3)]] down_reply_error(5) b(2)
  obtain k where "s_out s1 = s_out (ur_stream r) @ take k (reply_enc (a, b))"
    unfolding appends_def reply_enc_def by fastforce
  then have "s_out s0 @ concat (List.map reply_enc (ur_arrived r))
      = s_out s1 @ drop k (reply_enc (a, b)) @ concat (List.map reply_enc (u_in (r_conn rel)))"
    using b(1,4) by simp
  with down_reply_error(2) show ?thesis unfolding udp_down_inv_def by auto
next
  case (up_send b s1 n rel)
  from Relayer_WriteTo_facts [OF up_send(7)] relay_readChunk_frame [OF up_send(5)] up_send(2)
  show ?thesis by (intro udp_down_frame [OF assms(2)]) auto
next
  case (up_send_error b s1 n rel)
  from Relayer_WriteTo_facts [OF up_send_error(7)] relay_readChunk_frame [OF up_send_error(5)] up_send_error(2)
  show ?thesis by (intro udp_down_frame [OF assms(2)]) auto
next
  case (down_again buf rel)
  from udp_read_facts [OF down_again(4) assms(3) down_again(3)] down_again(2)
  show ?thesis by (intro udp_down_frame [OF assms(2)]) auto
next
  case (arrive a b)
  from assms(2) obtain tail where
    "s_out s0 @ concat (List.map reply_enc (ur_arrived r)) = s_out (ur_stream r) @ tail"
    unfolding udp_down_inv_def by blast
  then have "\<exists>tail. s_out s0 @ concat (List.map reply_enc (ur_arrived r)) @ reply_enc (a, b)
      = s_out (ur_stream r) @ tail" by (metis append.assoc)
  with assms(2) arrive show ?thesis unfolding udp_down_inv_def by auto
qed (intro udp_down_frame [OF assms(2)]; simp add: relay_readChunk_frame)+

text \<open>A relay begun on an open stream and a fresh socket.\<close>

definition udp_begun :: "net_addr \<Rightarrow> udp_relay \<Rightarrow> bool" where
  "udp_begun target r \<longleftrightarrow> ur_up r = UpReading \<and> ur_down r = DownReading \<and> \<not> ur_cancelled r \<and> ur_arrived r = []
     \<and> length (ur_buf r) = 64 * 1024 \<and> bufs_ok (ur_free r) \<and> \<not> s_closed (ur_stream r)
     \<and> u_in (r_conn (ur_relay r)) = [] \<and> u_out (r_conn (ur_relay r)) = [] \<and> \<not> u_closed (r_conn (ur_relay r))
     \<and> (\<exists>a port. target = UDPAddr a port)"

lemma udp_start_begun:
  assumes "udp_start (Inr c) lookup name strategy pick free s = Some (target, r)"
    "bufs_ok free" "\<not> s_closed s" "u_in c = []" "u_out c = []" "\<not> u_closed c"
  shows "udp_begun target r \<and> ur_stream r = s
    \<and> (\<exists>a port. target = UDPAddr a port \<and> resolveUDPAddr lookup name strategy = Inr (a, port))"
proof -
  obtain buf free1 where g: "BufPool_Get pick free = (buf, free1)" by fastforce
  with assms BufPool_inv(1) [OF assms(2) g] show ?thesis
    by (auto simp: udp_start_def NewDirectUDPRelayer_def udp_begun_def split: sum.splits)
qed

lemma udp_begun_inv:
  "udp_begun target r \<Longrightarrow> udp_ctl_inv r \<and> udp_up_inv target (ur_stream r) r \<and> udp_down_inv (ur_stream r) r"
  by (simp add: udp_begun_def udp_ctl_inv_def udp_up_inv_def udp_down_inv_def)

lemma udp_reach_inv:
  assumes "udp_reach target r0 r" "udp_begun target r0"
  shows "udp_ctl_inv r \<and> udp_up_inv target (ur_stream r0) r \<and> udp_down_inv (ur_stream r0) r"
  using assms(1)
proof induction
  case udp_init
  show ?case using udp_begun_inv [OF assms(2)] .
next
  case (udp_next r l r')
  then show ?case using udp_step_ctl udp_step_up udp_step_down by blast
qed

section \<open>How it ends\<close>

text \<open>Every step but an arrival uses up input, a datagram or a goroutine, once the relay is cancelled.\<close>

definition udp_size :: "udp_relay \<Rightarrow> nat" where
  "udp_size r = length (s_in (ur_stream r)) + length (u_in (r_conn (ur_relay r)))
     + (case ur_up r of UpReading \<Rightarrow> 1 | UpDone \<Rightarrow> 0) + (case ur_down r of DownReading \<Rightarrow> 1 | DownReturned \<Rightarrow> 0)"

lemma relay_readChunk_le: "relay_readChunk s = (x, s1) \<Longrightarrow> length (s_in s1) \<le> length (s_in s)"
  by (auto simp: relay_readChunk_def ReadFull_def ReadFull_into_def Let_def split: if_splits)

lemma udp_step_size:
  assumes "udp_step target None r r'" "ur_cancelled r" "udp_ctl_inv r"
  shows "udp_size r' < udp_size r \<and> ur_cancelled r'"
  using assms(1)
proof cases
  case (up_error e s1)
  with relay_readChunk_le [OF up_error(4)] assms(2) show ?thesis by (simp add: udp_size_def)
next
  case (up_empty s1)
  with relay_readChunk_shorter [OF up_empty(4)] assms(2) show ?thesis by (simp add: udp_size_def)
next
  case (up_send b s1 n rel)
  with relay_readChunk_shorter [OF up_send(4)] Relayer_WriteTo_facts [OF up_send(6)] assms(2)
  show ?thesis by (simp add: udp_size_def)
next
  case (up_send_error b s1 e rel)
  with relay_readChunk_shorter [OF up_send_error(4)] Relayer_WriteTo_facts [OF up_send_error(6)] assms(2)
  show ?thesis by (simp add: udp_size_def)
next
  case (down_reply n a buf rel s1)
  from udp_read_facts [OF down_reply(3) assms(3) down_reply(2)] relay_writeUDPReply_frame [OF down_reply(4)]
    down_reply(1) assms(2) show ?thesis by (auto simp: udp_size_def)
next
  case (down_reply_error n a buf rel e s1)
  from udp_read_facts [OF down_reply_error(3) assms(3) down_reply_error(2)]
    relay_writeUDPReply_frame [OF down_reply_error(4)] down_reply_error(1,2) show ?thesis by (auto simp: udp_size_def)
next
  case (down_cancelled buf rel)
  from udp_read_facts [OF down_cancelled(3) assms(3) down_cancelled(2)] down_cancelled(1,2)
  show ?thesis by (auto simp: udp_size_def)
next
  case (down_error e buf rel)
  from udp_read_facts [OF down_error(3) assms(3) down_error(2)] down_error(1,2)
  show ?thesis by (auto simp: udp_size_def)
qed (use assms(2) in \<open>simp_all add: udp_size_def\<close>)

text \<open>Neither goroutine can be stuck.\<close>

lemma udp_progress:
  assumes "udp_ctl_inv r" "\<nexists>r'. udp_step (UDPAddr a port) None r r'"
  shows "ur_up r = UpDone \<and> ur_down r = DownReturned"
proof (rule conjI; rule ccontr)
  assume "ur_up r \<noteq> UpDone"
  then have u: "ur_up r = UpReading" by (cases "ur_up r") auto
  obtain x s1 where x: "relay_readChunk (ur_stream r) = (x, s1)" by fastforce
  obtain y rel where w: "Relayer_WriteTo (projr x) (UDPAddr a port) (ur_relay r) = Some (y, rel)"
    by (cases "WriteToUDP (projr x) (UDPAddr a port) (r_conn (ur_relay r))") (simp add: Relayer_WriteTo_def)
  show False
  proof (cases x)
    case (Inl e)
    with u x assms(2) show False by (blast intro: up_error up_closed)
  next
    case (Inr b)
    show False
    proof (cases "s_closed (ur_stream r) \<or> b = []")
      case True
      with u x Inr assms(2) show False by (blast intro: up_closed up_empty)
    next
      case False
      with u x w Inr assms(2) show False
        by (cases y) (auto intro: up_send up_send_error)
    qed
  qed
next
  assume "ur_down r \<noteq> DownReturned"
  then have d: "ur_down r = DownReading" by (cases "ur_down r") auto
  have "udp_read r \<noteq> None"
    by (auto simp: udp_read_def Relayer_Read_def ReadFromUDP_def Relayer_SetReadDeadline_def
        split: list.split option.split)
  then obtain x buf rel where x: "udp_read r = Some (x, buf, rel)" by auto
  show False
  proof (cases x)
    case (Inl e)
    with d x assms(2) show False by (cases "e = Timeout"; cases "ur_cancelled r") (blast intro: down_again down_cancelled down_error)+
  next
    case (Inr m)
    obtain n b where m: "m = (n, b)" by fastforce
    obtain y s1 where "relay_writeUDPReply (Addr_String b) (take n buf) (ur_stream r) = (y, s1)" by fastforce
    with d x Inr m assms(2) show False by (cases y) (auto intro: down_reply down_reply_error)
  qed
qed

interpretation udp_run: converging "udp_step target None" "\<lambda>r. ur_cancelled r \<and> udp_ctl_inv r" udp_size for target
  by unfold_locales (use udp_step_size udp_step_ctl in blast)

lemma reply_enc_sequence:
  assumes "list_all (\<lambda>(a, b). datagram_ok a b) ms" "s_in c = concat (List.map reply_enc ms) @ rest"
  shows "\<exists>c'. read_n client_readUDPReply (length ms) c = (Inr (List.map (\<lambda>(a, b). (Addr_String a, b)) ms), c')
    \<and> s_in c' = rest"
proof -
  let ?ms = "List.map (\<lambda>(a, b). (Addr_String a, b)) ms"
  have "list_all (\<lambda>(a, d). length a \<le> 65535 \<and> length d < 65536) ?ms"
    using assms(1) Addr_String_length by (fastforce simp: list_all_iff datagram_ok_def)
  moreover have "concat (List.map udp_reply_enc ?ms) = concat (List.map reply_enc ms)"
    by (induction ms) (auto simp: reply_enc_def)
  with assms(2) have "s_in c = concat (List.map udp_reply_enc ?ms) @ rest" by (simp only:)
  ultimately have "\<exists>c'. read_n client_readUDPReply (length ?ms) c = (Inr ?ms, c') \<and> s_in c' = rest"
    by (rule udp.read_n_enc)
  then show ?thesis by (simp only: length_map)
qed

lemma map_Pair_snd: "\<forall>m \<in> set ms. fst m = a \<Longrightarrow> ms = List.map (Pair a) (List.map snd ms)"
  by (induction ms) auto

text \<open>One more datagram arrives and is passed on.\<close>

lemma udp_one_more:
  assumes "udp_reach target r0 r" "udp_ctl_inv r" "ur_down r = DownReading" "s_wr (ur_stream r) = []"
    "u_in (r_conn (ur_relay r)) = []" "datagram_ok a b"
  shows "\<exists>r'. udp_reach target r0 r' \<and> ur_down r' = DownReading \<and> s_wr (ur_stream r') = []
    \<and> u_in (r_conn (ur_relay r')) = [] \<and> ur_up r' = ur_up r \<and> ur_arrived r' = ur_arrived r @ [(a, b)]
    \<and> s_out (ur_stream r') = s_out (ur_stream r) @ reply_enc (a, b)"
proof -
  let ?c = "r_conn (ur_relay r)"
  let ?r = "r\<lparr>ur_arrived := ur_arrived r @ [(a, b)], ur_relay := (ur_relay r)\<lparr>r_conn := ?c\<lparr>u_in := u_in ?c @ [(a, b)]\<rparr>\<rparr>\<rparr>"
  let ?rel = "(ur_relay r)\<lparr>r_conn := ?c\<lparr>u_in := [], u_rdl := Some (u_now ?c + 5 * 10 ^ 9)\<rparr>\<rparr>"
  have open_: "\<not> u_closed ?c" "length (ur_buf r) = 65536" using assms(2,3) by (auto simp: udp_ctl_inv_def)
  have len: "length b \<le> 65507" "length (Addr_String a) \<le> 65535"
    using assms(6) Addr_String_length [OF assms(6)] by (auto simp: datagram_ok_def)
  have 1: "udp_step target (Some (a, b)) r ?r" using open_ assms(6) by (intro arrive) auto
  have rd: "udp_read ?r = Some (Inr (length b, a), b @ drop (length b) (ur_buf r), ?rel)"
    using assms(5) open_ len by (simp add: udp_read_def Relayer_Read_def ReadFromUDP_def Relayer_SetReadDeadline_def)
  from udp.wr_enc [of "(Addr_String a, b)" "ur_stream r"] len assms(4) obtain s1 where
    s1: "relay_writeUDPReply (Addr_String a) b (ur_stream r) = (Inr (), s1)"
      "s_out s1 = s_out (ur_stream r) @ udp_reply_enc (Addr_String a, b)" "s_wr s1 = []" by auto
  have 2: "udp_step target None ?r (?r\<lparr>ur_stream := s1, ur_relay := ?rel, ur_buf := b @ drop (length b) (ur_buf r)\<rparr>)"
    by (rule down_reply [OF _ rd]) (use assms(3) s1(1) in simp_all)
  from udp_next [OF udp_next [OF assms(1) 1] 2] s1 assms(3) show ?thesis
    by (intro exI [of _ "?r\<lparr>ur_stream := s1, ur_relay := ?rel, ur_buf := b @ drop (length b) (ur_buf r)\<rparr>"])
       (simp add: reply_enc_def)
qed

section \<open>Properties\<close>

text \<open>
  C12: the UDP relay in every interleaving. Let the client have written datagrams on the stream as
  chunks. Whatever the order of reads, sends, arrivals, time-outs and failures, what has been sent goes to the
  resolved target and is an initial part of the non-empty datagrams, in order; while the main routine runs, the
  datagrams that have arrived are those a client reading the stream gets, whole and with their
  sources, followed by those still queued; no buffer has changed its size, and the socket is open exactly as
  long as the main routine runs.
\<close>

theorem udp_relay_interleaved:
  assumes "udp_start (Inr c) lookup name strategy pick free s = Some (target, r0)" "udp_reach target r0 r"
    and "bufs_ok free" "\<not> s_closed s" "u_in c = []" "u_out c = []" "\<not> u_closed c"
    and "list_all (\<lambda>b. length b < 65536) bs" "s_in s = concat (List.map chunk_enc bs)" "s_out s = []"
    and "s_in client = s_out (ur_stream r)"
  shows "(\<exists>k. u_out (r_conn (ur_relay r)) = List.map (Pair target) (take k (List.filter (\<lambda>b. b \<noteq> []) bs)))
    \<and> (ur_down r = DownReading \<longrightarrow> (\<exists>replied client'. ur_arrived r = replied @ u_in (r_conn (ur_relay r))
        \<and> read_n client_readUDPReply (length replied) client
            = (Inr (List.map (\<lambda>(a, b). (Addr_String a, b)) replied), client') \<and> s_in client' = []))
    \<and> length (ur_buf r) = 64 * 1024 \<and> bufs_ok (ur_free r)
    \<and> (u_closed (r_conn (ur_relay r)) \<longleftrightarrow> ur_down r = DownReturned)"
proof (intro conjI impI)
  from udp_start_begun [OF assms(1,3-7)] have b: "udp_begun target r0" "ur_stream r0 = s" by auto
  from udp_reach_inv [OF assms(2) b(1)] b(2)
  have inv: "udp_ctl_inv r" "udp_up_inv target s r" "udp_down_inv s r" by auto
  then show "length (ur_buf r) = 64 * 1024" "bufs_ok (ur_free r)"
    "u_closed (r_conn (ur_relay r)) \<longleftrightarrow> ur_down r = DownReturned" by (auto simp: udp_ctl_inv_def)
  let ?out = "u_out (r_conn (ur_relay r))"
  from inv(2) udp_up_chunks [OF assms(8,9)] obtain tail where
    "\<forall>m \<in> set ?out. fst m = target" "List.filter (\<lambda>b. b \<noteq> []) bs = List.map snd ?out @ tail"
    unfolding udp_up_inv_def by (auto simp: Let_def)
  moreover from this(1) have "?out = List.map (Pair target) (List.map snd ?out)" by (rule map_Pair_snd)
  ultimately show "\<exists>k. ?out = List.map (Pair target) (take k (List.filter (\<lambda>b. b \<noteq> []) bs))"
    by (intro exI [of _ "length ?out"]) simp
  assume "ur_down r = DownReading"
  with inv(3) assms(10) obtain replied where r: "ur_arrived r = replied @ u_in (r_conn (ur_relay r))"
    "s_out (ur_stream r) = concat (List.map reply_enc replied)" by (auto simp: udp_down_inv_def)
  with inv(1) have "list_all (\<lambda>(a, b). datagram_ok a b) replied" by (simp add: udp_ctl_inv_def)
  from reply_enc_sequence [OF this, of client "[]"] r assms(11)
  show "\<exists>replied client'. ur_arrived r = replied @ u_in (r_conn (ur_relay r))
        \<and> read_n client_readUDPReply (length replied) client
            = (Inr (List.map (\<lambda>(a, b). (Addr_String a, b)) replied), client') \<and> s_in client' = []" by auto
qed


text \<open>
  A UDP relay can outlive its client without bound. The main routine looks at the context only when a read times
  out, so as long as the target sends something every five seconds it goes on after the client's side has ended:
  for every number of datagrams there is a run in which they arrive, are all written to the stream, and the
  main routine still reads.
\<close>

theorem udp_relay_outlives_client:
  assumes "udp_begun target r0" "udp_reach target r0 r" "ur_up r = UpDone" "ur_down r = DownReading"
    and "s_wr (ur_stream r) = []" "u_in (r_conn (ur_relay r)) = []" "datagram_ok a b"
  shows "\<exists>r'. udp_reach target r0 r' \<and> ur_up r' = UpDone \<and> ur_down r' = DownReading
    \<and> s_out (ur_stream r') = s_out (ur_stream r) @ concat (replicate n (reply_enc (a, b)))"
proof -
  have "\<exists>r'. udp_reach target r0 r' \<and> ur_down r' = DownReading \<and> s_wr (ur_stream r') = []
      \<and> u_in (r_conn (ur_relay r')) = [] \<and> ur_up r' = UpDone
      \<and> s_out (ur_stream r') = s_out (ur_stream r) @ concat (replicate n (reply_enc (a, b)))"
  proof (induction n)
    case 0
    with assms show ?case by auto
  next
    case (Suc n)
    then obtain q where q: "udp_reach target r0 q" "ur_down q = DownReading" "s_wr (ur_stream q) = []"
      "u_in (r_conn (ur_relay q)) = []" "ur_up q = UpDone"
      "s_out (ur_stream q) = s_out (ur_stream r) @ concat (replicate n (reply_enc (a, b)))" by blast
    from udp_reach_inv [OF q(1) assms(1)] have "udp_ctl_inv q" by blast
    from udp_one_more [OF q(1) this q(2-4) assms(7)] obtain r' where "udp_reach target r0 r'"
      "ur_down r' = DownReading" "s_wr (ur_stream r') = []" "u_in (r_conn (ur_relay r')) = []"
      "ur_up r' = ur_up q" "s_out (ur_stream r') = s_out (ur_stream q) @ reply_enc (a, b)" by auto
    moreover have "concat (replicate (Suc n) x) = concat (replicate n x) @ x" for x :: bytes
      by (induction n) auto
    ultimately show ?case using q by (intro exI [of _ r']) (simp del: replicate.simps)
  qed
  then show ?thesis by blast
qed

text \<open>A relay to \<^verbatim>\<open>8.8.8.8:53\<close> that has sent one datagram, passed on one reply, and met the end of the stream.\<close>

definition udp_fresh :: UDPConn where
  "udp_fresh = \<lparr>u_local = UDPAddr [] 0, u_in = [], u_broken = None, u_out = [], u_wr = [], u_closed = False,
     u_now = 0, u_rdl = None\<rparr>"

definition udp_example :: "net_addr \<times> udp_relay" where
  "udp_example = (UDPAddr (v4InV6Prefix @ [8, 8, 8, 8]) 53,
     \<lparr>ur_stream = fresh_stream (chunk_enc [7]), ur_relay = \<lparr>r_conn = udp_fresh\<rparr>, ur_up = UpReading,
       ur_down = DownReading, ur_cancelled = False, ur_buf = BufPool_New, ur_free = [], ur_arrived = []\<rparr>)"

lemma udp_example_start:
  "udp_start (Inr udp_fresh) (\<lambda>_. Inl Timeout) (JoinHostPort (dotted [8, 8, 8, 8]) (dec_of_nat 53)) IPStrategyIPv4Prefer
     None [] (fresh_stream (chunk_enc [7])) = Some (fst udp_example, snd udp_example)"
proof -
  have "resolveUDPAddr (\<lambda>_. Inl Timeout) (JoinHostPort (dotted [8, 8, 8, 8]) (dec_of_nat 53)) IPStrategyIPv4Prefer
      = Inr (v4InV6Prefix @ [8, 8, 8, 8], 53)"
    using resolveUDPAddr_IPv4 [where quad = "[8, 8, 8, 8]" and n = 53 and lookup = "\<lambda>_. Inl Timeout"
      and st = IPStrategyIPv4Prefer] by simp
  then show ?thesis
    by (simp add: udp_start_def NewDirectUDPRelayer_def BufPool_Get_def udp_example_def)
qed

lemma udp_example_begun: "udp_begun (fst udp_example) (snd udp_example)"
  by (simp add: udp_begun_def udp_example_def bufs_ok_def BufPool_New_def udp_fresh_def fresh_stream_def)

text \<open>The run: the datagram is sent, then the stream ends.\<close>

lemma udp_example_run:
  "\<exists>r. udp_reach (fst udp_example) (snd udp_example) r \<and> ur_up r = UpDone \<and> ur_down r = DownReading
    \<and> s_wr (ur_stream r) = [] \<and> u_in (r_conn (ur_relay r)) = [] \<and> s_in (ur_stream r) = []
    \<and> s_out (ur_stream r) = [] \<and> ur_cancelled r \<and> u_out (r_conn (ur_relay r)) = [(fst udp_example, [7])]"
proof -
  let ?t = "fst udp_example" and ?r = "snd udp_example"
  from chk.rd_enc [of "[7]" "ur_stream ?r" "[]"] obtain s1 where
    s1: "relay_readChunk (ur_stream ?r) = (Inr [7], s1)" "s_in s1 = []" by (auto simp: udp_example_def)
  note f1 = relay_readChunk_frame [OF s1(1)]
  let ?rel = "\<lparr>r_conn = udp_fresh\<lparr>u_out := [(?t, [7])]\<rparr>\<rparr>"
  have w: "Relayer_WriteTo [7] ?t (ur_relay ?r) = Some (Inr 1, ?rel)"
    by (simp add: Relayer_WriteTo_def WriteToUDP_def udp_example_def udp_fresh_def)
  have 1: "udp_step ?t None ?r (?r\<lparr>ur_stream := s1, ur_relay := ?rel\<rparr>)"
    by (rule up_send [OF _ _ s1(1) _ w]) (simp_all add: udp_example_def fresh_stream_def)
  let ?q = "?r\<lparr>ur_stream := s1, ur_relay := ?rel\<rparr>"
  have e: "relay_readChunk s1 = (Inl (s_end s1), s1\<lparr>s_in := []\<rparr>)"
    using s1(2) by (simp add: relay_readChunk_def ReadFull_short)
  have 2: "udp_step ?t None ?q (?q\<lparr>ur_stream := s1\<lparr>s_in := []\<rparr>, ur_up := UpDone, ur_cancelled := True\<rparr>)"
    by (rule up_error) (use e f1 in \<open>simp_all add: udp_example_def fresh_stream_def\<close>)
  from udp_next [OF udp_next [OF udp_init 1] 2] f1 show ?thesis
    by (intro exI [of _ "?q\<lparr>ur_stream := s1\<lparr>s_in := []\<rparr>, ur_up := UpDone, ur_cancelled := True\<rparr>"])
       (simp add: udp_example_def udp_fresh_def)
qed

theorem udp_relay_interleaved_witness:
  "\<exists>r. udp_reach (fst udp_example) (snd udp_example) r
    \<and> (\<exists>k. u_out (r_conn (ur_relay r)) = List.map (Pair (fst udp_example)) (take k [[7]])) \<and> bufs_ok (ur_free r)"
proof -
  obtain r where r: "udp_reach (fst udp_example) (snd udp_example) r" using udp_example_run by blast
  have f: "bufs_ok []" "\<not> s_closed (fresh_stream (chunk_enc [7]))" "u_in udp_fresh = []" "u_out udp_fresh = []"
    "\<not> u_closed udp_fresh" "list_all (\<lambda>b. length b < 65536) [[7 :: byte]]"
    "s_in (fresh_stream (chunk_enc [7])) = concat (List.map chunk_enc [[7]])" "s_out (fresh_stream (chunk_enc [7])) = []"
    by (simp_all add: bufs_ok_def fresh_stream_def udp_fresh_def)
  from udp_relay_interleaved [OF udp_example_start r f fresh_stream_sel(1)] r
  show ?thesis by auto
qed


theorem udp_relay_outlives_client_witness:
  "\<exists>r'. udp_reach (fst udp_example) (snd udp_example) r' \<and> ur_up r' = UpDone \<and> ur_down r' = DownReading
    \<and> length (s_out (ur_stream r')) \<ge> 1000"
proof -
  obtain r where r: "udp_reach (fst udp_example) (snd udp_example) r" "ur_up r = UpDone" "ur_down r = DownReading"
    "s_wr (ur_stream r) = []" "u_in (r_conn (ur_relay r)) = []" using udp_example_run by blast
  have "datagram_ok (UDPAddr [8, 8, 8, 8] 53) []" by (simp add: datagram_ok_def)
  note outlives = udp_relay_outlives_client [OF udp_example_begun r this]
  have len: "n \<le> length (concat (replicate n (reply_enc m)))" for n m
    by (induction n) (auto simp: reply_enc_def udp_reply_enc_def)
  have "\<exists>r'. udp_reach (fst udp_example) (snd udp_example) r' \<and> ur_up r' = UpDone \<and> ur_down r' = DownReading
    \<and> n \<le> length (s_out (ur_stream r'))" for n
    using outlives [of n] len [of n "(UDPAddr [8, 8, 8, 8] 53, [])"] by (auto intro: le_add2 order_trans trans_le_add2)
  then show ?thesis by blast
qed

end
