(* ===== verification/Socks5.thy ===== *)
theory Socks5
  imports Pool
begin

text \<open>
  The client's SOCKS5 server, \<^verbatim>\<open>cmd/client/main.go\<close>: the configured address, the negotiation, the
  user-name authentication, the request, and its two commands. A read error of the address or the
  port is ignored by the source: its buffers keep the zero bytes that were not read.
\<close>

record ProxyConfig =
  Username :: string
  Password :: string
  Host :: string

section \<open>The configured address\<close>

text \<open>\<^verbatim>\<open>parseAuthAndAddr\<close>: host, user, password.\<close>

definition parseAuthAndAddr :: "string \<Rightarrow> (string \<times> string \<times> string) res" where
  "parseAuthAndAddr full =
    (if CHR ''@'' \<in> set full then
       let parts = SplitN2 (CHR ''@'') full
       in if length parts \<noteq> 2 then Inl (Errorf ''malformed'')
          else let auth = parts ! 0;
                   up = (if CHR '':'' \<in> set auth
                     then (let ap = SplitN2 (CHR '':'') auth in (ap ! 0, ap ! 1)) else ([], []))
               in Inr (parts ! 1, fst up, snd up)
     else Inr (full, [], []))"

text \<open>
  \<^verbatim>\<open>runSOCKS5\<close> up to the accept loop: nothing for an empty address, the process ends (\<^verbatim>\<open>log.Fatalf\<close>) on
  a malformed address or when it cannot listen, otherwise every connection is served with the
  configuration given.
\<close>

datatype proxy_start = NotStarted | Fatal go_error | Serving ProxyConfig

definition runSOCKS5 :: "(string \<Rightarrow> go_error option) \<Rightarrow> string \<Rightarrow> proxy_start" where
  "runSOCKS5 listen addr = (if addr = [] then NotStarted
     else case parseAuthAndAddr (TrimPrefix addr ''socks5://'') of
       Inl e \<Rightarrow> Fatal e
     | Inr (h, u, p) \<Rightarrow> (case listen h of
         Some e \<Rightarrow> Fatal e
       | None \<Rightarrow> Serving \<lparr>Username = u, Password = p, Host = h\<rparr>))"

text \<open>
  The accept loops of both proxies: the connections served, in order. The loop ends when the listener
  has been closed and goes on after any other error.
\<close>

fun accept_loop :: "nat res list \<Rightarrow> nat list" where
  "accept_loop [] = []"
| "accept_loop (Inr c # rs) = c # accept_loop rs"
| "accept_loop (Inl e # rs) = (if e = NetErrClosed then [] else accept_loop rs)"

section \<open>Negotiation\<close>

definition handleSOCKS5UserPassAuth :: "ProxyConfig \<Rightarrow> stream \<Rightarrow> go_error option \<times> stream" where
  "handleSOCKS5UserPassAuth cfgp c = (case ReadFull 2 c of
     (Inl e, c1) \<Rightarrow> (Some e, c1)
   | (Inr b, c1) \<Rightarrow>
       if b ! 0 \<noteq> 1 then (Some (Errorf ''unsupported authentication version''), snd (Write [1, 1] c1))
       else case ReadFull (unat (b ! 1)) c1 of
         (Inl e, c2) \<Rightarrow> (Some e, c2)
       | (Inr u, c2) \<Rightarrow> (case ReadFull 1 c2 of
           (Inl e, c3) \<Rightarrow> (Some e, c3)
         | (Inr b1, c3) \<Rightarrow> (case ReadFull (unat (b1 ! 0)) c3 of
             (Inl e, c4) \<Rightarrow> (Some e, c4)
           | (Inr p, c4) \<Rightarrow>
               if bytes_str u = Username cfgp \<and> bytes_str p = Password cfgp
               then (None, snd (Write [1, 0] c4))
               else (Some (Errorf ''authentication failed''), snd (Write [1, 1] c4)))))"

text \<open>The part of \<^verbatim>\<open>handleSOCKS5\<close> up to the request: whether it goes on.\<close>

definition negotiate :: "ProxyConfig \<Rightarrow> stream \<Rightarrow> bool \<times> stream" where
  "negotiate cfgp c = (case ReadFull 2 c of
     (Inl e, c1) \<Rightarrow> (False, c1)
   | (Inr buf, c1) \<Rightarrow>
       if buf ! 0 \<noteq> 5 then (False, c1)
       else case ReadFull (unat (buf ! 1)) c1 of
         (Inl e, c2) \<Rightarrow> (False, c2)
       | (Inr methods, c2) \<Rightarrow>
           let hasNoAuth = 0 \<in> set methods; hasUserPass = 2 \<in> set methods
           in if Username cfgp \<noteq> [] then
                (if \<not> hasUserPass then (False, snd (Write [5, 0xFF] c2))
                 else case handleSOCKS5UserPassAuth cfgp (snd (Write [5, 2] c2)) of
                   (Some e, c3) \<Rightarrow> (False, c3)
                 | (None, c3) \<Rightarrow> (True, c3))
              else if \<not> hasNoAuth then (False, snd (Write [5, 0xFF] c2))
              else (True, snd (Write [5, 0] c2)))"

section \<open>The request\<close>

definition read_target :: "byte \<Rightarrow> stream \<Rightarrow> string \<times> stream" where
  "read_target atyp c =
    (if atyp = 1 then (case ReadFull_into 4 c of (b, _, c1) \<Rightarrow> (IP_String b, c1))
     else if atyp = 3 then
       (case ReadFull_into 1 c of (b, _, c1) \<Rightarrow>
         (case ReadFull_into (unat (b ! 0)) c1 of (addr, _, c2) \<Rightarrow> (bytes_str addr, c2)))
     else if atyp = 4 then (case ReadFull_into 16 c of (b, _, c1) \<Rightarrow> (IP_String b, c1))
     else ([], c))"

definition reject_reply :: "byte \<Rightarrow> bytes" where
  "reject_reply atyp = [5, 2, 0, atyp] @
    (if atyp = 1 then replicate 4 0 @ [0, 0]
     else if atyp = 4 then replicate 16 0 @ [0, 0]
     else [0, 0, 0, 0, 0, 0])"

text \<open>The two guards on literal addresses; the host is that of the joined target.\<close>

definition strategy_rejects :: "byte \<Rightarrow> byte \<Rightarrow> string \<Rightarrow> bool" where
  "strategy_rejects strategy atyp target = (let ip = ParseIP (fst (SplitHostPort_lax target)) in
     strategy = IPStrategyIPv4Only \<and> (atyp = 4 \<or> (case ip of None \<Rightarrow> False | Some a \<Rightarrow> To4 a = None))
   \<or> strategy = IPStrategyIPv6Only \<and> (atyp = 1 \<or> (case ip of None \<Rightarrow> False | Some a \<Rightarrow> To4 a \<noteq> None)))"

text \<open>The part of \<^verbatim>\<open>handleSOCKS5\<close> up to the dispatch: the command and the target, if it gets there.\<close>

definition socks_request ::
  "ProxyConfig \<Rightarrow> 'a CommonConfig_scheme \<Rightarrow> stream \<Rightarrow> (byte \<times> string) option \<times> stream"
where
  "socks_request cfgp conf c = (case negotiate cfgp (SetDeadline (DialTimeout conf) c) of
     (False, c1) \<Rightarrow> (None, c1)
   | (True, c1) \<Rightarrow> (case ReadFull 4 c1 of
       (Inl e, c2) \<Rightarrow> (None, c2)
     | (Inr head, c2) \<Rightarrow>
         case read_target (head ! 3) c2 of (host, c3) \<Rightarrow>
         case ReadFull_into 2 c3 of (pb, _, c4) \<Rightarrow>
           let target = JoinHostPort host (dec_of_nat (unat (get_u16 (pb ! 0) (pb ! 1))))
           in if strategy_rejects (IPStrategy conf) (head ! 3) target
              then (None, snd (Write (reject_reply (head ! 3)) c4))
              else (Some (head ! 1, target), ClearDeadline c4)))"

text \<open>
  \<^verbatim>\<open>handleSOCKS5\<close> with its handlers of the two commands as arguments; \<open>nothing\<close> stands for their other
  effects. Every other command ends in the deferred close.
\<close>

definition handleSOCKS5 ::
  "(stream \<Rightarrow> string \<Rightarrow> 'r \<times> stream) \<Rightarrow> (stream \<Rightarrow> ProxyConfig \<Rightarrow> 'r \<times> stream) \<Rightarrow> 'r
     \<Rightarrow> ProxyConfig \<Rightarrow> 'a CommonConfig_scheme \<Rightarrow> stream \<Rightarrow> 'r \<times> stream"
where
  "handleSOCKS5 connect associate nothing cfgp conf c =
    (case (case socks_request cfgp conf c of
        (None, c1) \<Rightarrow> (nothing, c1)
      | (Some (cmd, target), c1) \<Rightarrow>
          if cmd = 1 then connect c1 target
          else if cmd = 3 then associate c1 cfgp
          else (nothing, c1))
     of (r, c1) \<Rightarrow> (r, Close c1))"

section \<open>CONNECT\<close>

text \<open>
  What \<^verbatim>\<open>handleSOCKS5Connect\<close> hands to \<^verbatim>\<open>proxyConn\<close>, if it gets there, with the pool afterwards; \<^verbatim>\<open>None\<close>
  is the panic of the channel selection. The success reply is written first.
\<close>

definition handleSOCKS5Connect ::
  "'a CommonConfig_scheme \<Rightarrow> smux_session option list \<Rightarrow> ECHPool \<Rightarrow> stream \<Rightarrow> string
     \<Rightarrow> ((stream \<times> nat) option \<times> ECHPool) option \<times> stream"
where
  "handleSOCKS5Connect conf slots p c target = (case Write [5, 0, 0, 1, 0, 0, 0, 0, 0, 0] c of
     (Inl e, c1) \<Rightarrow> (Some (None, p), Close c1)
   | (Inr _, c1) \<Rightarrow> (case openTCPStream (IPStrategy conf) (DialTimeout conf) slots target p of
       None \<Rightarrow> (None, c1)
     | Some (Inl e, _, p1) \<Rightarrow> (Some (None, p1), Close c1)
     | Some (Inr (s, ch), _, p1) \<Rightarrow> (Some (Some (s, ch), p1), c1)))"

section \<open>UDP ASSOCIATE\<close>

text \<open>
  \<^verbatim>\<open>handleSOCKS5UDP\<close> up to the association: \<open>listen\<close> resolves the address and opens the socket, and
  gives its local IP and port. The result says whether the association starts.
\<close>

definition handleSOCKS5UDP ::
  "(string \<Rightarrow> (ip \<times> nat) res) \<Rightarrow> ProxyConfig \<Rightarrow> stream \<Rightarrow> bool \<times> stream"
where
  "handleSOCKS5UDP listen cfgp c =
    (let host = fst (SplitHostPort_lax (Host cfgp))
     in case listen (JoinHostPort host ''0'') of
          Inl e \<Rightarrow> (False, Close c)
        | Inr (ip, port) \<Rightarrow>
            let resp = [5, 0, 0] @ (case To4 ip of Some ip4 \<Rightarrow> 1 # ip4 | None \<Rightarrow> 4 # ip)
                  @ [of_nat (port div 256), of_nat port]
            in case Write resp c of
                 (Inl e, c1) \<Rightarrow> (False, Close c1)
               | (Inr _, c1) \<Rightarrow> (True, c1))"

text \<open>\<^verbatim>\<open>parseSOCKS5UDPPacket\<close>; \<^verbatim>\<open>None\<close> is the panic of an index or a slice out of range.\<close>

definition bad_packet :: "string \<Rightarrow> (string \<times> bytes) res option" where
  "bad_packet m = Some (Inl (Errorf m))"

definition packet_end :: "string \<Rightarrow> bool \<Rightarrow> nat \<Rightarrow> bytes \<Rightarrow> (string \<times> bytes) res option" where
  "packet_end h v6 off b =
    (if off + 2 > length b then bad_packet ''port field too short''
     else case (index_at b off, index_at b (off + 1)) of
       (Some hi, Some lo) \<Rightarrow>
         (let p = dec_of_nat (unat (get_u16 hi lo))
          in case slice b (off + 2) (length b) of
               None \<Rightarrow> None
             | Some d \<Rightarrow> Some (Inr (if v6 then ''['' @ h @ '']:'' @ p else h @ '':'' @ p, d)))
     | _ \<Rightarrow> None)"

definition parseSOCKS5UDPPacket :: "bytes \<Rightarrow> (string \<times> bytes) res option" where
  "parseSOCKS5UDPPacket b =
    (if length b < 10 then bad_packet ''invalid data''
     else case (index_at b 2, index_at b 3) of
       (Some r, Some atyp) \<Rightarrow>
         if r \<noteq> 0 then bad_packet ''invalid data''
         else if atyp = 1 then
           (if 4 + 4 > length b then bad_packet ''IPv4 address too short''
            else case slice b 4 8 of None \<Rightarrow> None | Some a \<Rightarrow> packet_end (IP_String a) False 8 b)
         else if atyp = 3 then
           (if 4 + 1 > length b then bad_packet ''domain too short''
            else case index_at b 4 of None \<Rightarrow> None
              | Some l \<Rightarrow>
                  if 5 + unat l > length b then bad_packet ''domain too short''
                  else case slice b 5 (5 + unat l) of None \<Rightarrow> None
                    | Some h \<Rightarrow> packet_end (bytes_str h) False (5 + unat l) b)
         else if atyp = 4 then
           (if 4 + 16 > length b then bad_packet ''IPv6 address too short''
            else case slice b 4 20 of None \<Rightarrow> None | Some a \<Rightarrow> packet_end (IP_String a) True 20 b)
         else bad_packet ''bad address type''
     | _ \<Rightarrow> None)"

definition buildSOCKS5UDPPacket :: "string \<Rightarrow> int \<Rightarrow> bytes \<Rightarrow> bytes res" where
  "buildSOCKS5UDPPacket h p d =
    (if length h > 255 then Inl (Errorf ''domain too long'')
     else Inr ([0, 0, 0] @
       (case ParseIP h of
          Some ip \<Rightarrow> (case To4 ip of Some ip4 \<Rightarrow> 1 # ip4 | None \<Rightarrow> 4 # ip)
        | None \<Rightarrow> [3, of_nat (length h)] @ str_bytes h)
       @ [of_int (p div 256), of_int p] @ d))"

section \<open>Facts\<close>

lemma ReadFull_split:
  "ReadFull n s = (Inr b, s') \<Longrightarrow> s_in s = b @ s_in s' \<and> length b = n \<and> s_out s' = s_out s \<and> s_wr s' = s_wr s"
  by (auto simp: ReadFull_Inr_iff)

lemma Write_in [simp]: "s_in (snd (Write b s)) = s_in s"
  using Write_frame [of b s] by (cases "Write b s") auto

lemma deadline_sel [simp]:
  "s_in (SetDeadline t s) = s_in s" "s_out (SetDeadline t s) = s_out s" "s_wr (SetDeadline t s) = s_wr s"
  "s_in (ClearDeadline s) = s_in s" "s_out (ClearDeadline s) = s_out s" "s_wr (ClearDeadline s) = s_wr s"
  by (simp_all add: deadline_defs)

lemma byte_of_length: "length b = unat (l :: byte) \<Longrightarrow> l = of_nat (length b)"
  by simp

lemma auth_accepts:
  assumes "handleSOCKS5UserPassAuth cfgp c = (None, c')"
  shows "s_in c = 1 # of_nat (length (Username cfgp)) # str_bytes (Username cfgp)
      @ of_nat (length (Password cfgp)) # str_bytes (Password cfgp) @ s_in c'"
proof -
  obtain b c1 where 1: "ReadFull 2 c = (Inr b, c1)" "b ! 0 = 1"
    using assms by (auto simp: handleSOCKS5UserPassAuth_def split: prod.splits sum.splits if_splits)
  with assms obtain u c2 where 2: "ReadFull (unat (b ! 1)) c1 = (Inr u, c2)"
    by (auto simp: handleSOCKS5UserPassAuth_def split: prod.splits sum.splits)
  with 1 assms obtain b1 c3 where 3: "ReadFull 1 c2 = (Inr b1, c3)"
    by (auto simp: handleSOCKS5UserPassAuth_def split: prod.splits sum.splits)
  with 1 2 assms obtain p c4 where 4: "ReadFull (unat (b1 ! 0)) c3 = (Inr p, c4)"
    by (auto simp: handleSOCKS5UserPassAuth_def split: prod.splits sum.splits)
  with 1 2 3 assms have 5: "bytes_str u = Username cfgp" "bytes_str p = Password cfgp" "s_in c' = s_in c4"
    by (auto simp: handleSOCKS5UserPassAuth_def split: if_splits)
  from 5 have up: "u = str_bytes (Username cfgp)" "p = str_bytes (Password cfgp)"
    by (metis str_bytes_inverse)+
  from ReadFull_split [OF 1(1)] obtain b' where b: "b = [b ! 0, b']" "s_in c = b @ s_in c1"
    by (cases b; cases "tl b") auto
  from ReadFull_split [OF 3] obtain l where l: "b1 = [l]" "s_in c2 = l # s_in c3"
    by (cases b1) auto
  have "b' = of_nat (length u)"
    using ReadFull_split [OF 2] b by (intro byte_of_length) (metis One_nat_def nth_Cons_0 nth_Cons_Suc)
  moreover have "l = of_nat (length p)"
    using ReadFull_split [OF 4] l by (intro byte_of_length) simp
  ultimately show ?thesis
    using b l 1(2) 5(3) up ReadFull_split [OF 2] ReadFull_split [OF 4] by (metis append.assoc append_Cons append_Nil
        length_str_bytes)
qed

lemma negotiate_user:
  assumes "negotiate cfgp c = (True, c')" "Username cfgp \<noteq> []"
  shows "\<exists>methods. s_in c = 5 # of_nat (length methods) # methods
      @ 1 # of_nat (length (Username cfgp)) # str_bytes (Username cfgp)
      @ of_nat (length (Password cfgp)) # str_bytes (Password cfgp) @ s_in c' \<and> 2 \<in> set methods"
proof -
  obtain b c1 where 1: "ReadFull 2 c = (Inr b, c1)" "b ! 0 = 5"
    using assms by (auto simp: negotiate_def split: prod.splits sum.splits if_splits)
  with assms obtain ms c2 where 2: "ReadFull (unat (b ! 1)) c1 = (Inr ms, c2)"
    by (auto simp: negotiate_def split: prod.splits sum.splits)
  with 1 assms have 3: "2 \<in> set ms" "handleSOCKS5UserPassAuth cfgp (snd (Write [5, 2] c2)) = (None, c')"
    by (auto simp: negotiate_def Let_def split: if_splits prod.splits option.splits)
  from ReadFull_split [OF 1(1)] obtain b' where b: "b = [b ! 0, b']" "s_in c = b @ s_in c1"
    by (cases b; cases "tl b") auto
  have "b' = of_nat (length ms)"
    using ReadFull_split [OF 2] b by (intro byte_of_length) (metis One_nat_def nth_Cons_0 nth_Cons_Suc)
  with auth_accepts [OF 3(2)] ReadFull_split [OF 2] b 1(2) 3(1) show ?thesis
    by (intro exI [of _ ms]) (metis Write_in append_Cons append_Nil)
qed

lemma build_parse:
  assumes "length h \<le> 255" "0 \<le> p" "p < 65536" "ParseIP h = None \<longrightarrow> 3 \<le> length h + length d"
  shows "\<exists>b. buildSOCKS5UDPPacket h p d = Inr b \<and>
    parseSOCKS5UDPPacket b = Some (Inr
      (case ParseIP h of
         None \<Rightarrow> h @ '':'' @ dec_of_nat (nat p)
       | Some ip \<Rightarrow> (if To4 ip = None then ''['' @ IP_String ip @ '']:'' @ dec_of_nat (nat p)
           else IP_String ip @ '':'' @ dec_of_nat (nat p)), d))"
proof -
  let ?pb = "[of_int (p div 256), of_int p] :: bytes"
  have port: "unat (get_u16 (of_int (p div 256)) (of_int p)) = nat p"
  proof -
    have "get_u16 (of_int (p div 256)) (of_int p) = word_of_int p"
      unfolding get_u16_def
      by (rule bit_word_eqI) (auto simp: bit_simps bit_word_of_int_iff simp flip: drop_bit_eq_div [of 8, simplified])
    then show ?thesis using assms(2,3) by (simp add: unat_eq_nat_uint uint_word_of_int)
  qed
  have tail: "length pre = n \<Longrightarrow> packet_end h' v6 n (pre @ ?pb @ d)
      = Some (Inr (if v6 then ''['' @ h' @ '']:'' @ dec_of_nat (nat p) else h' @ '':'' @ dec_of_nat (nat p), d))"
    for h' v6 pre n
    by (auto simp: packet_end_def index_at_def slice_def nth_append port Let_def)
  show ?thesis
  proof (cases "ParseIP h")
    case None
    have l: "unat (of_nat (length h) :: byte) = length h" using assms(1) by (intro unat_u8_of_nat) simp
    from tail [of "[0, 0, 0, 3, of_nat (length h)] @ str_bytes h" "5 + length h" h False] None assms(1,4) l show ?thesis
      by (simp add: buildSOCKS5UDPPacket_def parseSOCKS5UDPPacket_def index_at_def slice_def nth_append)
  next
    case (Some ip)
    then have len: "length ip = 16" by (rule ParseIP_length)
    show ?thesis
    proof (cases "To4 ip")
      case None
      from tail [of "[0, 0, 0, 4] @ ip" 20 "IP_String ip" True] None len Some assms(1) show ?thesis
        by (simp add: buildSOCKS5UDPPacket_def parseSOCKS5UDPPacket_def index_at_def slice_def nth_append)
    next
      case (Some ip4)
      then have l4: "length ip4 = 4" by (rule To4_length)
      have "IP_String ip4 = IP_String ip" using Some len l4 by (auto simp: IP_String_def To4_def)
      with tail [of "[0, 0, 0, 1] @ ip4" 8 "IP_String ip4" False] Some l4 \<open>ParseIP h = Some ip\<close> assms(1)
      show ?thesis
        by (simp add: buildSOCKS5UDPPacket_def parseSOCKS5UDPPacket_def index_at_def slice_def nth_append)
    qed
  qed
qed

section \<open>Properties\<close>

text \<open>
  C18: with a user name configured, no request is carried out without the credentials. When
  \<^verbatim>\<open>handleSOCKS5\<close> reaches a command, the client has offered the user-name method and has sent exactly
  the configured name and password, each behind its length, before the request.
\<close>

theorem socks_auth_required:
  assumes "Username cfgp \<noteq> []" "socks_request cfgp conf c = (Some (cmd, target), c')"
  shows "\<exists>methods rest. s_in c = 5 # of_nat (length methods) # methods
      @ 1 # of_nat (length (Username cfgp)) # str_bytes (Username cfgp)
      @ of_nat (length (Password cfgp)) # str_bytes (Password cfgp) @ rest
    \<and> 2 \<in> set methods \<and> 4 \<le> length rest \<and> rest ! 1 = cmd"
proof -
  obtain c1 where 1: "negotiate cfgp (SetDeadline (DialTimeout conf) c) = (True, c1)"
    using assms(2) by (auto simp: socks_request_def split: prod.splits bool.splits)
  with assms(2) obtain head c2 where 2: "ReadFull 4 c1 = (Inr head, c2)"
    by (auto simp: socks_request_def split: prod.splits sum.splits)
  with 1 assms(2) have "head ! 1 = cmd"
    by (auto simp: socks_request_def Let_def split: prod.splits if_splits)
  with ReadFull_split [OF 2] have "4 \<le> length (s_in c1)" "s_in c1 ! 1 = cmd"
    by (auto simp: nth_append)
  with negotiate_user [OF 1 assms(1)] show ?thesis by (auto simp del: nth_Cons_numeral)
qed

text \<open>
  UDP datagrams are parsed without a panic: on every input \<^verbatim>\<open>parseSOCKS5UDPPacket\<close> returns a target
  and the payload behind the header, or an error; every index and every slice is in range.
\<close>

theorem socks_udp_parse_no_panic: "parseSOCKS5UDPPacket b \<noteq> None"
proof -
  have e: "packet_end h v6 off b \<noteq> None" for h v6 off
    by (auto simp: packet_end_def bad_packet_def index_at_def slice_def Let_def)
  show ?thesis
    by (auto simp: parseSOCKS5UDPPacket_def bad_packet_def index_at_def slice_def e [simplified])
qed

theorem socks_auth_required_witness:
  "\<exists>methods rest. s_in (fresh_stream [5, 1, 2, 1, 1, 0x75, 1, 0x70, 5, 1, 0, 1, 1, 2, 3, 4, 0, 80])
      = 5 # of_nat (length methods) # methods @ 1 # 1 # [0x75] @ 1 # [0x70] @ rest
    \<and> 2 \<in> set methods \<and> 4 \<le> length rest \<and> rest ! 1 = (1 :: byte)"
proof -
  let ?c = "fresh_stream [5, 1, 2, 1, 1, 0x75, 1, 0x70, 5, 1, 0, 1, 1, 2, 3, 4, 0, 80]"
  let ?cfg = "\<lparr>Username = bytes_str [0x75], Password = bytes_str [0x70], Host = []\<rparr>"
  have "\<exists>t c'. socks_request ?cfg zero_client ?c = (Some (1, t), c')"
    by (simp add: socks_request_def negotiate_def handleSOCKS5UserPassAuth_def ReadFull_ok ReadFull_into_def
        read_target_def Write_ok deadline_defs Let_def strategy_rejects_def zero_client_def)
  then obtain t c' where "socks_request ?cfg zero_client ?c = (Some (1, t), c')" by blast
  from socks_auth_required [OF _ this] show ?thesis by (simp del: bytes_str_simps)
qed

text \<open>
  C32: a datagram survives the SOCKS5 header. What \<^verbatim>\<open>buildSOCKS5UDPPacket\<close> makes of a host, a port and a
  payload, \<^verbatim>\<open>parseSOCKS5UDPPacket\<close> takes apart into the same payload and \<^verbatim>\<open>host:port\<close>, an address literal
  in its canonical form and an IPv6 literal in brackets. Its minimum length of ten bytes asks for
  three bytes of host name and payload together.
\<close>

theorem socks_udp_packet_roundtrip:
  assumes "length h \<le> 255" "0 \<le> p" "p < 65536" "ParseIP h = None \<longrightarrow> 3 \<le> length h + length d"
  shows "\<exists>b. buildSOCKS5UDPPacket h p d = Inr b \<and>
    parseSOCKS5UDPPacket b = Some (Inr
      (case ParseIP h of
         None \<Rightarrow> h @ '':'' @ dec_of_nat (nat p)
       | Some ip \<Rightarrow> (if To4 ip = None then ''['' @ IP_String ip @ '']:'' @ dec_of_nat (nat p)
           else IP_String ip @ '':'' @ dec_of_nat (nat p)), d))"
  using assms by (rule build_parse)

theorem socks_udp_packet_roundtrip_witness:
  "\<exists>b. buildSOCKS5UDPPacket (dotted [8, 8, 8, 8]) 53 [7] = Inr b
    \<and> parseSOCKS5UDPPacket b = Some (Inr (dotted [8, 8, 8, 8] @ '':'' @ dec_of_nat 53, [7]))"
  using socks_udp_packet_roundtrip [of "dotted [8, 8, 8, 8]" 53 "[7]"] ParseIP_dotted [of "[8, 8, 8, 8]"]
  by (simp add: IP_String_def To4_def v4InV6Prefix_def le_trans [OF length_dotted])

text \<open>The negotiation without authentication.\<close>

lemma negotiate_plain:
  assumes "Username cfgp = []" "s_in c = [5, 1, 0] @ rest" "s_wr c = []"
  shows "negotiate cfgp c = (True, c\<lparr>s_in := rest, s_out := s_out c @ [5, 0]\<rparr>)"
  using assms by (simp add: negotiate_def ReadFull_ok Write_ok Let_def)

text \<open>
  C19: a CONNECT request reaches the server as it was made. For a domain name of up to 255 bytes,
  the client answers the negotiation and the request with success, and what it has written to the
  new stream is the open header from which the relay at the other end takes the TCP handler, the
  client's strategy and \<^verbatim>\<open>host:port\<close>; the bytes that follow are left to the handler.
\<close>

theorem socks_connect_end_to_end:
  assumes "Username cfgp = []" "length h \<le> 255"
    "s_in c = [5, 1, 0] @ [5, 1, 0, 3, of_nat (length h)] @ str_bytes h @ put_u16 port @ rest" "s_wr c = []"
    "target = JoinHostPort h (dec_of_nat (unat port))" "\<not> strategy_rejects (IPStrategy conf) 3 target"
    "openBestStream (DialTimeout conf) slots p = Some (Inr (s, ch), p1)" "s_wr s = []" "s_out s = []"
  shows "\<exists>c1 c2 s'. socks_request cfgp conf c = (Some (1, target), c1) \<and> s_in c1 = rest
    \<and> handleSOCKS5Connect conf slots p c1 target = (Some (Some (s', ch), p1), c2)
    \<and> s_out c2 = s_out c @ [5, 0] @ [5, 0, 0, 1, 0, 0, 0, 0, 0, 0]
    \<and> (\<forall>r more. s_in r = s_out s' @ more \<longrightarrow>
         (\<exists>r'. s_in r' = more \<and> HandleSmuxStream tcp udp r = Close (tcp target (IPStrategy conf) r')))"
proof -
  have l: "unat (of_nat (length h) :: byte) = length h" using assms(2) by (intro unat_u8_of_nat) simp
  let ?c = "SetDeadline (DialTimeout conf) c"
  have n: "negotiate cfgp ?c = (True, ?c\<lparr>s_in := [5, 1, 0, 3, of_nat (length h)] @ str_bytes h @ put_u16 port @ rest,
      s_out := s_out c @ [5, 0]\<rparr>)"
    using negotiate_plain [OF assms(1), of ?c] assms(3,4) by simp
  let ?c1 = "ClearDeadline (?c\<lparr>s_in := rest, s_out := s_out c @ [5, 0]\<rparr>)"
  have req: "socks_request cfgp conf c = (Some (1, target), ?c1)"
    using assms(5,6) l n
    by (simp add: socks_request_def ReadFull_ok ReadFull_into_def read_target_def Let_def put_u16_def deadline_defs)
  have "length (dec_of_nat (unat port)) \<le> 5" by (rule length_dec_u16)
  then have "length target \<le> 65535" using assms(2,5) by (auto simp: JoinHostPort_def)
  from tcp_open.opens [OF assms(7,8) this] assms(9) obtain s' where s':
    "openTCPStream (IPStrategy conf) (DialTimeout conf) slots target p = Some (Inr (s', ch), None, p1)"
    "s_out s' = header_enc (StreamKindTCP, IPStrategy conf, target)" by auto
  have conn: "handleSOCKS5Connect conf slots p ?c1 target = (Some (Some (s', ch), p1),
      ?c1\<lparr>s_out := (s_out c @ [5, 0]) @ [5, 0, 0, 1, 0, 0, 0, 0, 0, 0]\<rparr>)"
    using s'(1) assms(4) by (simp add: handleSOCKS5Connect_def Write_ok)
  have relay: "\<exists>r'. s_in r' = more \<and> HandleSmuxStream tcp udp r = Close (tcp target (IPStrategy conf) r')"
    if "s_in r = s_out s' @ more" for r more
    using tcp_open.relay_dispatches [of r "IPStrategy conf" target more] that s'(2) \<open>length target \<le> 65535\<close> by simp
  show ?thesis
    using req conn relay by (intro exI [of _ ?c1] exI [of _ s'] exI conjI) (assumption | simp)+
qed

text \<open>
  A request that is cut off is carried out. After the request's four-byte head with an IPv4
  address announced, the connection may end: the missing bytes of the address and the port count
  as zero, and the client goes on to the command with that target.
\<close>

theorem socks_truncated_executed:
  assumes "Username cfgp = []" "s_in c = [5, 1, 0] @ [5, cmd, 0, 1] @ part" "s_wr c = []" "length part < 4"
    "IPStrategy conf = IPStrategyIPv4Prefer"
  shows "\<exists>c1. socks_request cfgp conf c =
    (Some (cmd, JoinHostPort (dotted (part @ replicate (4 - length part) 0)) (dec_of_nat 0)), c1)"
proof -
  let ?c = "SetDeadline (DialTimeout conf) c"
  have n: "negotiate cfgp ?c = (True, ?c\<lparr>s_in := [5, cmd, 0, 1] @ part, s_out := s_out c @ [5, 0]\<rparr>)"
    using negotiate_plain [OF assms(1), of ?c] assms(2,3) by simp
  let ?a = "part @ replicate (4 - length part) 0"
  have "IP_String ?a = dotted ?a" using assms(4) by (cases part) (auto simp: IP_String_def To4_def)
  with n assms(4,5) show ?thesis
    by (simp add: socks_request_def ReadFull_ok ReadFull_into_def read_target_def Let_def strategy_rejects_def
        get_u16_def numeral_2_eq_2)
qed

theorem socks_connect_end_to_end_witness:
  "\<exists>c1. socks_request \<lparr>Username = [], Password = [], Host = []\<rparr> (zero_client\<lparr>DialTimeout := 5\<rparr>)
      (fresh_stream ([5, 1, 0] @ [5, 1, 0, 3, 1] @ str_bytes ''h'' @ put_u16 80))
    = (Some (1, JoinHostPort ''h'' (dec_of_nat (unat (80 :: 16 word)))), c1)"
proof -
  let ?cfg = "\<lparr>Username = [], Password = [], Host = []\<rparr>" and ?conf = "zero_client\<lparr>DialTimeout := 5\<rparr>"
  let ?c = "fresh_stream ([5, 1, 0] @ [5, 1, 0, 3, 1] @ str_bytes ''h'' @ put_u16 80)"
  have o: "openBestStream (DialTimeout ?conf) one_slot one_channel
      = Some (Inr (fresh_stream [], 1), one_channel\<lparr>selectCounter := 1\<rparr>)" using open_one_channel by simp
  have i: "s_in ?c = [5, 1, 0] @ [5, 1, 0, 3, of_nat (length ''h'')] @ str_bytes ''h'' @ put_u16 80 @ []" by simp
  have g: "\<not> strategy_rejects (IPStrategy ?conf) 3 (JoinHostPort ''h'' (dec_of_nat (unat (80 :: 16 word))))"
    by (simp add: strategy_rejects_def zero_client_def)
  have p: "Username ?cfg = []" "length ''h'' \<le> 255" "s_wr ?c = []" "s_wr (fresh_stream []) = []"
    "s_out (fresh_stream []) = []" by simp_all
  from socks_connect_end_to_end [OF p(1,2) i p(3) refl g o p(4,5)] show ?thesis by blast
qed

theorem socks_truncated_executed_witness:
  "\<exists>c1. socks_request \<lparr>Username = [], Password = [], Host = []\<rparr> (zero_client\<lparr>IPStrategy := 3\<rparr>)
     (fresh_stream [5, 1, 0, 5, 1, 0, 1, 10]) = (Some (1, JoinHostPort (dotted [10, 0, 0, 0]) (dec_of_nat 0)), c1)"
  using socks_truncated_executed [of "\<lparr>Username = [], Password = [], Host = []\<rparr>" "fresh_stream [5, 1, 0, 5, 1, 0, 1, 10]"
      1 "[10]" "zero_client\<lparr>IPStrategy := 3\<rparr>"] by (simp add: numeral_3_eq_3)

end
