(* ===== verification/UdpAssoc.thy ===== *)
theory UdpAssoc
  imports Socks5
begin

text \<open>
  The SOCKS5 UDP association of \<^verbatim>\<open>cmd/client/main.go\<close>: the loop over the client's datagrams, sending, the
  goroutine that reads the replies, and \<^verbatim>\<open>Close\<close>.

  \<^verbatim>\<open>ua_stream\<close> says whether the field \<^verbatim>\<open>stream\<close> is set; \<^verbatim>\<open>ua_conn\<close> is the stream the association has
  opened, which its goroutines still hold when the field is nil again. \<^verbatim>\<open>ua_replies\<close> are the packets
  written to the client with its address, \<^verbatim>\<open>ua_listening\<close> and \<^verbatim>\<open>ua_tcp\<close> whether the UDP socket and the TCP
  connection are open.
\<close>

record udp_assoc =
  ua_client :: "string option"
  ua_closed :: bool
  ua_receiving :: bool
  ua_channelID :: int
  ua_target :: string
  ua_stream :: bool
  ua_conn :: "stream option"
  ua_listening :: bool
  ua_tcp :: bool
  ua_replies :: "(bytes \<times> string) list"

definition new_assoc :: udp_assoc where
  "new_assoc = \<lparr>ua_client = None, ua_closed = False, ua_receiving = False, ua_channelID = -1,
     ua_target = [], ua_stream = False, ua_conn = None, ua_listening = True, ua_tcp = True, ua_replies = []\<rparr>"

definition ua_Close :: "udp_assoc \<Rightarrow> udp_assoc" where
  "ua_Close a = (if ua_closed a then a
     else a\<lparr>ua_closed := True, ua_stream := False,
       ua_conn := (if ua_stream a then map_option Close (ua_conn a) else ua_conn a),
       ua_listening := False, ua_tcp := False\<rparr>)"

section \<open>Sending\<close>

text \<open>
  \<^verbatim>\<open>send\<close> under the lock: \<^verbatim>\<open>None\<close> when it has returned, otherwise whether its local \<^verbatim>\<open>stream\<close> is set. The
  outer \<^verbatim>\<open>None\<close> is the panic of the channel selection.
\<close>

definition ua_send_locked ::
  "'a CommonConfig_scheme \<Rightarrow> smux_session option list \<Rightarrow> string \<Rightarrow> udp_assoc \<Rightarrow> ECHPool
     \<Rightarrow> (bool option \<times> udp_assoc \<times> ECHPool) option"
where
  "ua_send_locked conf slots target a p =
    (if ua_closed a then Some (None, a, p)
     else if \<not> ua_receiving a then
       (let a1 = a\<lparr>ua_receiving := True, ua_target := target\<rparr>
        in case openUDPStream (IPStrategy conf) (DialTimeout conf) slots target p of
             None \<Rightarrow> None
           | Some (Inl e, _, p1) \<Rightarrow>
               Some (None, a1\<lparr>ua_closed := True, ua_stream := False, ua_listening := False, ua_tcp := False\<rparr>, p1)
           | Some (Inr (s, ch), _, p1) \<Rightarrow>
               Some (Some True, a1\<lparr>ua_stream := True, ua_conn := Some s, ua_channelID := int ch\<rparr>, p1))
     else
       (let a1 = (if target \<noteq> [] \<and> target \<noteq> ua_target a then a\<lparr>ua_target := target\<rparr> else a)
        in Some (Some (ua_stream a), a1, p)))"

text \<open>The rest of \<^verbatim>\<open>send\<close>.\<close>

definition ua_send_write :: "bytes \<Rightarrow> bool option \<Rightarrow> udp_assoc \<Rightarrow> udp_assoc" where
  "ua_send_write data go_on a = (case go_on of
     None \<Rightarrow> a
   | Some is_set \<Rightarrow>
       if \<not> is_set then ua_Close a
       else case ua_conn a of
         None \<Rightarrow> a
       | Some s \<Rightarrow> (case client_writeChunk data s of
           (Inl e, s1) \<Rightarrow> ua_Close (a\<lparr>ua_conn := Some s1\<rparr>)
         | (Inr _, s1) \<Rightarrow> a\<lparr>ua_conn := Some s1\<rparr>))"

definition ua_send ::
  "'a CommonConfig_scheme \<Rightarrow> smux_session option list \<Rightarrow> string \<Rightarrow> bytes \<Rightarrow> udp_assoc \<Rightarrow> ECHPool
     \<Rightarrow> (udp_assoc \<times> ECHPool) option"
where
  "ua_send conf slots target data a p = (case ua_send_locked conf slots target a p of
     None \<Rightarrow> None
   | Some (go_on, a1, p1) \<Rightarrow> Some (ua_send_write data go_on a1, p1))"

section \<open>The loop over datagrams\<close>

text \<open>One datagram: the sender's address and the bytes, of which the buffer keeps 64 KiB.\<close>

definition ua_datagram ::
  "'a CommonConfig_scheme \<Rightarrow> smux_session option list \<Rightarrow> string \<times> bytes \<Rightarrow> udp_assoc \<Rightarrow> ECHPool
     \<Rightarrow> (udp_assoc \<times> ECHPool) option"
where
  "ua_datagram conf slots d a p =
    (if (case ua_client a of None \<Rightarrow> False | Some c \<Rightarrow> c \<noteq> fst d) then Some (a, p)
     else let a1 = a\<lparr>ua_client := Some (fst d)\<rparr>
       in case parseSOCKS5UDPPacket (take (64 * 1024) (snd d)) of
            None \<Rightarrow> None
          | Some (Inl e) \<Rightarrow> Some (a1, p)
          | Some (Inr (tgt, data)) \<Rightarrow>
              if strategy_rejects (IPStrategy conf) 0 tgt then Some (a1, p)
              else ua_send conf slots tgt data a1 p)"

fun ua_loop ::
  "'a CommonConfig_scheme \<Rightarrow> smux_session option list \<Rightarrow> (string \<times> bytes) list \<Rightarrow> udp_assoc \<Rightarrow> ECHPool
     \<Rightarrow> (udp_assoc \<times> ECHPool) option"
where
  "ua_loop conf slots [] a p = Some (a, p)"
| "ua_loop conf slots (d # ds) a p =
     (if \<not> ua_listening a then Some (a, p)
      else case ua_datagram conf slots d a p of
        None \<Rightarrow> None
      | Some (a1, p1) \<Rightarrow> ua_loop conf slots ds a1 p1)"

section \<open>Replies\<close>

text \<open>A write to a closed socket fails, which is ignored.\<close>

definition handleUDPResponse :: "string \<Rightarrow> bytes \<Rightarrow> udp_assoc \<Rightarrow> udp_assoc" where
  "handleUDPResponse addrStr data a = (case SplitHostPort_lax addrStr of (host, portStr) \<Rightarrow>
     (case Sscanf_d portStr of
        None \<Rightarrow> a
      | Some port \<Rightarrow> (case buildSOCKS5UDPPacket host port data of
          Inl e \<Rightarrow> a
        | Inr pkt \<Rightarrow> (case ua_client a of
            None \<Rightarrow> a
          | Some c \<Rightarrow> (if ua_listening a then a\<lparr>ua_replies := ua_replies a @ [(pkt, c)]\<rparr> else a)))))"

text \<open>The goroutine that \<^verbatim>\<open>send\<close> starts.\<close>

lemma client_readUDPReply_shorter:
  "client_readUDPReply s = (Inr m, s1) \<Longrightarrow> length (s_in s1) < length (s_in s)"
  by (auto simp: client_readUDPReply_def Let_def ReadFull_Inr_iff split: prod.splits sum.splits if_splits)

lemma handleUDPResponse_conn [simp]: "ua_conn (handleUDPResponse ad d a) = ua_conn a"
  by (auto simp: handleUDPResponse_def split: prod.split option.split sum.split)

function ua_receive :: "udp_assoc \<Rightarrow> udp_assoc" where
  "ua_receive a = (case ua_conn a of
     None \<Rightarrow> a
   | Some s \<Rightarrow> (case client_readUDPReply s of
       (Inl e, s1) \<Rightarrow> ua_Close (a\<lparr>ua_conn := Some s1\<rparr>)
     | (Inr (addr, payload), s1) \<Rightarrow> ua_receive (handleUDPResponse addr payload (a\<lparr>ua_conn := Some s1\<rparr>))))"
  by pat_completeness auto

termination ua_receive
  by (relation "measure (\<lambda>a. case ua_conn a of None \<Rightarrow> 0 | Some s \<Rightarrow> length (s_in s))")
     (auto dest: client_readUDPReply_shorter [OF sym])

declare ua_receive.simps [simp del]

section \<open>Facts\<close>

text \<open>
  Open means listening with the TCP connection up, closed means neither and no stream; the stream
  is set exactly while the association is open and has begun to receive.
\<close>

definition ua_inv :: "udp_assoc \<Rightarrow> bool" where
  "ua_inv a \<longleftrightarrow> (ua_listening a \<longleftrightarrow> \<not> ua_closed a) \<and> (ua_tcp a \<longleftrightarrow> \<not> ua_closed a)
     \<and> (ua_stream a \<longleftrightarrow> \<not> ua_closed a \<and> ua_receiving a) \<and> (ua_stream a \<longrightarrow> ua_conn a \<noteq> None)"

lemma ua_inv_new: "ua_inv new_assoc"
  by (simp add: ua_inv_def new_assoc_def)

lemma ua_inv_Close [simp]: "ua_inv a \<Longrightarrow> ua_inv (ua_Close a)"
  by (auto simp: ua_inv_def ua_Close_def)

lemma ua_inv_locked:
  "ua_send_locked conf slots t a p = Some (go_on, a', p') \<Longrightarrow> ua_inv a \<Longrightarrow> ua_inv a' \<and> ua_client a' = ua_client a"
  by (auto simp: ua_send_locked_def Let_def ua_inv_def split: if_splits option.splits prod.splits sum.splits)

lemma ua_client_Close [simp]: "ua_client (ua_Close a) = ua_client a"
  by (simp add: ua_Close_def)

lemma ua_inv_conn [simp]: "ua_inv a \<Longrightarrow> ua_inv (a\<lparr>ua_conn := Some s\<rparr>)"
  by (simp add: ua_inv_def)

lemma ua_inv_write: "ua_inv a \<Longrightarrow> ua_inv (ua_send_write d go_on a) \<and> ua_client (ua_send_write d go_on a) = ua_client a"
  by (auto simp: ua_send_write_def split: option.split prod.split sum.split)

lemma ua_inv_datagram:
  assumes "ua_datagram conf slots d a p = Some (a', p')" "ua_inv a"
  shows "ua_inv a' \<and> (ua_client a \<noteq> None \<longrightarrow> ua_client a' = ua_client a)"
proof -
  let ?a = "a\<lparr>ua_client := Some (fst d)\<rparr>"
  have i: "ua_inv ?a" using assms(2) by (simp add: ua_inv_def)
  have "ua_inv b \<and> ua_client b = Some (fst d)" if "ua_send conf slots t x ?a p = Some (b, q)" for t x b q
    using that i ua_inv_locked [of conf slots t ?a p] ua_inv_write [of _ x]
    by (auto simp: ua_send_def split: option.splits prod.splits)
  with assms i show ?thesis
    by (auto simp: ua_datagram_def Let_def split: if_splits option.splits sum.splits prod.splits)
qed

lemma ua_inv_loop:
  "ua_loop conf slots ds a p = Some (a', p') \<Longrightarrow> ua_inv a
     \<Longrightarrow> ua_inv a' \<and> (ua_client a \<noteq> None \<longrightarrow> ua_client a' = ua_client a)"
proof (induction ds arbitrary: a p)
  case (Cons d ds)
  show ?case
  proof (cases "ua_listening a")
    case True
    with Cons.prems obtain a1 p1 where 1: "ua_datagram conf slots d a p = Some (a1, p1)"
      "ua_loop conf slots ds a1 p1 = Some (a', p')" by (auto split: option.splits)
    from ua_inv_datagram [OF 1(1) Cons.prems(2)] Cons.IH [OF 1(2)] show ?thesis by auto
  qed (use Cons.prems in auto)
qed simp

lemma handleUDPResponse_frame [simp]:
  "ua_inv (handleUDPResponse ad d a) = ua_inv a" "ua_client (handleUDPResponse ad d a) = ua_client a"
  by (auto simp: handleUDPResponse_def ua_inv_def split: prod.split option.split sum.split)

lemma ua_inv_receive: "ua_inv a \<Longrightarrow> ua_inv (ua_receive a)"
proof (induction a rule: ua_receive.induct)
  case (1 a)
  show ?case
  proof (cases "ua_conn a")
    case None
    with 1(2) show ?thesis by (subst ua_receive.simps) simp
  next
    case (Some s)
    obtain r s1 where r: "client_readUDPReply s = (r, s1)" by (cases "client_readUDPReply s")
    have i: "ua_inv (a\<lparr>ua_conn := Some s1\<rparr>)" using 1(2) by simp
    show ?thesis
    proof (cases r)
      case (Inl e)
      with Some r i show ?thesis by (subst ua_receive.simps) simp
    next
      case (Inr m)
      obtain ad pl where m: "m = (ad, pl)" by fastforce
      have "ua_inv (ua_receive (handleUDPResponse ad pl (a\<lparr>ua_conn := Some s1\<rparr>)))"
        using 1(1) [OF Some r [symmetric] Inr m [symmetric]] i by simp
      with Some r Inr m show ?thesis by (subst ua_receive.simps) simp
    qed
  qed
qed

text \<open>Once the stream is open, every accepted datagram becomes a chunk on it.\<close>

definition accepted :: "'a CommonConfig_scheme \<Rightarrow> bytes \<Rightarrow> string \<times> bytes \<Rightarrow> bool" where
  "accepted conf pkt m \<longleftrightarrow> parseSOCKS5UDPPacket (take (64 * 1024) pkt) = Some (Inr m)
     \<and> \<not> strategy_rejects (IPStrategy conf) 0 (fst m) \<and> length (snd m) < 65536 \<and> length (fst m) \<le> 65535"

lemma ua_send_next:
  assumes "ua_inv a" "ua_stream a" "ua_conn a = Some s" "s_wr s = []" "length d < 65536"
  shows "\<exists>a' s'. ua_send conf slots t d a p = Some (a', p) \<and> ua_inv a' \<and> ua_stream a' \<and> ua_conn a' = Some s'
    \<and> s_wr s' = [] \<and> s_out s' = s_out s @ chunk_enc d \<and> ua_client a' = ua_client a"
proof -
  from chk.wr_enc [OF assms(5,4)] obtain s' where
    "client_writeChunk d s = (Inr (), s')" "s_out s' = s_out s @ chunk_enc d" "s_wr s' = []" by auto
  then show ?thesis
    using assms(1-3) by (auto simp: ua_send_def ua_send_locked_def ua_send_write_def Let_def ua_inv_def)
qed

lemma ua_loop_next:
  "list_all2 (accepted conf) pkts ms \<Longrightarrow> ua_inv a \<Longrightarrow> ua_stream a \<Longrightarrow> ua_conn a = Some s \<Longrightarrow> s_wr s = []
     \<Longrightarrow> ua_client a = Some ca \<Longrightarrow>
   \<exists>a' s'. ua_loop conf slots (List.map (Pair ca) pkts) a p = Some (a', p) \<and> ua_conn a' = Some s'
     \<and> s_out s' = s_out s @ concat (List.map (chunk_enc \<circ> snd) ms)"
proof (induction pkts ms arbitrary: a s rule: list_all2_induct)
  case (Cons pkt pkts m ms)
  obtain t d where m: "m = (t, d)" by fastforce
  have a: "a\<lparr>ua_client := Some ca\<rparr> = a" using Cons.prems(5) by simp
  from ua_send_next [OF Cons.prems(1-4), of d conf slots t p] Cons.hyps(1) m obtain a1 s1 where
    1: "ua_send conf slots t d a p = Some (a1, p)" "ua_inv a1" "ua_stream a1" "ua_conn a1 = Some s1"
      "s_wr s1 = []" "s_out s1 = s_out s @ chunk_enc d" "ua_client a1 = ua_client a"
    by (auto simp: accepted_def)
  have "ua_send conf slots t d (a\<lparr>ua_client := Some ca\<rparr>) p = Some (a1, p)" unfolding a by (rule 1(1))
  then have "ua_datagram conf slots (ca, pkt) a p = Some (a1, p)"
    using Cons.hyps(1) Cons.prems(5) by (simp add: ua_datagram_def accepted_def m)
  moreover have "ua_listening a" using Cons.prems(1,2) by (simp add: ua_inv_def)
  moreover have "ua_client a1 = Some ca" using 1(7) Cons.prems(5) by simp
  from Cons.IH [OF 1(2-5) this] obtain a' s' where
    "ua_loop conf slots (List.map (Pair ca) pkts) a1 p = Some (a', p)" "ua_conn a' = Some s'"
    "s_out s' = s_out s1 @ concat (List.map (chunk_enc \<circ> snd) ms)" by blast
  ultimately show ?case using 1(6) m by (auto simp: comp_def)
qed auto

lemma ua_loop_first:
  assumes "list_all2 (accepted conf) (pkt # pkts) (m # ms)" "s_wr s = []" "s_out s = []"
    "openBestStream (DialTimeout conf) slots p = Some (Inr (s, ch), p1)"
  shows "\<exists>a' s'. ua_loop conf slots (List.map (Pair ca) (pkt # pkts)) new_assoc p = Some (a', p1)
    \<and> ua_conn a' = Some s' \<and> s_out s' = header_enc (StreamKindUDP, IPStrategy conf, fst m)
         @ concat (List.map (chunk_enc \<circ> snd) (m # ms))"
proof -
  obtain t d where m: "m = (t, d)" by fastforce
  have acc: "accepted conf pkt (t, d)" "list_all2 (accepted conf) pkts ms" using assms(1) m by auto
  then have len: "length t \<le> 65535" "length d < 65536" by (auto simp: accepted_def)
  from udp_open.opens [OF assms(4,2) len(1)] assms(3) obtain s1 where
    s1: "openUDPStream (IPStrategy conf) (DialTimeout conf) slots t p = Some (Inr (s1, ch), None, p1)"
      "s_out s1 = header_enc (StreamKindUDP, IPStrategy conf, t)" "s_wr s1 = []" by auto
  from chk.wr_enc [OF len(2) s1(3)] obtain s2 where
    s2: "client_writeChunk d s1 = (Inr (), s2)" "s_out s2 = s_out s1 @ chunk_enc d" "s_wr s2 = []" by auto
  let ?a = "new_assoc\<lparr>ua_client := Some ca, ua_receiving := True, ua_target := t, ua_stream := True,
      ua_conn := Some s2, ua_channelID := int ch\<rparr>"
  have send: "ua_send conf slots t d (new_assoc\<lparr>ua_client := Some ca\<rparr>) p = Some (?a, p1)"
    using s1(1) s2(1)
    by (simp add: ua_send_def ua_send_locked_def ua_send_write_def Let_def new_assoc_def)
  have "ua_datagram conf slots (ca, pkt) new_assoc p = Some (?a, p1)"
    using acc(1) send by (simp add: ua_datagram_def accepted_def) (simp add: new_assoc_def)
  moreover have "ua_inv ?a" "ua_stream ?a" "ua_conn ?a = Some s2" "ua_client ?a = Some ca" "ua_listening new_assoc"
    by (simp_all add: ua_inv_def new_assoc_def)
  moreover from ua_loop_next [OF acc(2) calculation(2,3,4) s2(3) calculation(5), of slots p1] obtain a' s' where
    "ua_loop conf slots (List.map (Pair ca) pkts) ?a p1 = Some (a', p1)" "ua_conn a' = Some s'"
    "s_out s' = s_out s2 @ concat (List.map (chunk_enc \<circ> snd) ms)" by blast
  ultimately show ?thesis using s1(2) s2(2) m by (auto simp: comp_def)
qed

lemma ua_Close_sel [simp]: "ua_closed (ua_Close a)" "ua_replies (ua_Close a) = ua_replies a"
  by (simp_all add: ua_Close_def)

text \<open>The packet made of a reply, if any.\<close>

definition reply_packets :: "string \<times> bytes \<Rightarrow> bytes list" where
  "reply_packets m = (case SplitHostPort_lax (fst m) of (host, portStr) \<Rightarrow>
     (case Sscanf_d portStr of
        None \<Rightarrow> []
      | Some port \<Rightarrow> (case buildSOCKS5UDPPacket host port (snd m) of Inl e \<Rightarrow> [] | Inr pkt \<Rightarrow> [pkt])))"

lemma handleUDPResponse_packets:
  "ua_client a = Some c \<Longrightarrow> ua_replies (handleUDPResponse ad d a) =
     ua_replies a @ (if ua_listening a then List.map (\<lambda>b. (b, c)) (reply_packets (ad, d)) else [])"
  by (auto simp: handleUDPResponse_def reply_packets_def split: prod.split option.split sum.split)

text \<open>A reply from an IPv4 address.\<close>

lemma reply_packets_IPv4:
  assumes "length q = 4" "n \<le> 65535"
  shows "\<exists>b. reply_packets (JoinHostPort (dotted q) (dec_of_nat n), d) = [b]
    \<and> parseSOCKS5UDPPacket b = Some (Inr (JoinHostPort (dotted q) (dec_of_nat n), d))"
proof -
  have c: "CHR ''['' \<notin> set (dotted q)" "CHR '']'' \<notin> set (dotted q)" "CHR '':'' \<notin> set (dotted q)"
    by (simp_all add: dotted_def dec_of_nat_notin)
  have sp: "SplitHostPort (JoinHostPort (dotted q) (dec_of_nat n)) = Inr (dotted q, dec_of_nat n)"
    by (rule SplitHostPort_Join) (simp_all add: c dec_of_nat_notin)
  have ip: "ParseIP (dotted q) = Some (v4InV6Prefix @ q)" using assms(1) by (rule ParseIP_dotted)
  then have len: "length (dotted q) \<le> 255" using length_dotted [of q] by simp
  have st: "IP_String (v4InV6Prefix @ q) = dotted q"
    using assms(1) by (simp add: IP_String_def) (simp add: v4InV6Prefix_def)
  from build_parse [of "dotted q" "int n" d] len ip assms st obtain b where
    "buildSOCKS5UDPPacket (dotted q) (int n) d = Inr b"
    "parseSOCKS5UDPPacket b = Some (Inr (dotted q @ '':'' @ dec_of_nat n, d))" by auto
  moreover have "Sscanf_d (dec_of_nat n) = Some (int n)" using assms(2) by (intro Sscanf_d_dec_of_nat) simp
  ultimately show ?thesis
    using sp c(3) by (intro exI [of _ b]) (simp add: reply_packets_def SplitHostPort_lax_def JoinHostPort_def)
qed

lemma handle_reply:
  assumes "length q = 4" "n \<le> 65535" "ua_client a = Some ca" "ua_listening a"
  shows "\<exists>b. handleUDPResponse (JoinHostPort (dotted q) (dec_of_nat n)) d a = a\<lparr>ua_replies := ua_replies a @ [(b, ca)]\<rparr>
    \<and> parseSOCKS5UDPPacket b = Some (Inr (JoinHostPort (dotted q) (dec_of_nat n), d))"
proof -
  from reply_packets_IPv4 [OF assms(1,2)] obtain b where
    "reply_packets (JoinHostPort (dotted q) (dec_of_nat n), d) = [b]"
    "parseSOCKS5UDPPacket b = Some (Inr (JoinHostPort (dotted q) (dec_of_nat n), d))" by blast
  with assms(3,4) show ?thesis
    by (auto simp: handleUDPResponse_def reply_packets_def split: prod.splits option.splits sum.splits)
qed

lemma receive_replies:
  "list_all (\<lambda>(q, n, d). length q = 4 \<and> n \<le> 65535 \<and> length d < 65536) ms \<Longrightarrow>
   s_in s = concat (List.map (\<lambda>(q, n, d). udp_reply_enc (JoinHostPort (dotted q) (dec_of_nat n), d)) ms) \<Longrightarrow>
   ua_conn a = Some s \<Longrightarrow> ua_client a = Some ca \<Longrightarrow> ua_listening a \<Longrightarrow>
   \<exists>pkts. ua_replies (ua_receive a) = ua_replies a @ List.map (\<lambda>b. (b, ca)) pkts
    \<and> list_all2 (\<lambda>b (q, n, d). parseSOCKS5UDPPacket b = Some (Inr (JoinHostPort (dotted q) (dec_of_nat n), d))) pkts ms
    \<and> ua_closed (ua_receive a)"
proof (induction ms arbitrary: s a)
  case Nil
  then have "client_readUDPReply s = (Inl (s_end s), s\<lparr>s_in := []\<rparr>)"
    by (simp add: client_readUDPReply_def ReadFull_short)
  with Nil.prems(3) have "ua_receive a = ua_Close (a\<lparr>ua_conn := Some (s\<lparr>s_in := []\<rparr>)\<rparr>)"
    by (subst ua_receive.simps) simp
  then show ?case by simp
next
  case (Cons m ms)
  obtain q n d where m: "m = (q, n, d)" by (cases m)
  with Cons.prems(1) have ok: "length q = 4" "n \<le> 65535" "length d < 65536"
    "list_all (\<lambda>(q, n, d). length q = 4 \<and> n \<le> 65535 \<and> length d < 65536) ms" by simp_all
  let ?ad = "JoinHostPort (dotted q) (dec_of_nat n)"
  have "length ?ad \<le> 65535" using length_dotted [of q] length_dec_of_nat(5) [of n] ok(2) by (simp add: JoinHostPort_def)
  with ok(3) Cons.prems(2) m udp.rd_enc [of "(?ad, d)" s] obtain s1 where
    s1: "client_readUDPReply s = (Inr (?ad, d), s1)"
      "s_in s1 = concat (List.map (\<lambda>(q, n, d). udp_reply_enc (JoinHostPort (dotted q) (dec_of_nat n), d)) ms)"
    by auto
  let ?a = "a\<lparr>ua_conn := Some s1\<rparr>"
  have "ua_client ?a = Some ca" "ua_listening ?a" using Cons.prems(4,5) by simp_all
  from handle_reply [OF ok(1,2) this, of d] obtain b where
    b: "handleUDPResponse ?ad d ?a = ?a\<lparr>ua_replies := ua_replies a @ [(b, ca)]\<rparr>"
      "parseSOCKS5UDPPacket b = Some (Inr (?ad, d))" by auto
  let ?a1 = "?a\<lparr>ua_replies := ua_replies a @ [(b, ca)]\<rparr>"
  have rec: "ua_receive a = ua_receive ?a1"
    using Cons.prems(3) s1(1) b(1) by (subst ua_receive.simps) simp
  have "ua_conn ?a1 = Some s1" "ua_client ?a1 = Some ca" "ua_listening ?a1" using Cons.prems(4,5) by simp_all
  from Cons.IH [OF ok(4) s1(2) this] obtain pkts where
    "ua_replies (ua_receive ?a1) = ua_replies ?a1 @ List.map (\<lambda>b. (b, ca)) pkts"
    "list_all2 (\<lambda>b (q, n, d). parseSOCKS5UDPPacket b = Some (Inr (JoinHostPort (dotted q) (dec_of_nat n), d))) pkts ms"
    "ua_closed (ua_receive ?a1)" by blast
  then show ?case unfolding rec using b(2) m by (intro exI [of _ "b # pkts"]) simp
qed

lemma accepted_IPv4:
  "accepted (zero_client\<lparr>DialTimeout := 5\<rparr>) ([0, 0, 0, 1] @ [a, b, c, d] @ [0, 53, 7, 7])
     (JoinHostPort (dotted [a, b, c, d]) (dec_of_nat 53), [7, 7])"
proof -
  have c: "CHR '':'' \<notin> set (dotted [a, b, c, d])" by (simp add: dotted_def dec_of_nat_notin)
  have "get_u16 0 53 = 53" by (simp add: get_u16_def)
  with c length_dotted [of "[a, b, c, d]"] length_dec_of_nat(2) [of 53] show ?thesis
    by (simp add: accepted_def parseSOCKS5UDPPacket_def index_at_def slice_def packet_end_def IP_String_def
        To4_def JoinHostPort_def strategy_rejects_def zero_client_def Let_def)
qed

section \<open>Properties\<close>

text \<open>
  The state of an association. An association listens and keeps its TCP connection exactly until
  it is closed, and has its stream exactly from the first accepted datagram until then: a new one
  satisfies this, and the loop over datagrams, the reply goroutine and \<^verbatim>\<open>Close\<close> preserve it, whatever
  the packets, the pool and the stream do. Once a client address is known it never changes.
\<close>

theorem udp_assoc_invariant:
  assumes "ua_inv a" "ua_loop conf slots ds a p = Some (a', p')"
  shows "ua_inv new_assoc \<and> ua_inv a' \<and> ua_inv (ua_receive a') \<and> ua_inv (ua_Close a')
    \<and> (\<forall>c. ua_client a = Some c \<longrightarrow> ua_client a' = Some c)"
  using ua_inv_new ua_inv_loop [OF assms(2,1)] ua_inv_receive [of a'] by auto

theorem udp_assoc_invariant_witness:
  "ua_loop zero_client [] [(''c'', [])] new_assoc \<lparr>wsServerAddr = [], connectionNum = 0, targetIPs = [],
      clientID = [], smuxConns = [], channelRTT = [], selectCounter = 0\<rparr> =
     Some (new_assoc\<lparr>ua_client := Some ''c''\<rparr>, \<lparr>wsServerAddr = [], connectionNum = 0, targetIPs = [],
      clientID = [], smuxConns = [], channelRTT = [], selectCounter = 0\<rparr>)
   \<and> ua_inv (new_assoc\<lparr>ua_client := Some ''c''\<rparr>)"
proof -
  let ?p = "\<lparr>wsServerAddr = [], connectionNum = 0, targetIPs = [], clientID = [], smuxConns = [],
      channelRTT = [], selectCounter = 0\<rparr>"
  have r: "ua_loop zero_client [] [(''c'', [])] new_assoc ?p = Some (new_assoc\<lparr>ua_client := Some ''c''\<rparr>, ?p)"
    by (simp add: ua_datagram_def parseSOCKS5UDPPacket_def bad_packet_def new_assoc_def)
  show ?thesis using udp_assoc_invariant [OF ua_inv_new r] r by (intro conjI) auto
qed

text \<open>
  An association talks to its first target only. Whatever targets the datagrams of the client
  carry, the stream gets the open header for the first target and then the payloads alone, and
  the relay at the other end sends all of them to the address the first target resolves to.
\<close>

theorem udp_assoc_first_target_only:
  assumes "list_all2 (accepted conf) (pkt # pkts) ((target, d) # ms)" "s_wr s = []" "s_out s = []"
    "openBestStream (DialTimeout conf) slots p = Some (Inr (s, ch), p1)"
    "resolveUDPAddr lookup target (IPStrategy conf) = Inr (ip, port)"
  shows "\<exists>a' s'. ua_loop conf slots (List.map (Pair ca) (pkt # pkts)) new_assoc p = Some (a', p1)
    \<and> ua_conn a' = Some s' \<and> (\<forall>r. s_in r = s_out s' \<longrightarrow>
      (\<exists>r1. ReadSmuxOpenHeader r = (Inr (StreamKindUDP, IPStrategy conf, target), r1)
        \<and> fst (handleUDPStream True lookup (\<lambda>_. True) events target (IPStrategy conf) r1)
          = List.map (\<lambda>b. (ip, port, b)) (List.filter (\<lambda>b. b \<noteq> []) (d # List.map snd ms))))"
proof -
  from ua_loop_first [OF assms(1-4), of ca] obtain a' s' where
    1: "ua_loop conf slots (List.map (Pair ca) (pkt # pkts)) new_assoc p = Some (a', p1)" "ua_conn a' = Some s'"
      "s_out s' = header_enc (StreamKindUDP, IPStrategy conf, target)
         @ concat (List.map chunk_enc (d # List.map snd ms))" by (auto simp: comp_def simp del: ua_loop.simps)
  have "list_all (\<lambda>m. length (snd m) < 65536) ((target, d) # ms)"
    using assms(1) by (auto simp: list_all_length list_all2_conv_all_nth accepted_def)
  then have len: "list_all (\<lambda>b. length b < 65536) (d # List.map snd ms)" by (simp add: list.pred_map comp_def)
  have t: "length target \<le> 65535" using assms(1) by (simp add: accepted_def)
  have "\<exists>r1. ReadSmuxOpenHeader r = (Inr (StreamKindUDP, IPStrategy conf, target), r1)
        \<and> fst (handleUDPStream True lookup (\<lambda>_. True) events target (IPStrategy conf) r1)
          = List.map (\<lambda>b. (ip, port, b)) (List.filter (\<lambda>b. b \<noteq> []) (d # List.map snd ms))"
    if r: "s_in r = s_out s'" for r
  proof -
    obtain r1 where r1: "ReadSmuxOpenHeader r = (Inr (StreamKindUDP, IPStrategy conf, target), r1)"
        "s_in r1 = concat (List.map chunk_enc (d # List.map snd ms))"
      using r [unfolded 1(3)] t by (rule udp_open.relay_reads)
    from udp_up_chunks [OF len r1(2)] r1(1) assms(5) show ?thesis by (simp add: handleUDPStream_def)
  qed
  with 1(1,2) show ?thesis by blast
qed

theorem udp_assoc_first_target_only_witness:
  "let pkt = (\<lambda>q. [0, 0, 0, 1] @ q @ [0, 53, 7, 7]);
     conf = zero_client\<lparr>DialTimeout := 5\<rparr>
   in \<exists>a' s'. ua_loop conf one_slot (List.map (Pair ''c'') [pkt [8, 8, 8, 8], pkt [9, 9, 9, 9]]) new_assoc one_channel
       = Some (a', one_channel\<lparr>selectCounter := 1\<rparr>) \<and> ua_conn a' = Some s'"
proof -
  let ?pkt = "\<lambda>q. [0, 0, 0, 1] @ q @ [0, 53, 7, 7] :: bytes"
  let ?conf = "zero_client\<lparr>DialTimeout := 5\<rparr>"
  let ?t = "\<lambda>q. JoinHostPort (dotted q) (dec_of_nat 53)"
  have o: "openBestStream (DialTimeout ?conf) one_slot one_channel
      = Some (Inr (fresh_stream [], 1), one_channel\<lparr>selectCounter := 1\<rparr>)" using open_one_channel by simp
  from accepted_IPv4 have l: "list_all2 (accepted ?conf) [?pkt [8, 8, 8, 8], ?pkt [9, 9, 9, 9]]
      [(?t [8, 8, 8, 8], [7, 7]), (?t [9, 9, 9, 9], [7, 7])]" by simp
  have res: "resolveUDPAddr (\<lambda>_. Inl Timeout) (?t [8, 8, 8, 8]) (IPStrategy ?conf) = Inr (v4InV6Prefix @ [8, 8, 8, 8], int 53)"
    using resolveUDPAddr_IPv4 [where quad = "[8, 8, 8, 8]" and n = 53 and st = "IPStrategy ?conf"
        and lookup = "\<lambda>_. Inl Timeout"] by (simp add: zero_client_def)
  from udp_assoc_first_target_only [OF l fresh_stream_sel(3,2) o res] show ?thesis unfolding Let_def by blast
qed

text \<open>
  Replies come back in SOCKS5 packets while the association is open. For replies the relay has put on the stream, each from
  an IPv4 address and port, the client is sent one packet per reply, in order, from which
  \<^verbatim>\<open>parseSOCKS5UDPPacket\<close> gives the same address and payload; when the stream ends, the association
  is closed.
\<close>

theorem udp_replies_delivered:
  assumes "list_all (\<lambda>(q, n, d). length q = 4 \<and> n \<le> 65535 \<and> length d < 65536) ms"
    "s_in s = concat (List.map (\<lambda>(q, n, d). udp_reply_enc (JoinHostPort (dotted q) (dec_of_nat n), d)) ms)"
    "ua_conn a = Some s" "ua_client a = Some ca" "ua_listening a"
  shows "\<exists>pkts. ua_replies (ua_receive a) = ua_replies a @ List.map (\<lambda>b. (b, ca)) pkts
    \<and> list_all2 (\<lambda>b (q, n, d). parseSOCKS5UDPPacket b = Some (Inr (JoinHostPort (dotted q) (dec_of_nat n), d))) pkts ms
    \<and> ua_closed (ua_receive a)"
  using assms by (rule receive_replies)

theorem udp_replies_delivered_witness:
  "let m = (JoinHostPort (dotted [1, 1, 1, 1]) (dec_of_nat 53), [9]) in
   \<exists>pkts. ua_replies (ua_receive (new_assoc\<lparr>ua_client := Some ''c'', ua_conn := Some (fresh_stream (udp_reply_enc m))\<rparr>))
      = List.map (\<lambda>b. (b, ''c'')) pkts \<and> length pkts = 1"
proof -
  have e: "ua_replies (new_assoc\<lparr>ua_client := Some ''c'', ua_conn := c\<rparr>) = []" for c by (simp add: new_assoc_def)
  have l: "ua_listening new_assoc" by (simp add: new_assoc_def)
  from udp_replies_delivered [of "[([1, 1, 1, 1], 53, [9])]"
      "fresh_stream (udp_reply_enc (JoinHostPort (dotted [1, 1, 1, 1]) (dec_of_nat 53), [9]))"
      "new_assoc\<lparr>ua_client := Some ''c'', ua_conn := Some (fresh_stream
         (udp_reply_enc (JoinHostPort (dotted [1, 1, 1, 1]) (dec_of_nat 53), [9])))\<rparr>" "''c''"]
  obtain pkts where "ua_replies (ua_receive (new_assoc\<lparr>ua_client := Some ''c'', ua_conn := Some (fresh_stream
         (udp_reply_enc (JoinHostPort (dotted [1, 1, 1, 1]) (dec_of_nat 53), [9])))\<rparr>)) = List.map (\<lambda>b. (b, ''c'')) pkts"
      "length pkts = 1" unfolding e using l by (auto dest: list_all2_lengthD)
  then show ?thesis unfolding Let_def by blast
qed

end
