(* ===== verification/UdpAssocRun.thy ===== *)
theory UdpAssocRun
  imports UdpAssoc
begin

text \<open>
  The SOCKS5 UDP association with its goroutines interleaved, \<^verbatim>\<open>cmd/client/main.go\<close>: the loop over datagrams with its
  locked sections, the goroutine that \<^verbatim>\<open>send\<close> starts for the replies, the reader of the TCP connection, whose end closes
  the association, and the rest of the program, which changes the pool.

  \<^verbatim>\<open>as_sent\<close> only records the payloads handed to \<^verbatim>\<open>writeChunk\<close>, \<^verbatim>\<open>as_first\<close> the target of the stream, \<^verbatim>\<open>as_incoming\<close> what
  the stream brings, and \<^verbatim>\<open>as_got\<close> the replies read from it.
\<close>

datatype assoc_loop = AReading | AChecking string bytes | AParsing bytes | ASending string bytes
  | AWriting bytes "bool option" | AEnded | APanicked
datatype assoc_recv = VIdle | VReading | VHandling string bytes | VClosing | VDone

record assoc_sys =
  as_assoc :: udp_assoc
  as_pool :: ECHPool
  as_loop :: assoc_loop
  as_recv :: assoc_recv
  as_tcp :: bool
  as_sent :: "bytes list"
  as_first :: string
  as_incoming :: bytes
  as_got :: "(string \<times> bytes) list"

definition assoc_start :: "ECHPool \<Rightarrow> assoc_sys" where
  "assoc_start p = \<lparr>as_assoc = new_assoc, as_pool = p, as_loop = AReading, as_recv = VIdle, as_tcp = True,
     as_sent = [], as_first = [], as_incoming = [], as_got = []\<rparr>"

text \<open>What the multiplexer promises of a stream it opens: nothing is written on it and it is open.\<close>

definition opens_fresh :: "int \<Rightarrow> smux_session option list \<Rightarrow> ECHPool \<Rightarrow> bool" where
  "opens_fresh timeout slots p \<longleftrightarrow> (case openBestStream timeout slots p of
     Some (Inr (s, ch), q) \<Rightarrow> s_out s = [] \<and> \<not> s_closed s | _ \<Rightarrow> True)"

text \<open>
  The loop (\<open>al_\<close>): a datagram is read into 64 KiB unless the socket is closed; its sender is compared under the
  lock; it is parsed and judged by the strategy; \<^verbatim>\<open>send\<close> runs under the lock and then writes, which fails on a closed
  stream. The reply goroutine (\<open>av_\<close>): a message is read, handled under the lock; an error closes the association.
\<close>

inductive assoc_step :: "'a CommonConfig_scheme \<Rightarrow> assoc_sys \<Rightarrow> assoc_sys \<Rightarrow> bool" for conf where
  al_read: "as_loop x = AReading \<Longrightarrow> ua_listening (as_assoc x) \<Longrightarrow>
    assoc_step conf x (x\<lparr>as_loop := AChecking from (take (64 * 1024) b)\<rparr>)"
| al_ends: "as_loop x = AReading \<Longrightarrow> \<not> ua_listening (as_assoc x) \<Longrightarrow> assoc_step conf x (x\<lparr>as_loop := AEnded\<rparr>)"
| al_foreign: "as_loop x = AChecking from b \<Longrightarrow> ua_client (as_assoc x) = Some c \<Longrightarrow> c \<noteq> from \<Longrightarrow>
    assoc_step conf x (x\<lparr>as_loop := AReading\<rparr>)"
| al_client: "as_loop x = AChecking from b \<Longrightarrow> ua_client (as_assoc x) = None \<or> ua_client (as_assoc x) = Some from \<Longrightarrow>
    assoc_step conf x (x\<lparr>as_loop := AParsing b, as_assoc := (as_assoc x)\<lparr>ua_client := Some from\<rparr>\<rparr>)"
| al_parse_panic: "as_loop x = AParsing b \<Longrightarrow> parseSOCKS5UDPPacket b = None \<Longrightarrow>
    assoc_step conf x (x\<lparr>as_loop := APanicked\<rparr>)"
| al_unparsed: "as_loop x = AParsing b \<Longrightarrow> parseSOCKS5UDPPacket b = Some (Inl e) \<Longrightarrow>
    assoc_step conf x (x\<lparr>as_loop := AReading\<rparr>)"
| al_rejected: "as_loop x = AParsing b \<Longrightarrow> parseSOCKS5UDPPacket b = Some (Inr (tgt, data)) \<Longrightarrow>
    strategy_rejects (IPStrategy conf) 0 tgt \<Longrightarrow> assoc_step conf x (x\<lparr>as_loop := AReading\<rparr>)"
| al_parsed: "as_loop x = AParsing b \<Longrightarrow> parseSOCKS5UDPPacket b = Some (Inr (tgt, data)) \<Longrightarrow>
    \<not> strategy_rejects (IPStrategy conf) 0 tgt \<Longrightarrow> assoc_step conf x (x\<lparr>as_loop := ASending tgt data\<rparr>)"
| al_send_panic: "as_loop x = ASending tgt data \<Longrightarrow> ua_send_locked conf slots tgt (as_assoc x) (as_pool x) = None \<Longrightarrow>
    assoc_step conf x (x\<lparr>as_loop := APanicked\<rparr>)"
| al_send: "as_loop x = ASending tgt data \<Longrightarrow>
    (\<not> ua_closed (as_assoc x) \<and> \<not> ua_receiving (as_assoc x) \<longrightarrow> opens_fresh (DialTimeout conf) slots (as_pool x)) \<Longrightarrow>
    ua_send_locked conf slots tgt (as_assoc x) (as_pool x) = Some (go_on, a, p) \<Longrightarrow>
    assoc_step conf x (x\<lparr>as_loop := AWriting data go_on, as_assoc := a, as_pool := p,
      as_recv := (if as_recv x = VIdle \<and> ua_stream a then VReading else as_recv x),
      as_first := (if ua_receiving (as_assoc x) then as_first x else tgt),
      as_incoming := (if ua_receiving (as_assoc x) then as_incoming x
        else case ua_conn a of None \<Rightarrow> [] | Some s \<Rightarrow> s_in s)\<rparr>)"
| al_write: "as_loop x = AWriting data (Some True) \<Longrightarrow> ua_conn (as_assoc x) = Some s \<Longrightarrow> \<not> s_closed s \<Longrightarrow>
    assoc_step conf x (x\<lparr>as_loop := AReading, as_assoc := ua_send_write data (Some True) (as_assoc x),
      as_sent := as_sent x @ [data]\<rparr>)"
| al_write_closed: "as_loop x = AWriting data (Some True) \<Longrightarrow> ua_conn (as_assoc x) = Some s \<Longrightarrow> s_closed s \<Longrightarrow>
    assoc_step conf x (x\<lparr>as_loop := AReading, as_assoc := ua_Close (as_assoc x)\<rparr>)"
| al_no_stream: "as_loop x = AWriting data go_on \<Longrightarrow> go_on \<noteq> Some True \<Longrightarrow>
    assoc_step conf x (x\<lparr>as_loop := AReading, as_assoc := ua_send_write data go_on (as_assoc x)\<rparr>)"
| av_read: "as_recv x = VReading \<Longrightarrow> ua_conn (as_assoc x) = Some s \<Longrightarrow> \<not> s_closed s \<Longrightarrow>
    client_readUDPReply s = (Inr (ad, pl), s1) \<Longrightarrow>
    assoc_step conf x (x\<lparr>as_recv := VHandling ad pl, as_got := as_got x @ [(ad, pl)],
      as_assoc := (as_assoc x)\<lparr>ua_conn := Some s1\<rparr>\<rparr>)"
| av_error: "as_recv x = VReading \<Longrightarrow> ua_conn (as_assoc x) = Some s \<Longrightarrow> \<not> s_closed s \<Longrightarrow>
    client_readUDPReply s = (Inl e, s1) \<Longrightarrow>
    assoc_step conf x (x\<lparr>as_recv := VClosing, as_assoc := (as_assoc x)\<lparr>ua_conn := Some s1\<rparr>\<rparr>)"
| av_closed: "as_recv x = VReading \<Longrightarrow> ua_conn (as_assoc x) = Some s \<Longrightarrow> s_closed s \<Longrightarrow>
    assoc_step conf x (x\<lparr>as_recv := VClosing\<rparr>)"
| av_handle: "as_recv x = VHandling ad pl \<Longrightarrow>
    assoc_step conf x (x\<lparr>as_recv := VReading, as_assoc := handleUDPResponse ad pl (as_assoc x)\<rparr>)"
| av_close: "as_recv x = VClosing \<Longrightarrow> assoc_step conf x (x\<lparr>as_recv := VDone, as_assoc := ua_Close (as_assoc x)\<rparr>)"
| tcp_ends: "as_tcp x \<Longrightarrow> assoc_step conf x (x\<lparr>as_tcp := False, as_assoc := ua_Close (as_assoc x)\<rparr>)"
| pool_changes: "assoc_step conf x (x\<lparr>as_pool := p\<rparr>)"

inductive_cases assoc_stepE: "assoc_step conf x y"

definition assoc_reach :: "'a CommonConfig_scheme \<Rightarrow> ECHPool \<Rightarrow> assoc_sys \<Rightarrow> bool" where
  "assoc_reach conf p x \<longleftrightarrow> (assoc_step conf)\<^sup>*\<^sup>* (assoc_start p) x"

section \<open>What the association keeps\<close>

definition assoc_ctl :: "assoc_sys \<Rightarrow> bool" where
  "assoc_ctl x \<longleftrightarrow> (let a = as_assoc x in
     ua_inv a \<and> (as_recv x \<noteq> VIdle \<longrightarrow> ua_receiving a) \<and> (ua_stream a \<longrightarrow> as_recv x \<noteq> VIdle)
     \<and> (ua_conn a \<noteq> None \<longleftrightarrow> as_recv x \<noteq> VIdle)
     \<and> (\<forall>d g. as_loop x = AWriting d g \<longrightarrow> g = Some True \<longrightarrow> ua_conn a \<noteq> None)
     \<and> (as_recv x = VDone \<longrightarrow> ua_closed a) \<and> (\<not> as_tcp x \<longrightarrow> ua_closed a)
     \<and> (\<forall>r \<in> set (ua_replies a). ua_client a = Some (snd r)))"

text \<open>What the operations leave alone.\<close>

lemma ua_Close_frame [simp]:
  "ua_receiving (ua_Close a) = ua_receiving a" "(ua_conn (ua_Close a) = None) = (ua_conn a = None)"
  "ua_inv a \<Longrightarrow> \<not> ua_stream (ua_Close a)" "(\<exists>s. ua_conn (ua_Close a) = Some s) \<longleftrightarrow> (\<exists>s. ua_conn a = Some s)"
  by (auto simp: ua_Close_def ua_inv_def)

lemma ua_send_write_frame:
  "ua_receiving (ua_send_write d g a) = ua_receiving a" "ua_replies (ua_send_write d g a) = ua_replies a"
  "(ua_conn (ua_send_write d g a) = None) = (ua_conn a = None)" "ua_closed a \<Longrightarrow> ua_closed (ua_send_write d g a)"
  "ua_stream (ua_send_write d g a) \<Longrightarrow> ua_stream a"
  "(\<exists>s. ua_conn (ua_send_write d g a) = Some s) \<longleftrightarrow> (\<exists>s. ua_conn a = Some s)"
  by (auto simp: ua_send_write_def ua_Close_def split: option.splits prod.splits sum.splits if_splits)

lemma handleUDPResponse_all:
  "ua_receiving (handleUDPResponse ad d a) = ua_receiving a" "ua_closed (handleUDPResponse ad d a) = ua_closed a"
  "ua_stream (handleUDPResponse ad d a) = ua_stream a"
  "r \<in> set (ua_replies (handleUDPResponse ad d a)) \<Longrightarrow> r \<in> set (ua_replies a) \<or> ua_client a = Some (snd r)"
  by (auto simp: handleUDPResponse_def split: prod.splits option.splits sum.splits if_splits)

lemma ua_send_locked_frame:
  assumes "ua_send_locked conf slots t a p = Some (g, a', q)" "ua_inv a"
  shows "ua_inv a' \<and> ua_client a' = ua_client a \<and> ua_replies a' = ua_replies a \<and> (ua_closed a \<longrightarrow> ua_closed a')
    \<and> (ua_stream a \<longrightarrow> ua_conn a' = ua_conn a) \<and> (ua_receiving a \<longrightarrow> ua_receiving a' \<and> ua_conn a' = ua_conn a \<and> ua_stream a' = ua_stream a \<and> ua_closed a' = ua_closed a)
    \<and> (\<not> ua_receiving a \<longrightarrow> (ua_stream a' \<and> ua_receiving a' \<and> ua_conn a' \<noteq> None) \<or> (\<not> ua_stream a' \<and> ua_conn a' = ua_conn a))
    \<and> (g = Some True \<longrightarrow> ua_stream a')"
  using assms ua_inv_locked [OF assms]
  by (auto simp: ua_send_locked_def Let_def ua_inv_def split: if_splits option.splits prod.splits sum.splits)

lemma assoc_step_ctl:
  assumes "assoc_step conf x y" "assoc_ctl x"
  shows "assoc_ctl y"
  using assms(1)
proof cases
  case (al_send tgt data slots go_on a p)
  with assms(2) have "ua_inv (as_assoc x)" by (simp add: assoc_ctl_def Let_def)
  from ua_send_locked_frame [OF al_send(4) this] al_send(1,2) assms(2) show ?thesis
    by (cases "ua_receiving (as_assoc x)") (auto simp: assoc_ctl_def Let_def ua_inv_def)
next
  case (al_write data s)
  from assms(2) al_write(1,2) ua_inv_write [of "as_assoc x" data "Some True"] show ?thesis
    by (auto simp: assoc_ctl_def Let_def ua_send_write_frame dest: ua_send_write_frame(5))
next
  case (al_no_stream data go_on)
  from assms(2) al_no_stream(1,2) ua_inv_write [of "as_assoc x" data go_on] show ?thesis
    by (auto simp: assoc_ctl_def Let_def ua_send_write_frame dest: ua_send_write_frame(5))
next
  case (av_handle ad pl)
  from assms(2) av_handle show ?thesis
    by (auto simp: assoc_ctl_def Let_def handleUDPResponse_all(1-3) dest!: handleUDPResponse_all(4))
next
  case (al_client "from" b)
  with assms(2) show ?thesis by (auto simp: assoc_ctl_def Let_def ua_inv_def)
next
  case (al_write_closed data s)
  with assms(2) show ?thesis by (auto simp: assoc_ctl_def Let_def)
next
  case av_close
  with assms(2) show ?thesis by (auto simp: assoc_ctl_def Let_def)
next
  case tcp_ends
  with assms(2) show ?thesis by (auto simp: assoc_ctl_def Let_def)
qed (use assms(2) in \<open>auto simp: assoc_ctl_def Let_def\<close>)

lemma appends_unless_empty:
  "length b = n \<Longrightarrow> appends (\<lambda>s. if n = 0 then (Inr (), s)
     else case Write b s of (Inl e, s1) \<Rightarrow> (Inl e, s1) | (Inr _, s1) \<Rightarrow> (Inr (), s1)) b"
  using appends_bind [OF appends_Write [of b] appends_nothing [of "()"]] appends_nothing [of "()"] by (cases b) auto

lemma writeSmuxOpenHeader_appends: "length t \<le> 65535 \<Longrightarrow> appends (writeSmuxOpenHeader k st t) (header_enc (k, st, t))"
  unfolding writeSmuxOpenHeader_def [abs_def]
  using appends_bind [OF appends_Write [of "[k, st] @ put_u16 (of_nat (length t))"] appends_unless_empty [of "str_bytes t" "length t"]]
  by (simp add: header_enc_def)

lemma client_writeChunk_appends: "appends (client_writeChunk b) (chunk_enc b)"
proof (cases "length b < 65536")
  case True
  then show ?thesis
    unfolding client_writeChunk_def [abs_def]
    using appends_bind [OF appends_Write [of "put_u16 (of_nat (length b))"] appends_unless_empty [of b "length b"]]
    by (simp add: chunk_enc_def)
next
  case False
  then show ?thesis by (auto simp: client_writeChunk_def appends_def intro: exI [of _ 0])
qed

lemma stream_frames:
  "client_writeChunk b s = (r, s1) \<Longrightarrow> s_closed s1 = s_closed s"
  "writeSmuxOpenHeader k st t s = (r', s1) \<Longrightarrow> s_closed s1 = s_closed s"
  "client_readUDPReply s = (r'', s1) \<Longrightarrow> s_closed s1 = s_closed s \<and> s_out s1 = s_out s"
  "client_writeChunk b s = (r, s1) \<Longrightarrow> s_in s1 = s_in s"
  by (auto simp: client_writeChunk_def writeSmuxOpenHeader_def client_readUDPReply_def ReadFull_def ReadFull_into_def Let_def
      split: if_splits prod.splits sum.splits option.splits dest!: Write_frame)

text \<open>Opening: the stream is fresh, so what is on it is the header.\<close>

lemma openUDPStream_header:
  assumes "openUDPStream st timeout slots t p = Some (Inr (s, ch), l, q)" "opens_fresh timeout slots p"
  shows "s_out s = header_enc (StreamKindUDP, st, t) \<and> \<not> s_closed s \<and> length t \<le> 65535"
proof -
  from assms(1) obtain s0 where o: "openBestStream timeout slots p = Some (Inr (s0, ch), q)"
    "writeSmuxOpenHeader StreamKindUDP st t s0 = (Inr (), s)"
    by (auto simp: openUDPStream_def open_kind_def split: option.splits prod.splits sum.splits)
  from o(2) have len: "length t \<le> 65535" by (auto simp: writeSmuxOpenHeader_def split: if_splits)
  from writeSmuxOpenHeader_appends [OF this, of StreamKindUDP st] o assms(2) stream_frames(2) [OF o(2)] len
  show ?thesis unfolding appends_def opens_fresh_def by fastforce
qed

lemma ua_send_locked_opens:
  assumes "ua_send_locked conf slots t a p = Some (g, a', q)" "ua_conn a = None" "ua_conn a' = Some s" "ua_inv a"
    "\<not> ua_closed a \<and> \<not> ua_receiving a \<longrightarrow> opens_fresh (DialTimeout conf) slots p"
  shows "s_out s = header_enc (StreamKindUDP, IPStrategy conf, t) \<and> \<not> s_closed s \<and> \<not> ua_closed a' \<and> length t \<le> 65535"
  using assms
  by (auto simp: ua_send_locked_def Let_def ua_inv_def split: if_splits option.splits prod.splits sum.splits
      dest: openUDPStream_header)

lemma ua_send_write_stream:
  assumes "ua_conn a = Some s" "\<not> s_closed s" "ua_inv a" "ua_stream a"
  shows "\<exists>s' tail. ua_conn (ua_send_write d (Some True) a) = Some s' \<and> (s_closed s' \<longleftrightarrow> ua_closed (ua_send_write d (Some True) a))
    \<and> s_out s @ chunk_enc d = s_out s' @ tail \<and> (tail = [] \<or> s_closed s')"
proof -
  obtain r s1 where w: "client_writeChunk d s = (r, s1)" by fastforce
  then obtain k where k: "\<forall>v. r = Inr v \<longrightarrow> s_out s1 = s_out s @ chunk_enc d" "s_out s1 = s_out s @ take k (chunk_enc d)"
    using client_writeChunk_appends [of d] unfolding appends_def by meson
  have c: "\<not> s_closed s1" using stream_frames(1) [OF w] assms(2) by simp
  have nc: "\<not> ua_closed a" using assms(3,4) by (simp add: ua_inv_def)
  show ?thesis
  proof (cases r)
    case (Inl e)
    have "s_out s @ chunk_enc d = s_out s1 @ drop k (chunk_enc d)" using k(2) by simp
    with Inl w nc assms(1,4) show ?thesis
      by (intro exI [of _ "Close s1"] exI [of _ "drop k (chunk_enc d)"])
        (simp add: ua_send_write_def ua_Close_def Close_def)
  next
    case (Inr v)
    with k(1) w nc c assms(1) show ?thesis by (simp add: ua_send_write_def)
  qed
qed

lemma ua_Close_stream:
  assumes "ua_conn a = Some s" "s_closed s \<longleftrightarrow> ua_closed a" "ua_stream a \<longleftrightarrow> \<not> ua_closed a"
  shows "\<exists>s'. ua_conn (ua_Close a) = Some s' \<and> s_closed s' \<and> s_out s' = s_out s"
  using assms by (auto simp: ua_Close_def Close_def)

text \<open>The bytes on the stream; a step that leaves the stream as it is keeps the fact.\<close>

definition on_stream :: "byte \<Rightarrow> string \<Rightarrow> bytes list \<Rightarrow> udp_assoc \<Rightarrow> bool" where
  "on_stream strategy t ds a \<longleftrightarrow> (case ua_conn a of None \<Rightarrow> ds = []
     | Some s \<Rightarrow> (s_closed s \<longleftrightarrow> ua_closed a)
       \<and> (\<exists>tail. header_enc (StreamKindUDP, strategy, t) @ concat (List.map chunk_enc ds) = s_out s @ tail
            \<and> (tail = [] \<or> s_closed s)))"

lemma on_stream_Close:
  assumes "on_stream strategy t ds a" "ua_inv a" "ua_conn a \<noteq> None \<Longrightarrow> ua_receiving a"
  shows "on_stream strategy t ds (ua_Close a)"
proof (cases "ua_conn a")
  case (Some s)
  with assms(1) obtain tail where t: "s_closed s \<longleftrightarrow> ua_closed a"
    "header_enc (StreamKindUDP, strategy, t) @ concat (List.map chunk_enc ds) = s_out s @ tail"
    by (auto simp: on_stream_def)
  have "ua_stream a \<longleftrightarrow> \<not> ua_closed a" using assms(2,3) Some by (simp add: ua_inv_def)
  from ua_Close_stream [OF Some t(1) this] obtain s' where
    "ua_conn (ua_Close a) = Some s'" "s_closed s'" "s_out s' = s_out s" by blast
  with t(2) show ?thesis by (simp add: on_stream_def)
qed (use assms(1) in \<open>simp add: on_stream_def ua_Close_def\<close>)

lemma on_stream_write:
  assumes "on_stream strategy t ds a" "ua_conn a = Some s" "\<not> s_closed s" "ua_inv a" "ua_receiving a"
  shows "on_stream strategy t (ds @ [d]) (ua_send_write d (Some True) a)"
proof -
  have out: "header_enc (StreamKindUDP, strategy, t) @ concat (List.map chunk_enc ds) = s_out s" "\<not> ua_closed a"
    using assms(1-3) by (auto simp: on_stream_def)
  with assms(4,5) have "ua_stream a" by (simp add: ua_inv_def)
  from ua_send_write_stream [OF assms(2-4) this, of d] obtain s' tail where
    s': "ua_conn (ua_send_write d (Some True) a) = Some s'" "s_closed s' \<longleftrightarrow> ua_closed (ua_send_write d (Some True) a)"
      "s_out s @ chunk_enc d = s_out s' @ tail" "tail = [] \<or> s_closed s'" by blast
  have "header_enc (StreamKindUDP, strategy, t) @ concat (List.map chunk_enc (ds @ [d])) = s_out s' @ tail"
    using out(1) s'(3) by (metis append.assoc concat_append concat.simps list.map map_append append_Nil2)
  with s' show ?thesis by (auto simp: on_stream_def)
qed

lemma on_stream_frame:
  "ua_conn a' = ua_conn a \<Longrightarrow> ua_closed a' = ua_closed a \<Longrightarrow> on_stream st t ds a' = on_stream st t ds a"
  "ua_conn a = Some s \<Longrightarrow> s_closed s1 = s_closed s \<and> s_out s1 = s_out s
     \<Longrightarrow> on_stream st t ds (a\<lparr>ua_conn := Some s1\<rparr>) = on_stream st t ds a"
  by (cases "ua_conn a"; simp add: on_stream_def)+

lemma on_stream_send:
  assumes "on_stream (IPStrategy conf) t0 ds a" "ua_inv a" "ua_conn a \<noteq> None \<Longrightarrow> ua_receiving a"
    "\<not> ua_closed a \<and> \<not> ua_receiving a \<longrightarrow> opens_fresh (DialTimeout conf) slots p"
    "ua_send_locked conf slots t a p = Some (g, a', q)"
  shows "on_stream (IPStrategy conf) (if ua_receiving a then t0 else t) ds a'"
proof (cases "ua_receiving a")
  case True
  with ua_send_locked_frame [OF assms(5,2)] have "ua_conn a' = ua_conn a" "ua_closed a' = ua_closed a" by auto
  from on_stream_frame(1) [OF this] assms(1) True show ?thesis by simp
next
  case False
  with assms(1,3) have c: "ua_conn a = None" "ds = []" by (auto simp: on_stream_def split: option.splits)
  show ?thesis
  proof (cases "ua_conn a'")
    case (Some s)
    from ua_send_locked_opens [OF assms(5) c(1) Some assms(2,4)] Some c(2) False show ?thesis
      by (simp add: on_stream_def)
  qed (simp add: on_stream_def c(2))
qed

lemma assoc_step_stream:
  assumes "assoc_step conf x y" "assoc_ctl x" "on_stream (IPStrategy conf) (as_first x) (as_sent x) (as_assoc x)"
  shows "on_stream (IPStrategy conf) (as_first y) (as_sent y) (as_assoc y)"
proof -
  have inv: "ua_inv (as_assoc x)" "ua_conn (as_assoc x) \<noteq> None \<Longrightarrow> ua_receiving (as_assoc x)"
    using assms(2) by (auto simp: assoc_ctl_def Let_def)
  note close = on_stream_Close [OF assms(3) inv]
  from assms(1) show ?thesis
  proof cases
    case (al_send tgt data slots go_on a p)
    from on_stream_send [OF assms(3) inv al_send(3,4)] al_send(1) show ?thesis by simp
  next
    case (al_write data s)
    then have "ua_receiving (as_assoc x)" using inv(2) by simp
    from on_stream_write [OF assms(3) al_write(3,4) inv(1) this, of data] al_write(1) show ?thesis by simp
  next
    case (al_no_stream data go_on)
    from al_no_stream(3) have "ua_send_write data go_on (as_assoc x) = as_assoc x
        \<or> ua_send_write data go_on (as_assoc x) = ua_Close (as_assoc x)"
      by (auto simp: ua_send_write_def split: option.split)
    with close assms(3) al_no_stream(1) show ?thesis by auto
  next
    case (av_read s ad pl s1)
    with on_stream_frame(2) [OF av_read(3) stream_frames(3) [OF av_read(5)]] assms(3) show ?thesis by simp
  next
    case (av_error s e s1)
    with on_stream_frame(2) [OF av_error(3) stream_frames(3) [OF av_error(5)]] assms(3) show ?thesis by simp
  next
    case (av_handle ad pl)
    with assms(3) show ?thesis by (simp add: handleUDPResponse_all(2)
        on_stream_frame(1) [of "handleUDPResponse ad pl (as_assoc x)" "as_assoc x"])
  next
    case (al_client "from" b)
    with assms(3) show ?thesis
      by (simp add: on_stream_frame(1) [of "as_assoc x\<lparr>ua_client := Some from\<rparr>" "as_assoc x"])
  qed (use close assms(3) in simp_all)
qed

text \<open>Lengths: a datagram fits the buffer, so its payload fits a chunk, and the first target fits the header.\<close>

definition assoc_sizes :: "assoc_sys \<Rightarrow> bool" where
  "assoc_sizes x \<longleftrightarrow> (case as_loop x of
       AChecking a b \<Rightarrow> length b \<le> 65536 | AParsing b \<Rightarrow> length b \<le> 65536
     | ASending t d \<Rightarrow> length d < 65536 | AWriting d g \<Rightarrow> length d < 65536 | _ \<Rightarrow> True)
     \<and> list_all (\<lambda>b. length b < 65536) (as_sent x)
     \<and> (ua_conn (as_assoc x) \<noteq> None \<longrightarrow> length (as_first x) \<le> 65535)"

lemma packet_end_length: "packet_end h v6 off b = Some (Inr (t, d)) \<Longrightarrow> length d < length b"
  by (auto simp: packet_end_def bad_packet_def slice_def Let_def split: if_splits option.splits)

lemma parse_length: "parseSOCKS5UDPPacket b = Some (Inr (t, d)) \<Longrightarrow> length d < length b"
  by (auto simp: parseSOCKS5UDPPacket_def bad_packet_def dest: packet_end_length split: if_splits option.splits)

lemma assoc_step_sizes:
  assumes "assoc_step conf x y" "assoc_ctl x" "assoc_sizes x"
  shows "assoc_sizes y"
  using assms(1)
proof cases
  case (al_send tgt data slots go_on a p)
  have inv: "ua_inv (as_assoc x)" "ua_conn (as_assoc x) \<noteq> None \<Longrightarrow> ua_receiving (as_assoc x)"
    using assms(2) by (auto simp: assoc_ctl_def Let_def)
  have "length (if ua_receiving (as_assoc x) then as_first x else tgt) \<le> 65535" if "ua_conn a = Some s" for s
  proof (cases "ua_receiving (as_assoc x)")
    case True
    with ua_send_locked_frame [OF al_send(4) inv(1)] that assms(3) show ?thesis by (auto simp: assoc_sizes_def)
  next
    case False
    with inv(2) have "ua_conn (as_assoc x) = None" by blast
    from ua_send_locked_opens [OF al_send(4) this that inv(1) al_send(3)] False show ?thesis by simp
  qed
  with al_send(1,2) assms(3) show ?thesis by (auto simp: assoc_sizes_def)
next
  case (al_parsed b tgt data)
  with assms(3) parse_length [OF al_parsed(3)] show ?thesis by (simp add: assoc_sizes_def)
next
  case (al_write data s)
  with assms(3) show ?thesis by (simp add: assoc_sizes_def)
next
  case (al_no_stream data go_on)
  with assms(3) show ?thesis using ua_send_write_frame(3) [of data go_on "as_assoc x"] by (simp add: assoc_sizes_def)
qed (use assms(3) in \<open>auto simp: assoc_sizes_def\<close>)

text \<open>
  The way back: the client is known when the stream opens; what has been read is at the front of what the stream
  brings; and the packets sent are those of the replies handled, of which a closed socket drops the last ones.
\<close>

fun reading :: "assoc_recv \<Rightarrow> bool" where
  "reading VReading = True" | "reading (VHandling ad d) = True" | "reading _ = False"

fun unhandled :: "assoc_recv \<Rightarrow> (string \<times> bytes) list" where
  "unhandled (VHandling ad d) = [(ad, d)]" | "unhandled _ = []"

fun past_check :: "assoc_loop \<Rightarrow> bool" where
  "past_check (AParsing b) = True" | "past_check (ASending t d) = True" | "past_check _ = False"

definition back_client :: "assoc_sys \<Rightarrow> bool" where
  "back_client x \<longleftrightarrow> (as_recv x \<noteq> VIdle \<or> past_check (as_loop x) \<longrightarrow> ua_client (as_assoc x) \<noteq> None)"

definition back_input :: "assoc_sys \<Rightarrow> bool" where
  "back_input x \<longleftrightarrow> (as_recv x = VIdle \<longrightarrow> as_got x = [])
     \<and> list_all (\<lambda>(t, d). length t \<le> 65535 \<and> length d < 65536) (as_got x)
     \<and> (\<exists>rest. as_incoming x = concat (List.map udp_reply_enc (as_got x)) @ rest
          \<and> (reading (as_recv x) \<longrightarrow> map_option s_in (ua_conn (as_assoc x)) = Some rest))"

definition back_replies :: "assoc_sys \<Rightarrow> bool" where
  "back_replies x \<longleftrightarrow> (\<exists>handled rest. as_got x = handled @ unhandled (as_recv x)
     \<and> concat (List.map reply_packets handled) = List.map fst (ua_replies (as_assoc x)) @ rest
     \<and> (rest = [] \<or> ua_closed (as_assoc x)))"

lemma conn_in_frame [simp]:
  "map_option s_in (ua_conn (ua_Close a)) = map_option s_in (ua_conn a)"
  "map_option s_in (ua_conn (ua_send_write d g a)) = map_option s_in (ua_conn a)"
proof -
  show close: "map_option s_in (ua_conn (ua_Close a)) = map_option s_in (ua_conn a)" for a
    by (cases "ua_conn a") (simp_all add: ua_Close_def Close_def)
  show "map_option s_in (ua_conn (ua_send_write d g a)) = map_option s_in (ua_conn a)"
    by (auto simp: ua_send_write_def close simp del: map_option_eq_Some dest: stream_frames(4) split: option.split prod.split sum.split)
qed

lemma back_client_step:
  assumes "assoc_step conf x y" "assoc_ctl x" "back_client x"
  shows "back_client y"
  using assms(1)
proof cases
  case (al_send tgt data slots go_on a p)
  have "ua_inv (as_assoc x)" using assms(2) by (simp add: assoc_ctl_def Let_def)
  from ua_send_locked_frame [OF al_send(4) this] al_send(1,2) assms(3) show ?thesis by (simp add: back_client_def)
next
  case (al_write data s)
  from ua_inv_write [of "as_assoc x" data "Some True"] assms(2) al_write(1) assms(3)
  show ?thesis by (auto simp: back_client_def assoc_ctl_def Let_def)
next
  case (al_no_stream data go_on)
  from ua_inv_write [of "as_assoc x" data go_on] assms(2) al_no_stream(1) assms(3)
  show ?thesis by (auto simp: back_client_def assoc_ctl_def Let_def)
qed (use assms(3) in \<open>auto simp: back_client_def\<close>)

lemma back_input_step:
  assumes "assoc_step conf x y" "assoc_ctl x" "back_input x"
  shows "back_input y"
  using assms(1)
proof cases
  case (al_send tgt data slots go_on a p)
  have inv: "ua_inv (as_assoc x)" "as_recv x \<noteq> VIdle \<longrightarrow> ua_receiving (as_assoc x)"
    "ua_stream (as_assoc x) \<longrightarrow> as_recv x \<noteq> VIdle" using assms(2) by (auto simp: assoc_ctl_def Let_def)
  note f = ua_send_locked_frame [OF al_send(4) inv(1)]
  show ?thesis
  proof (cases "ua_receiving (as_assoc x)")
    case True
    with f inv(3) al_send(1) assms(3) show ?thesis by (cases "as_recv x = VIdle") (auto simp: back_input_def)
  next
    case False
    with inv(2) have idle: "as_recv x = VIdle" by blast
    with False f al_send(1) assms(3) show ?thesis by (auto simp: back_input_def split: option.split)
  qed
next
  case (av_read s ad pl s1)
  from client_readUDPReply_split [OF av_read(5)] av_read(1-3) assms(3) show ?thesis by (auto simp: back_input_def)
qed (use assms(3) in \<open>auto simp: back_input_def\<close>)

lemma back_replies_frame:
  assumes "back_replies x" "as_got y = as_got x" "unhandled (as_recv y) = unhandled (as_recv x)"
    "ua_replies (as_assoc y) = ua_replies (as_assoc x)" "ua_closed (as_assoc x) \<longrightarrow> ua_closed (as_assoc y)"
  shows "back_replies y"
  using assms unfolding back_replies_def by metis

lemma back_replies_step:
  assumes "assoc_step conf x y" "assoc_ctl x" "back_client x" "back_replies x"
  shows "back_replies y"
  using assms(1)
proof cases
  case (al_send tgt data slots go_on a p)
  have "ua_inv (as_assoc x)" using assms(2) by (simp add: assoc_ctl_def Let_def)
  from ua_send_locked_frame [OF al_send(4) this] al_send(1) show ?thesis
    by (intro back_replies_frame [OF assms(4)]) auto
next
  case (al_write data s)
  then show ?thesis by (intro back_replies_frame [OF assms(4)]) (simp_all add: ua_send_write_frame)
next
  case (al_no_stream data go_on)
  then show ?thesis by (intro back_replies_frame [OF assms(4)]) (simp_all add: ua_send_write_frame)
next
  case (av_read s ad pl s1)
  with assms(4) show ?thesis by (auto simp: back_replies_def)
next
  case (av_handle ad pl)
  from assms(3) av_handle(2) obtain c where c: "ua_client (as_assoc x) = Some c" by (auto simp: back_client_def)
  from assms(4) av_handle(2) obtain handled rest where h: "as_got x = handled @ [(ad, pl)]"
    "concat (List.map reply_packets handled) = List.map fst (ua_replies (as_assoc x)) @ rest"
    "rest = [] \<or> ua_closed (as_assoc x)" by (auto simp: back_replies_def)
  have l: "ua_listening (as_assoc x) \<longleftrightarrow> \<not> ua_closed (as_assoc x)"
    using assms(2) by (simp add: assoc_ctl_def Let_def ua_inv_def)
  show ?thesis unfolding back_replies_def
    by (intro exI [of _ "handled @ [(ad, pl)]"] exI [of _ "if ua_closed (as_assoc x) then rest @ reply_packets (ad, pl) else []"])
       (use h l av_handle(1) in \<open>auto simp: handleUDPResponse_packets [OF c] handleUDPResponse_all(2) comp_def\<close>)
qed (auto intro!: back_replies_frame [OF assms(4)])

lemma assoc_reach_inv:
  assumes "assoc_reach conf p x"
  shows "assoc_ctl x \<and> on_stream (IPStrategy conf) (as_first x) (as_sent x) (as_assoc x) \<and> assoc_sizes x
    \<and> back_client x \<and> back_input x \<and> back_replies x"
  using assms unfolding assoc_reach_def
proof (induction rule: rtranclp_induct)
  case base
  show ?case
    by (simp add: assoc_start_def assoc_ctl_def on_stream_def assoc_sizes_def back_client_def back_input_def
        back_replies_def ua_inv_new) (simp add: new_assoc_def)
next
  case (step y z)
  then show ?case
    using assoc_step_ctl [of conf y z] assoc_step_stream [of conf y z] assoc_step_sizes [of conf y z]
      back_client_step [of conf y z] back_input_step [of conf y z] back_replies_step [of conf y z] by simp
qed

section \<open>The end of an association\<close>

text \<open>The steps of the association itself, without those of the rest of the program, once it is closed.\<close>

definition assoc_own :: "'a CommonConfig_scheme \<Rightarrow> assoc_sys \<Rightarrow> assoc_sys \<Rightarrow> bool" where
  "assoc_own conf x y \<longleftrightarrow> assoc_step conf x y \<and> (as_loop y, as_recv y, as_tcp y) \<noteq> (as_loop x, as_recv x, as_tcp x)"

definition assoc_left :: "assoc_sys \<Rightarrow> nat" where
  "assoc_left x = (case as_loop x of AChecking a b \<Rightarrow> 5 | AParsing b \<Rightarrow> 4 | ASending t d \<Rightarrow> 3 | AWriting d g \<Rightarrow> 2
       | AReading \<Rightarrow> 1 | _ \<Rightarrow> 0)
     + (case as_recv x of VHandling a b \<Rightarrow> 3 | VReading \<Rightarrow> 2 | VClosing \<Rightarrow> 1 | _ \<Rightarrow> 0) + (if as_tcp x then 1 else 0)"

definition assoc_closed :: "'a CommonConfig_scheme \<Rightarrow> assoc_sys \<Rightarrow> bool" where
  "assoc_closed conf x \<longleftrightarrow> assoc_ctl x \<and> on_stream (IPStrategy conf) (as_first x) (as_sent x) (as_assoc x)
     \<and> ua_closed (as_assoc x)"

lemma assoc_closed_facts:
  assumes "assoc_closed conf x"
  shows "\<not> ua_listening (as_assoc x)" "\<not> ua_stream (as_assoc x)" "ua_conn (as_assoc x) = Some s \<Longrightarrow> s_closed s"
    "ua_send_locked c slots t (as_assoc x) p = Some (None, as_assoc x, p)"
  using assms by (auto simp: assoc_closed_def assoc_ctl_def Let_def ua_inv_def on_stream_def ua_send_locked_def)

lemma assoc_own_converges:
  assumes "assoc_own conf x y" "assoc_closed conf x"
  shows "assoc_closed conf y \<and> assoc_left y < assoc_left x"
proof -
  from assms(1) have st: "assoc_step conf x y" and own: "(as_loop y, as_recv y, as_tcp y) \<noteq> (as_loop x, as_recv x, as_tcp x)"
    by (simp_all add: assoc_own_def)
  note c = assoc_closed_facts [OF assms(2)]
  from st have "ua_closed (as_assoc y) \<and> assoc_left y < assoc_left x"
  proof cases
    case (al_send tgt data slots go_on a p)
    from c(4) [of conf slots tgt "as_pool x"] al_send(4) have "a = as_assoc x" by simp
    with al_send(1,2) c(2) assms(2) show ?thesis by (simp add: assoc_left_def assoc_closed_def)
  next
    case (av_handle ad pl)
    with assms(2) show ?thesis by (simp add: assoc_left_def assoc_closed_def handleUDPResponse_all(2))
  next
    case (al_no_stream data go_on)
    with assms(2) show ?thesis by (simp add: assoc_left_def assoc_closed_def ua_send_write_frame(4))
  next
    case al_read
    with c(1) show ?thesis by simp
  next
    case (al_write data s)
    with c(3) show ?thesis by simp
  next
    case (av_read s ad pl s1)
    with c(3) show ?thesis by simp
  next
    case (av_error s e s1)
    with c(3) show ?thesis by simp
  next
    case pool_changes
    with own show ?thesis by simp
  qed (use assms(2) in \<open>simp_all add: assoc_left_def assoc_closed_def\<close>)
  with assoc_step_ctl [OF st] assoc_step_stream [OF st] assms(2) show ?thesis by (simp add: assoc_closed_def)
qed

interpretation assoc_end: converging "assoc_own conf" "assoc_closed conf" assoc_left for conf
  by unfold_locales (rule assoc_own_converges)

lemma assoc_stuck:
  assumes "assoc_closed conf x" "\<nexists>y. assoc_own conf x y"
  shows "as_loop x \<in> {AEnded, APanicked} \<and> as_recv x \<in> {VIdle, VDone} \<and> \<not> as_tcp x"
proof (intro conjI)
  note c = assoc_closed_facts [OF assms(1)]
  have no: False if "assoc_step conf x y" "(as_loop y, as_recv y, as_tcp y) \<noteq> (as_loop x, as_recv x, as_tcp x)" for y
    using assms(2) that by (auto simp: assoc_own_def)
  have conn: "\<exists>s. ua_conn (as_assoc x) = Some s" if "as_recv x \<noteq> VIdle \<or> as_loop x = AWriting d (Some True)" for d
    using assms(1) that by (auto simp: assoc_closed_def assoc_ctl_def Let_def)
  show "\<not> as_tcp x" using no [OF tcp_ends] by auto
  show "as_loop x \<in> {AEnded, APanicked}"
  proof (cases "as_loop x")
    case AReading
    from no [OF al_ends [OF this c(1)]] AReading show ?thesis by simp
  next
    case (AChecking a b)
    then show ?thesis
      using no [OF al_foreign [OF AChecking]] no [OF al_client [OF AChecking]] by (cases "ua_client (as_assoc x)") auto
  next
    case (AParsing b)
    show ?thesis
    proof (cases "parseSOCKS5UDPPacket b")
      case None
      from no [OF al_parse_panic [OF AParsing this]] AParsing show ?thesis by simp
    next
      case (Some r)
      show ?thesis
      proof (cases r)
        case (Inl e)
        from no [OF al_unparsed [OF AParsing Some [unfolded Inl]]] AParsing show ?thesis by simp
      next
        case (Inr m)
        obtain t d where "m = (t, d)" by fastforce
        with Some Inr have "parseSOCKS5UDPPacket b = Some (Inr (t, d))" by simp
        from no [OF al_rejected [OF AParsing this]] no [OF al_parsed [OF AParsing this]] AParsing
        show ?thesis by (cases "strategy_rejects (IPStrategy conf) 0 t") auto
      qed
    qed
  next
    case (ASending t d)
    have "\<not> ua_closed (as_assoc x) \<and> \<not> ua_receiving (as_assoc x) \<longrightarrow> opens_fresh (DialTimeout conf) [] (as_pool x)"
      using assms(1) by (simp add: assoc_closed_def)
    from no [OF al_send [OF ASending this c(4)]] ASending show ?thesis by simp
  next
    case (AWriting d g)
    show ?thesis
    proof (cases "g = Some True")
      case True
      with AWriting conn obtain s where s: "ua_conn (as_assoc x) = Some s" by blast
      from no [OF al_write_closed [OF AWriting [unfolded True] s c(3) [OF s]]] AWriting show ?thesis by simp
    next
      case False
      from no [OF al_no_stream [OF AWriting False]] AWriting show ?thesis by simp
    qed
  qed simp_all
  show "as_recv x \<in> {VIdle, VDone}"
  proof (cases "as_recv x")
    case VReading
    with conn obtain s where s: "ua_conn (as_assoc x) = Some s" by auto
    from no [OF av_closed [OF VReading s c(3) [OF s]]] VReading show ?thesis by simp
  next
    case (VHandling a b)
    from no [OF av_handle [OF VHandling]] VHandling show ?thesis by simp
  next
    case VClosing
    from no [OF av_close [OF VClosing]] VClosing show ?thesis by simp
  qed simp_all
qed

section \<open>Properties\<close>


text \<open>
  C23: a closed association ends. Whatever closed it (the client's TCP connection, the stream, or a failed write), its
  goroutines take at most nine more steps, in any order, and where they stop the datagram loop and the reply
  goroutine have returned, the reader of the TCP connection too, the sockets and the stream are closed and nothing
  waits on them.
\<close>

theorem udp_assoc_ends:
  assumes "assoc_reach conf p x" "ua_closed (as_assoc x)" "(assoc_own conf ^^ n) x y"
  shows "n \<le> 9 \<and> ((\<nexists>z. assoc_own conf y z) \<longrightarrow> as_loop y \<in> {AEnded, APanicked} \<and> as_recv y \<in> {VIdle, VDone}
    \<and> \<not> as_tcp y \<and> \<not> ua_listening (as_assoc y) \<and> \<not> ua_tcp (as_assoc y)
    \<and> (\<forall>s. ua_conn (as_assoc y) = Some s \<longrightarrow> s_closed s))"
proof -
  from assoc_reach_inv [OF assms(1)] assms(2) have "assoc_closed conf x" by (simp add: assoc_closed_def)
  from assoc_end.run_bound [OF assms(3) this] have y: "assoc_closed conf y" "n \<le> assoc_left x" by auto
  have "assoc_left x \<le> 9" by (auto simp: assoc_left_def split: assoc_loop.split assoc_recv.split)
  moreover have "\<not> ua_tcp (as_assoc y)"
    using y(1) by (auto simp: assoc_closed_def assoc_ctl_def Let_def ua_inv_def)
  ultimately show ?thesis using y(2) assoc_stuck [OF y(1)] assoc_closed_facts(1,3) [OF y(1)] by auto
qed

theorem udp_assoc_ends_witness:
  "\<exists>x. assoc_reach zero_client one_channel x \<and> ua_closed (as_assoc x)
    \<and> {n. \<exists>y. (assoc_own zero_client ^^ n) x y} \<subseteq> {..9}"
proof -
  let ?x = "assoc_start one_channel"
  let ?y = "?x\<lparr>as_tcp := False, as_assoc := ua_Close (as_assoc ?x)\<rparr>"
  have "assoc_step zero_client ?x ?y" by (rule tcp_ends) (simp add: assoc_start_def)
  then have r: "assoc_reach zero_client one_channel ?y" unfolding assoc_reach_def by (rule r_into_rtranclp)
  have c: "ua_closed (as_assoc ?y)" by simp
  from r c udp_assoc_ends [OF r c] show ?thesis by blast
qed

text \<open>A pool whose one channel opens streams that bring \<open>b\<close>, and a run that opens one and sends two bytes.\<close>

definition bringing_slots :: "bytes \<Rightarrow> smux_session option list" where
  "bringing_slots b = [Some \<lparr>sx_closed = False, sx_open = Inr (fresh_stream b)\<rparr>]"

definition bringing :: "bytes \<Rightarrow> ECHPool" where
  "bringing b = one_channel\<lparr>smuxConns := bringing_slots b\<rparr>"

lemma open_bringing:
  "openBestStream 5 (bringing_slots b) (bringing b) = Some (Inr (fresh_stream b, 1), (bringing b)\<lparr>selectCounter := 1\<rparr>)"
  by (simp add: openBestStream_def near_channels_def Let_def tieWindow_def wrap64_id go_rem_def open_selected_def
      one_channel_def bringing_def bringing_slots_def)

lemma assoc_example:
  "\<exists>x s. assoc_reach (zero_client\<lparr>DialTimeout := 5\<rparr>) (bringing b) x \<and> ua_conn (as_assoc x) = Some s
     \<and> as_sent x = [[7, 7]] \<and> as_first x = JoinHostPort (dotted [8, 8, 8, 8]) (dec_of_nat 53)
     \<and> s_out s = header_enc (StreamKindUDP, 0, as_first x) @ chunk_enc [7, 7] \<and> \<not> s_closed s \<and> s_in s = b
     \<and> as_incoming x = b \<and> as_recv x = VReading \<and> as_got x = []
     \<and> ua_client (as_assoc x) = Some ''c'' \<and> ua_listening (as_assoc x) \<and> ua_replies (as_assoc x) = []"
proof -
  let ?conf = "zero_client\<lparr>DialTimeout := 5\<rparr>"
  let ?pkt = "[0, 0, 0, 1] @ [8, 8, 8, 8] @ [0, 53, 7, 7] :: bytes"
  let ?t = "JoinHostPort (dotted [8, 8, 8, 8]) (dec_of_nat 53)"
  let ?a = "new_assoc\<lparr>ua_client := Some ''c''\<rparr>"
  let ?x = "assoc_start (bringing b)"
  from accepted_IPv4 [of 8 8 8 8] have acc: "parseSOCKS5UDPPacket ?pkt = Some (Inr (?t, [7, 7]))"
    "\<not> strategy_rejects (IPStrategy ?conf) 0 ?t" "length ?t \<le> 65535" by (simp_all add: accepted_def)
  from open_bringing have o: "openBestStream (DialTimeout ?conf) (bringing_slots b) (bringing b)
      = Some (Inr (fresh_stream b, 1), (bringing b)\<lparr>selectCounter := 1\<rparr>)" by simp
  from udp_open.opens [OF o fresh_stream_sel(3) acc(3), of "IPStrategy ?conf"] obtain s1 where
    s1: "openUDPStream (IPStrategy ?conf) (DialTimeout ?conf) (bringing_slots b) ?t (bringing b) = Some (Inr (s1, 1), None, (bringing b)\<lparr>selectCounter := 1\<rparr>)"
      "s_out s1 = header_enc (StreamKindUDP, 0, ?t)" "s_wr s1 = []"
    by (auto simp: zero_client_def)
  have in1: "s_in s1 = b" using s1(1) o
    by (auto simp: openUDPStream_def open_kind_def writeSmuxOpenHeader_def split: if_splits prod.splits sum.splits dest!: Write_frame)
  let ?a1 = "?a\<lparr>ua_receiving := True, ua_target := ?t, ua_stream := True, ua_conn := Some s1, ua_channelID := 1\<rparr>"
  have send: "ua_send_locked ?conf (bringing_slots b) ?t ?a (bringing b) = Some (Some True, ?a1, (bringing b)\<lparr>selectCounter := 1\<rparr>)"
    using s1(1) by (simp add: ua_send_locked_def Let_def new_assoc_def)
  have fresh: "opens_fresh (DialTimeout ?conf) (bringing_slots b) (bringing b)"
    using o by (simp add: opens_fresh_def) (simp add: fresh_stream_def)
  have open1: "\<not> s_closed s1" using openUDPStream_header [OF s1(1) fresh] by simp
  let ?x1 = "?x\<lparr>as_loop := AChecking ''c'' (take (64 * 1024) ?pkt)\<rparr>"
  let ?x2 = "?x1\<lparr>as_loop := AParsing ?pkt, as_assoc := ?a\<rparr>"
  let ?x3 = "?x2\<lparr>as_loop := ASending ?t [7, 7]\<rparr>"
  let ?x4 = "?x3\<lparr>as_loop := AWriting [7, 7] (Some True), as_assoc := ?a1, as_pool := (bringing b)\<lparr>selectCounter := 1\<rparr>,
      as_recv := VReading, as_first := ?t, as_incoming := b\<rparr>"
  let ?x5 = "?x4\<lparr>as_loop := AReading, as_assoc := ua_send_write [7, 7] (Some True) ?a1, as_sent := [[7, 7]]\<rparr>"
  have s5: "assoc_step ?conf ?x ?x1" by (rule al_read) (simp_all add: assoc_start_def new_assoc_def)
  have s6: "assoc_step ?conf ?x1 ?x2"
    using al_client [of ?x1 "''c''" ?pkt ?conf] by (simp add: assoc_start_def new_assoc_def)
  have s7: "assoc_step ?conf ?x2 ?x3" by (rule al_parsed [OF _ acc(1,2)]) simp
  have s8: "assoc_step ?conf ?x3 ?x4"
    using al_send [of ?x3 ?t "[7, 7]" ?conf "bringing_slots b" "Some True" ?a1 "(bringing b)\<lparr>selectCounter := 1\<rparr>"] send fresh in1
    by (simp add: assoc_start_def new_assoc_def)
  have s9: "assoc_step ?conf ?x4 ?x5"
    using al_write [of ?x4 "[7, 7]" s1 ?conf] open1 by (simp add: assoc_start_def)
  note into = rtranclp.rtrancl_into_rtrancl [of "assoc_step ?conf"]
  have "assoc_reach ?conf (bringing b) ?x5" unfolding assoc_reach_def
    by (rule into [OF into [OF into [OF into [OF r_into_rtranclp [of "assoc_step ?conf", OF s5] s6] s7] s8] s9])
  moreover from chk.wr_enc [OF _ s1(3), of "[7, 7]"] s1(2) obtain s where
    w: "client_writeChunk [7, 7] s1 = (Inr (), s)" "s_out s = header_enc (StreamKindUDP, 0, ?t) @ chunk_enc [7, 7]" by auto
  then have "ua_send_write [7, 7] (Some True) ?a1 = ?a1\<lparr>ua_conn := Some s\<rparr>" by (simp add: ua_send_write_def)
  moreover have "\<not> s_closed s" "s_in s = b" using stream_frames(1,4) [OF w(1)] open1 in1 by simp_all
  ultimately show ?thesis using w(2)
    by (intro exI [of _ ?x5] exI [of _ s]) (simp add: assoc_start_def new_assoc_def)
qed


end
