(* ===== verification/ProxyConn.thy ===== *)
theory ProxyConn
  imports Lifecycle
begin

text \<open>
  \<^verbatim>\<open>proxyConn\<close> of \<^verbatim>\<open>cmd/client/main.go\<close>: two goroutines copy between the local and the remote connection,
  and the first to end closes both. The lists are what the reads of each side return until its end
  of file; each step is one read with its write, or the end of a copy.
\<close>

record proxy_conn =
  px_local :: "bytes list"
  px_remote :: "bytes list"
  px_up :: bytes
  px_down :: bytes
  px_up_done :: bool
  px_down_done :: bool
  px_closed :: bool

definition px_start :: "bytes list \<Rightarrow> bytes list \<Rightarrow> proxy_conn" where
  "px_start local remote = \<lparr>px_local = local, px_remote = remote, px_up = [], px_down = [],
     px_up_done = False, px_down_done = False, px_closed = False\<rparr>"

text \<open>
  \<open>up_\<close> is the copy to the remote side, \<open>down_\<close> the copy back. A failing write may pass on a part; a
  copy ends at the end of file, or once the connections are closed.
\<close>

inductive px_step :: "proxy_conn \<Rightarrow> proxy_conn \<Rightarrow> bool" where
  up_copy: "\<not> px_up_done x \<Longrightarrow> \<not> px_closed x \<Longrightarrow> px_local x = b # bs \<Longrightarrow>
    px_step x (x\<lparr>px_local := bs, px_up := px_up x @ b\<rparr>)"
| up_fail: "\<not> px_up_done x \<Longrightarrow> px_local x = b # bs \<Longrightarrow>
    px_step x (x\<lparr>px_local := bs, px_up := px_up x @ take k b, px_up_done := True, px_closed := True\<rparr>)"
| up_end: "\<not> px_up_done x \<Longrightarrow> px_local x = [] \<or> px_closed x \<Longrightarrow>
    px_step x (x\<lparr>px_up_done := True, px_closed := True\<rparr>)"
| down_copy: "\<not> px_down_done x \<Longrightarrow> \<not> px_closed x \<Longrightarrow> px_remote x = b # bs \<Longrightarrow>
    px_step x (x\<lparr>px_remote := bs, px_down := px_down x @ b\<rparr>)"
| down_fail: "\<not> px_down_done x \<Longrightarrow> px_remote x = b # bs \<Longrightarrow>
    px_step x (x\<lparr>px_remote := bs, px_down := px_down x @ take k b, px_down_done := True, px_closed := True\<rparr>)"
| down_end: "\<not> px_down_done x \<Longrightarrow> px_remote x = [] \<or> px_closed x \<Longrightarrow>
    px_step x (x\<lparr>px_down_done := True, px_closed := True\<rparr>)"

inductive_cases px_stepE: "px_step x y"

section \<open>Facts\<close>

definition px_inv :: "bytes list \<Rightarrow> bytes list \<Rightarrow> proxy_conn \<Rightarrow> bool" where
  "px_inv local remote x \<longleftrightarrow> (\<exists>t. concat local = px_up x @ t) \<and> (\<exists>t. concat remote = px_down x @ t)
     \<and> (\<not> px_up_done x \<longrightarrow> concat local = px_up x @ concat (px_local x))
     \<and> (\<not> px_down_done x \<longrightarrow> concat remote = px_down x @ concat (px_remote x))
     \<and> (px_closed x \<longleftrightarrow> px_up_done x \<or> px_down_done x)"

definition px_size :: "proxy_conn \<Rightarrow> nat" where
  "px_size x = length (px_local x) + length (px_remote x)
     + (if px_up_done x then 0 else 1) + (if px_down_done x then 0 else 1)"

lemma px_step_inv: "px_step x y \<Longrightarrow> px_inv local remote x \<Longrightarrow> px_inv local remote y"
  by (erule px_stepE) (auto simp: px_inv_def)

lemma px_step_size: "px_step x y \<Longrightarrow> px_size y < px_size x"
  by (erule px_stepE) (auto simp: px_size_def)

interpretation px_run: converging px_step "px_inv local remote" px_size for local remote
  by unfold_locales (blast intro: px_step_inv px_step_size)

lemma px_steps:
  assumes "(px_step ^^ n) (px_start local remote) x"
  shows "px_inv local remote x \<and> px_size x + n \<le> length local + length remote + 2"
proof -
  have "px_inv local remote (px_start local remote)" "px_size (px_start local remote) = length local + length remote + 2"
    by (simp_all add: px_inv_def px_size_def px_start_def)
  with px_run.run_bound [OF assms] show ?thesis by (simp add: add.commute)
qed

lemma px_stuck: "\<nexists>y. px_step x y \<Longrightarrow> px_up_done x \<and> px_down_done x"
  by (cases "px_local x"; cases "px_remote x") (blast intro: px_step.intros)+

section \<open>Properties\<close>

text \<open>
  C33: a proxied connection forwards in order and always ends. Whatever the scheduling and the failing
  writes, each side has been sent a prefix of what the other sent, at most one step per read and two
  more are made, and when no step is left both copies have returned with the connections closed.
\<close>

theorem proxy_conn_in_order_and_ends:
  assumes "(px_step ^^ n) (px_start local remote) x"
  shows "(\<exists>t. concat local = px_up x @ t) \<and> (\<exists>t. concat remote = px_down x @ t)
    \<and> n \<le> length local + length remote + 2
    \<and> ((\<nexists>y. px_step x y) \<longrightarrow> px_up_done x \<and> px_down_done x \<and> px_closed x)"
  using px_steps [OF assms] px_stuck [of x] by (auto simp: px_inv_def)

lemma px_half_close_run:
  "(px_step ^^ 3) (px_start [req] reply)
     \<lparr>px_local = [], px_remote = reply, px_up = req, px_down = [], px_up_done = True, px_down_done = True,
      px_closed = True\<rparr>"
proof -
  let ?mk = "\<lambda>l u ud dd. \<lparr>px_local = l, px_remote = reply, px_up = u, px_down = [], px_up_done = ud,
      px_down_done = dd, px_closed = ud\<rparr>"
  have "px_step (px_start [req] reply) (?mk [] req False False)"
    using up_copy [of "px_start [req] reply" req "[]"] by (simp add: px_start_def)
  then have 1: "(px_step ^^ 1) (px_start [req] reply) (?mk [] req False False)" unfolding relpowp_1 .
  have "px_step (?mk [] req False False) (?mk [] req True False)"
    using up_end [of "?mk [] req False False"] by simp
  with 1 have 2: "(px_step ^^ 2) (px_start [req] reply) (?mk [] req True False)" by (rule relpowp_snoc) simp
  have "px_step (?mk [] req True False) (?mk [] req True True)"
    using down_end [of "?mk [] req True False"] by simp
  with 2 show ?thesis by (rule relpowp_snoc) simp
qed

theorem proxy_conn_in_order_and_ends_witness:
  "\<exists>x. (px_step ^^ 3) (px_start [[1]] [[2]]) x \<and> (\<exists>t. concat [[1]] = px_up x @ t)
     \<and> 3 \<le> length [[1 :: byte]] + length [[2 :: byte]] + 2"
  using proxy_conn_in_order_and_ends [OF px_half_close_run [of "[1]" "[[2]]"]] px_half_close_run [of "[1]" "[[2]]"]
  by blast

text \<open>
  A half-closed connection loses its reply. A client that sends a request and shuts down its
  writing side ends the upward copy, which closes both connections: for every request and reply there is
  a complete run in which the request is delivered whole and no byte of the reply comes back.
\<close>

theorem proxy_half_close_drops:
  "\<exists>x. (px_step ^^ 3) (px_start [req] reply) x \<and> (\<nexists>y. px_step x y) \<and> px_up x = req \<and> px_down x = []"
  using px_half_close_run [of req reply] by (auto elim!: px_stepE)

end
