(* ===== verification/EndToEnd.thy ===== *)
theory EndToEnd
  imports ProxyConn UdpAssocRun UdpRelay
begin

text \<open>
  A proxied TCP connection from the application to the target and back: the stream opened on a channel of the pool, the
  two copies of \<^verbatim>\<open>proxyConn\<close> on the client, and the relay on the server, each in any state it can reach; and the datagrams of a
  UDP association on their way to the target and back.
\<close>

definition px_reach :: "bytes list \<Rightarrow> bytes list \<Rightarrow> proxy_conn \<Rightarrow> bool" where
  "px_reach local remote x \<longleftrightarrow> px_step\<^sup>*\<^sup>* (px_start local remote) x"

lemma px_reach_inv: "px_reach local remote x \<Longrightarrow> px_inv local remote x"
  unfolding px_reach_def using px_steps by (metis rtranclp_imp_relpowp)

lemma prefix_trans: "a = b @ s \<Longrightarrow> b = c @ t \<Longrightarrow> \<exists>u. a = c @ u" for a :: bytes
  by simp

section \<open>Properties\<close>

text \<open>
  C9: the whole path of a proxied connection. Let a stream be opened for a target, the local copies have carried some of
  what the application sends onto it behind the open header, some of that have arrived at the server, and the
  relay have read some of it; and let the client have read some of what the relay wrote back. Then, whatever the
  states of all goroutines, the relay dials the target asked for under the client's strategy, the target has received an
  initial part of what the application sent, and the application an initial part of what the target sent; and
  when everything was copied, arrived and was read, and the relay ended with the stream, the target has received all of it.
\<close>

theorem tcp_path_in_order:
  assumes "openBestStream timeout slots p = Some (Inr (s, ch), p1)" "s_wr s = []" "s_out s = []"
    and "openTCPStream strategy timeout slots target p = Some (Inr (s1, ch1), z, p2)"
    and "px_reach local remote x" "px_up x = arrived @ in_flight"
    and "s_in rs = s_out s1 @ arrived" "ReadSmuxOpenHeader rs = (Inr (kind, strat, name), rs1)"
    and "s_in rs1 = concat inp @ unread" "tcp_reach inp replies r" "t_stream r = concat remote @ returning"
  shows "kind = StreamKindTCP \<and> strat = strategy \<and> name = target
    \<and> (\<exists>t. concat local = t_target r @ t) \<and> (\<exists>t. concat replies = px_down x @ t)
    \<and> (px_up x = concat local \<and> in_flight = [] \<and> unread = [] \<and> t_eof r \<longrightarrow> t_target r = concat local)"
proof -
  from tcp_open.opened_target [OF assms(1-4)]
  have o: "length target \<le> 65535" "s_out s1 = header_enc (StreamKindTCP, strategy, target)" by auto
  with assms(7) have "s_in rs = header_enc (StreamKindTCP, strategy, target) @ arrived" by simp
  with o(1) obtain rs' where "ReadSmuxOpenHeader rs = (Inr (StreamKindTCP, strategy, target), rs')" "s_in rs' = arrived"
    by (elim tcp_open.relay_reads)
  with assms(8,9) have h: "kind = StreamKindTCP" "strat = strategy" "name = target" "arrived = concat inp @ unread" by auto
  from px_reach_inv [OF assms(5)] obtain t1 t2 where px: "concat local = px_up x @ t1" "concat remote = px_down x @ t2"
    unfolding px_inv_def by blast
  from tcp_reach_inv [OF assms(10)] obtain t3 t4 where tcp: "concat inp = t_target r @ t3" "concat replies = t_stream r @ t4"
    and eof: "t_eof r \<longrightarrow> t_target r = concat inp" unfolding tcp_up_def tcp_down_def by blast
  have "concat local = t_target r @ t3 @ unread @ in_flight @ t1" using px(1) assms(6) h(4) tcp(1) by simp
  moreover have "concat replies = px_down x @ t2 @ returning @ t4" using tcp(2) assms(11) px(2) by simp
  moreover have "px_up x = concat local \<and> in_flight = [] \<and> unread = [] \<and> t_eof r \<longrightarrow> t_target r = concat local"
    using eof assms(6) h(4) by auto
  ultimately show ?thesis using h(1-3) by blast
qed

text \<open>A connection that has sent two bytes and received one.\<close>

lemma px_example:
  "px_reach [[1, 2]] [[3]] \<lparr>px_local = [], px_remote = [], px_up = [1, 2], px_down = [3], px_up_done = False,
     px_down_done = False, px_closed = False\<rparr>"
proof -
  let ?mk = "\<lambda>l r u d. \<lparr>px_local = l, px_remote = r, px_up = u, px_down = d, px_up_done = False,
      px_down_done = False, px_closed = False\<rparr>"
  have "px_step (?mk [[1, 2]] [[3]] [] []) (?mk [] [[3]] [1, 2] [])"
    using up_copy [of "?mk [[1, 2]] [[3]] [] []" "[1, 2]" "[]"] by simp
  moreover have "px_step (?mk [] [[3]] [1, 2] []) (?mk [] [] [1, 2] [3])"
    using down_copy [of "?mk [] [[3]] [1, 2] []" "[3]" "[]"] by simp
  ultimately show ?thesis unfolding px_reach_def px_start_def by (meson r_into_rtranclp rtranclp.rtrancl_into_rtrancl)
qed

theorem tcp_path_in_order_witness:
  "\<exists>s1 rs1. openTCPStream 2 5 one_slot ''h:80'' one_channel = Some (Inr (s1, 1), None, one_channel\<lparr>selectCounter := 1\<rparr>)
    \<and> ReadSmuxOpenHeader (fresh_stream (s_out s1 @ [1, 2])) = (Inr (StreamKindTCP, 2, ''h:80''), rs1)
    \<and> (\<exists>t. concat [[1, 2]] = t_target tcp_example @ t) \<and> (\<exists>t. concat [[3 :: byte]] = [3] @ t)"
proof -
  from tcp_open.opens [OF open_one_channel, of "''h:80''" 2] obtain s1 where
    s1: "openTCPStream 2 5 one_slot ''h:80'' one_channel = Some (Inr (s1, 1), None, one_channel\<lparr>selectCounter := 1\<rparr>)"
      "s_out s1 = header_enc (StreamKindTCP, 2, ''h:80'')" by auto
  have "s_in (fresh_stream (s_out s1 @ [1, 2])) = header_enc (StreamKindTCP, 2, ''h:80'') @ [1, 2]" using s1(2) by simp
  then obtain rs1 where rs1: "ReadSmuxOpenHeader (fresh_stream (s_out s1 @ [1, 2])) = (Inr (StreamKindTCP, 2, ''h:80''), rs1)"
    "s_in rs1 = [1, 2]" by (elim tcp_open.relay_reads) simp
  have q: "px_up \<lparr>px_local = [], px_remote = [], px_up = [1, 2], px_down = [3], px_up_done = False, px_down_done = False,
      px_closed = False\<rparr> = [1, 2] @ []" "s_in rs1 = concat [[1, 2]] @ []" "t_stream tcp_example = concat [[3]] @ []"
    using rs1(2) by (simp_all add: tcp_example_def)
  have r: "tcp_reach [[1, 2]] [[3]] tcp_example" using tcp_steps_reach [OF tcp_example_steps] by blast
  from tcp_path_in_order [OF open_one_channel _ _ s1(1) px_example q(1) fresh_stream_sel(1) rs1(1) q(2) r q(3)] s1(1) rs1(1)
  show ?thesis by auto
qed

text \<open>What the relay makes of an initial part of an association's stream.\<close>

lemma udp_header_arrives:
  assumes "header_enc (k, st, t) @ body = arrived @ later" "length t \<le> 65535"
    "s_in rs = arrived" "ReadSmuxOpenHeader rs = (Inr (kind, strat, name), rs1)"
  shows "kind = k \<and> strat = st \<and> name = t \<and> body = s_in rs1 @ later"
proof (cases "length arrived < length (header_enc (k, st, t))")
  case True
  with assms(1) have "s_in rs = take (length arrived) (header_enc (k, st, t))"
    unfolding assms(3) by (metis append_eq_append_conv_if less_imp_le not_less take_all_iff)
  with opn.rd_cut [of "(k, st, t)" "length arrived" rs] assms(2,4) True show ?thesis by auto
next
  case False
  with assms(1) obtain rest where "arrived = header_enc (k, st, t) @ rest" "body = rest @ later"
    by (auto simp: append_eq_append_conv_if split: if_splits) (metis append_take_drop_id)
  with opn.rd_enc [of "(k, st, t)" rs rest] assms(2,3,4) show ?thesis by auto
qed

text \<open>
  C10: the whole path of an association's datagrams. Let an association and the relay behind its stream be in any states
  their goroutines can reach, with any part of what is on the stream arrived at the relay, wherever it is cut. Then
  the relay has read kind, strategy and the association's first target, sends to the address that target resolves to,
  and has sent an initial part of the non-empty payloads of the association, each whole, once and in order.
\<close>

theorem udp_path_in_order:
  assumes "assoc_reach conf p x" "ua_conn (as_assoc x) = Some s" "s_out s = arrived @ in_flight"
    and "s_in rs = arrived" "ReadSmuxOpenHeader rs = (Inr (kind, strat, name), rs1)"
    and "udp_start (Inr c) lookup name strat pick free rs1 = Some (target, r0)" "udp_reach target r0 r"
    and "bufs_ok free" "\<not> s_closed rs1" "u_in c = []" "u_out c = []" "\<not> u_closed c"
  shows "kind = StreamKindUDP \<and> strat = IPStrategy conf \<and> name = as_first x
    \<and> (\<exists>ip port. resolveUDPAddr lookup (as_first x) (IPStrategy conf) = Inr (ip, port) \<and> target = UDPAddr ip port)
    \<and> (\<exists>k. u_out (r_conn (ur_relay r)) = List.map (Pair target) (take k (List.filter (\<lambda>b. b \<noteq> []) (as_sent x))))"
proof -
  from assoc_reach_inv [OF assms(1)] assms(2) obtain missing where
    m: "header_enc (StreamKindUDP, IPStrategy conf, as_first x) @ concat (List.map chunk_enc (as_sent x)) = s_out s @ missing"
      "length (as_first x) \<le> 65535" "list_all (\<lambda>b. length b < 65536) (as_sent x)"
    by (auto simp: on_stream_def assoc_sizes_def)
  from m(1) have "header_enc (StreamKindUDP, IPStrategy conf, as_first x) @ concat (List.map chunk_enc (as_sent x))
      = arrived @ in_flight @ missing" unfolding assms(3) by simp
  from udp_header_arrives [OF this m(2) assms(4,5)] have
    h: "kind = StreamKindUDP" "strat = IPStrategy conf" "name = as_first x"
      "concat (List.map chunk_enc (as_sent x)) = s_in rs1 @ in_flight @ missing" by auto
  from udp_start_begun [OF assms(6,8-12)] have
    b: "udp_begun target r0" "ur_stream r0 = rs1" "\<exists>ip port. target = UDPAddr ip port \<and> resolveUDPAddr lookup name strat = Inr (ip, port)"
    by auto
  let ?out = "u_out (r_conn (ur_relay r))"
  from udp_reach_inv [OF assms(7) b(1)] b(2) obtain t1 where
    out: "\<forall>m \<in> set ?out. fst m = target" "udp_up (\<lambda>_. True) rs1 = List.map snd ?out @ t1"
    by (auto simp: udp_up_inv_def Let_def)
  from udp_up_prefix [OF m(3) h(4)] obtain t2 where "List.filter (\<lambda>b. b \<noteq> []) (as_sent x) = udp_up (\<lambda>_. True) rs1 @ t2" by blast
  with out(2) have "take (length ?out) (List.filter (\<lambda>b. b \<noteq> []) (as_sent x)) = List.map snd ?out" by simp
  with map_Pair_snd [OF out(1)] have "?out = List.map (Pair target) (take (length ?out) (List.filter (\<lambda>b. b \<noteq> []) (as_sent x)))"
    by simp
  with h(1-3) b(3) show ?thesis by blast
qed

theorem udp_path_in_order_witness:
  "\<exists>(s :: stream) rs1. s_out s = header_enc (StreamKindUDP, 0, JoinHostPort (dotted [8, 8, 8, 8]) (dec_of_nat 53)) @ chunk_enc [7, 7]
    \<and> ReadSmuxOpenHeader (fresh_stream (s_out s)) = (Inr (StreamKindUDP, 0, JoinHostPort (dotted [8, 8, 8, 8]) (dec_of_nat 53)), rs1)
    \<and> (\<exists>target r0 k. udp_start (Inr udp_fresh) (\<lambda>_. Inl Timeout) (JoinHostPort (dotted [8, 8, 8, 8]) (dec_of_nat 53)) 0 None [] rs1
          = Some (target, r0) \<and> u_out (r_conn (ur_relay r0)) = List.map (Pair target) (take k [[7, 7]]))"
proof -
  let ?t = "JoinHostPort (dotted [8, 8, 8, 8]) (dec_of_nat 53)" and ?conf = "zero_client\<lparr>DialTimeout := 5\<rparr>"
  from assoc_example [of "[]"] obtain x s where x: "assoc_reach ?conf (bringing []) x" "ua_conn (as_assoc x) = Some s"
    "as_sent x = [[7, 7]]" "as_first x = ?t" "s_out s = header_enc (StreamKindUDP, 0, ?t) @ chunk_enc [7, 7]" by auto
  have "length ?t \<le> 65535" using length_dotted [of "[8, 8, 8, 8]"] length_dec_of_nat(2) [of 53] by (simp add: JoinHostPort_def)
  with opn.rd_enc [of "(StreamKindUDP, 0, ?t)" "fresh_stream (s_out s)"] x(5) obtain rs1 where
    rs1: "ReadSmuxOpenHeader (fresh_stream (s_out s)) = (Inr (StreamKindUDP, 0, ?t), rs1)" by auto
  have open_: "\<not> s_closed rs1"
    using rs1 by (auto simp: ReadSmuxOpenHeader_def ReadFull_def ReadFull_into_def fresh_stream_def Let_def split: if_splits)
  have "resolveUDPAddr (\<lambda>_. Inl Timeout) ?t 0 = Inr (v4InV6Prefix @ [8, 8, 8, 8], 53)"
    using resolveUDPAddr_IPv4 [where quad = "[8, 8, 8, 8]" and n = 53 and lookup = "\<lambda>_. Inl Timeout" and st = 0] by simp
  then obtain target r0 where st: "udp_start (Inr udp_fresh) (\<lambda>_. Inl Timeout) ?t 0 None [] rs1 = Some (target, r0)"
    by (simp add: udp_start_def NewDirectUDPRelayer_def BufPool_Get_def)
  have f: "bufs_ok []" "u_in udp_fresh = []" "u_out udp_fresh = []" "\<not> u_closed udp_fresh"
    by (simp_all add: bufs_ok_def udp_fresh_def)
  have o: "s_out s = s_out s @ []" by simp
  from udp_path_in_order [OF x(1,2) o fresh_stream_sel(1) rs1 st udp_init f(1) open_ f(2-4)] x(3) obtain k where
    "u_out (r_conn (ur_relay r0)) = List.map (Pair target) (take k [[7, 7]])" by auto
  with x(5) rs1 st show ?thesis by blast
qed

text \<open>Datagrams from IPv4 sources: their text, and the packets made of them.\<close>

definition IPv4_source :: "net_addr \<Rightarrow> bool" where
  "IPv4_source a \<longleftrightarrow> (\<exists>addr q n. a = UDPAddr addr (int n) \<and> To4 addr = Some q \<and> n \<le> 65535)"

lemma IPv4_source_packets:
  assumes "IPv4_source a"
  shows "\<exists>b. reply_packets (Addr_String a, d) = [b] \<and> parseSOCKS5UDPPacket b = Some (Inr (Addr_String a, d))"
proof -
  from assms obtain addr q n where a: "a = UDPAddr addr (int n)" "To4 addr = Some q" "n \<le> 65535" by (auto simp: IPv4_source_def)
  then have "Addr_String a = JoinHostPort (dotted q) (dec_of_nat n)" by (auto simp: Addr_String_def IP_String_def Itoa_def To4_def)
  moreover have "length q = 4" using a(2) by (auto simp: To4_def split: if_splits)
  ultimately show ?thesis using reply_packets_IPv4 [OF _ a(3)] by simp
qed

lemma IPv4_sources_packets:
  "list_all (\<lambda>(a, d). IPv4_source a) ms \<Longrightarrow>
     list_all2 (\<lambda>b (a, d). parseSOCKS5UDPPacket b = Some (Inr (Addr_String a, d)))
       (concat (List.map (\<lambda>(a, d). reply_packets (Addr_String a, d)) ms)) ms"
proof (induction ms)
  case (Cons m ms)
  obtain a d where m: "m = (a, d)" by fastforce
  with Cons IPv4_source_packets [of a d] show ?case by auto
qed simp

lemma got_arrived:
  assumes "back_input x" "udp_begun target r0" "udp_reach target r0 r" "s_out (ur_stream r0) = []"
    and "s_out (ur_stream r) = as_incoming x @ in_flight"
  shows "\<exists>got tail. ur_arrived r = got @ tail \<and> as_got x = List.map (\<lambda>(a, d). (Addr_String a, d)) got"
proof -
  let ?ms = "List.map (\<lambda>(a, d). (Addr_String a, d)) (ur_arrived r)"
  from udp_reach_inv [OF assms(3,2)] assms(4) obtain tail where
    ctl: "udp_ctl_inv r" and down: "concat (List.map reply_enc (ur_arrived r)) = s_out (ur_stream r) @ tail"
    by (auto simp: udp_down_inv_def)
  from assms(1) obtain rest where got: "list_all (\<lambda>(t, d). length t \<le> 65535 \<and> length d < 65536) (as_got x)"
    "as_incoming x = concat (List.map udp_reply_enc (as_got x)) @ rest" by (auto simp: back_input_def)
  have ok: "list_all (\<lambda>(t, d). length t \<le> 65535 \<and> length d < 65536) ?ms"
    using ctl Addr_String_length by (fastforce simp: udp_ctl_inv_def list_all_iff datagram_ok_def)
  have "concat (List.map udp_reply_enc ?ms) = concat (List.map reply_enc (ur_arrived r))"
    by (simp add: reply_enc_def [abs_def] comp_def case_prod_beta)
  then have "concat (List.map udp_reply_enc ?ms) = concat (List.map udp_reply_enc (as_got x)) @ rest @ in_flight @ tail"
    using down assms(5) got(2) by simp
  from udp.front_of [OF got(1) ok _ this] obtain zs where "?ms = as_got x @ zs"
    by (auto simp: udp_reply_enc_def split: prod.splits)
  then show ?thesis by (auto simp: map_eq_append_conv)
qed

lemma delivered_front:
  assumes "back_replies x" "as_got x = List.map (\<lambda>(a, d). (Addr_String a, d)) got" "list_all (\<lambda>(a, d). IPv4_source a) got"
  shows "\<exists>k. list_all2 (\<lambda>b (a, d). parseSOCKS5UDPPacket b = Some (Inr (Addr_String a, d)))
      (List.map fst (ua_replies (as_assoc x))) (take k got)
    \<and> (\<not> ua_closed (as_assoc x) \<longrightarrow> length got \<le> k + length (unhandled (as_recv x)))"
proof -
  from assms(1) obtain handled dropped where h: "as_got x = handled @ unhandled (as_recv x)"
    "concat (List.map reply_packets handled) = List.map fst (ua_replies (as_assoc x)) @ dropped"
    "dropped = [] \<or> ua_closed (as_assoc x)" by (auto simp: back_replies_def)
  from h(1) assms(2) obtain g1 g2 where g: "got = g1 @ g2" "handled = List.map (\<lambda>(a, d). (Addr_String a, d)) g1"
    "unhandled (as_recv x) = List.map (\<lambda>(a, d). (Addr_String a, d)) g2" by (auto simp: map_eq_append_conv)
  have "concat (List.map reply_packets handled) = concat (List.map (\<lambda>(a, d). reply_packets (Addr_String a, d)) g1)"
    unfolding g(2) by (simp add: comp_def case_prod_unfold)
  with IPv4_sources_packets [of g1] assms(3) g(1) h(2) have
    "list_all2 (\<lambda>b (a, d). parseSOCKS5UDPPacket b = Some (Inr (Addr_String a, d)))
       (List.map fst (ua_replies (as_assoc x)) @ dropped) g1" by simp
  then obtain k where k: "list_all2 (\<lambda>b (a, d). parseSOCKS5UDPPacket b = Some (Inr (Addr_String a, d)))
      (List.map fst (ua_replies (as_assoc x))) (take k g1)" "k + length dropped = length g1"
    by (auto simp: list_all2_append1 dest: list_all2_lengthD)
  moreover have "take k got = take k g1" using k(2) g(1) by simp
  ultimately show ?thesis using h(3) g(1,3) by (intro exI [of _ k]) auto
qed

text \<open>
  C11: the whole path of the replies. Let a relay and an association at the other end of its stream be in any states they
  can reach, with any part of what the relay has written arrived. Then the replies the association has read are
  an initial part of the datagrams that have arrived at the relay's socket, with their sources; and if these are IPv4,
  the client has been sent, all to its one address, packets for an initial part of them, from each of which
  \<^verbatim>\<open>parseSOCKS5UDPPacket\<close> gives the source and the payload; all that were handled while the association is open.
\<close>

theorem udp_replies_in_order:
  assumes "assoc_reach conf p x" "udp_begun target r0" "udp_reach target r0 r" "s_out (ur_stream r0) = []"
    and "s_out (ur_stream r) = as_incoming x @ in_flight" "list_all (\<lambda>(a, d). IPv4_source a) (ur_arrived r)"
  shows "\<exists>got. as_got x = List.map (\<lambda>(a, d). (Addr_String a, d)) got \<and> (\<exists>tail. ur_arrived r = got @ tail)
    \<and> (\<exists>k. list_all2 (\<lambda>b (a, d). parseSOCKS5UDPPacket b = Some (Inr (Addr_String a, d)))
          (List.map fst (ua_replies (as_assoc x))) (take k got)
        \<and> (\<not> ua_closed (as_assoc x) \<longrightarrow> length got \<le> k + length (unhandled (as_recv x))))
    \<and> (\<forall>m \<in> set (ua_replies (as_assoc x)). ua_client (as_assoc x) = Some (snd m))"
proof -
  from assoc_reach_inv [OF assms(1)] have inv: "assoc_ctl x" "back_input x" "back_replies x" by auto
  from got_arrived [OF inv(2) assms(2-5)] obtain got tail where
    g: "ur_arrived r = got @ tail" "as_got x = List.map (\<lambda>(a, d). (Addr_String a, d)) got" by blast
  with assms(6) have "list_all (\<lambda>(a, d). IPv4_source a) got" by simp
  from delivered_front [OF inv(3) g(2) this] g inv(1) show ?thesis by (auto simp: assoc_ctl_def Let_def)
qed

text \<open>A datagram from \<^verbatim>\<open>1.1.1.1:53\<close> arrives at the relay and is passed on; the association reads and delivers it.\<close>

lemma udp_back_example:
  "\<exists>r x. udp_reach (fst udp_example) (snd udp_example) r \<and> ur_arrived r = [(UDPAddr [1, 1, 1, 1] 53, [9])]
    \<and> s_out (ur_stream r) = as_incoming x @ []
    \<and> assoc_reach (zero_client\<lparr>DialTimeout := 5\<rparr>) (bringing (as_incoming x)) x
    \<and> length (ua_replies (as_assoc x)) = 1 \<and> \<not> ua_closed (as_assoc x) \<and> as_recv x = VReading"
proof -
  let ?conf = "zero_client\<lparr>DialTimeout := 5\<rparr>" and ?a = "UDPAddr [1, 1, 1, 1] 53"
  have ok: "datagram_ok ?a [9]" by (simp add: datagram_ok_def)
  have src: "IPv4_source ?a"
    by (auto simp: IPv4_source_def To4_def intro!: exI [of _ "[1, 1, 1, 1]"] exI [of _ "53 :: nat"])
  have i: "ur_arrived (snd udp_example) = []" "ur_down (snd udp_example) = DownReading" "s_wr (ur_stream (snd udp_example)) = []"
    "u_in (r_conn (ur_relay (snd udp_example))) = []" "s_out (ur_stream (snd udp_example)) = []"
    by (simp_all add: udp_example_def udp_fresh_def)
  have ctl: "udp_ctl_inv (snd udp_example)" using udp_reach_inv [OF udp_init udp_example_begun] by blast
  from udp_one_more [OF udp_init ctl i(2-4) ok] i obtain r where
    r: "udp_reach (fst udp_example) (snd udp_example) r" "s_out (ur_stream r) = reply_enc (?a, [9])"
      "ur_arrived r = [(?a, [9])]" by auto
  from assoc_example [of "reply_enc (?a, [9])"] obtain x s where
    x: "assoc_reach ?conf (bringing (reply_enc (?a, [9]))) x" "ua_conn (as_assoc x) = Some s" "\<not> s_closed s"
      "s_in s = reply_enc (?a, [9]) @ []" "as_incoming x = reply_enc (?a, [9])" "as_recv x = VReading"
      "ua_client (as_assoc x) = Some ''c''" "ua_listening (as_assoc x)" "ua_replies (as_assoc x) = []" by auto
  have "length (Addr_String ?a) \<le> 65535" using Addr_String_length [OF ok] by simp
  with udp.rd_enc [of "(Addr_String ?a, [9])" s "[]"] x(4) obtain s1 where
    rd: "client_readUDPReply s = (Inr (Addr_String ?a, [9]), s1)" by (auto simp: reply_enc_def)
  let ?x1 = "x\<lparr>as_recv := VHandling (Addr_String ?a) [9], as_got := as_got x @ [(Addr_String ?a, [9])],
      as_assoc := (as_assoc x)\<lparr>ua_conn := Some s1\<rparr>\<rparr>"
  let ?x2 = "?x1\<lparr>as_recv := VReading, as_assoc := handleUDPResponse (Addr_String ?a) [9] (as_assoc ?x1)\<rparr>"
  have st: "assoc_step ?conf x ?x1" "assoc_step ?conf ?x1 ?x2"
    by (rule av_read [OF x(6,2,3) rd]) (rule av_handle, simp)
  from x(1) st have y: "assoc_reach ?conf (bringing (reply_enc (?a, [9]))) ?x2"
    unfolding assoc_reach_def by (meson rtranclp.rtrancl_into_rtrancl)
  from IPv4_source_packets [OF src, of "[9]"] obtain b where "reply_packets (Addr_String ?a, [9]) = [b]" by blast
  moreover have "ua_client (as_assoc ?x1) = Some ''c''" "ua_listening (as_assoc ?x1)" using x(7,8) by simp_all
  ultimately have "length (ua_replies (as_assoc ?x2)) = 1"
    using x(9) by (simp add: handleUDPResponse_packets)
  moreover have "\<not> ua_closed (as_assoc ?x2)"
    using assoc_reach_inv [OF x(1)] x(8) by (simp add: handleUDPResponse_all assoc_ctl_def Let_def ua_inv_def)
  ultimately show ?thesis using r x(5) y by (intro exI [of _ r] exI [of _ ?x2]) simp
qed

theorem udp_replies_in_order_witness:
  "\<exists>x :: assoc_sys. length (ua_replies (as_assoc x)) = 1 \<and> as_got x = [(Addr_String (UDPAddr [1, 1, 1, 1] 53), [9])]
    \<and> list_all (\<lambda>m. parseSOCKS5UDPPacket (fst m) = Some (Inr (Addr_String (UDPAddr [1, 1, 1, 1] 53), [9]))) (ua_replies (as_assoc x))"
proof -
  from udp_back_example obtain r x where
    r: "udp_reach (fst udp_example) (snd udp_example) r" "ur_arrived r = [(UDPAddr [1, 1, 1, 1] 53, [9])]"
      "s_out (ur_stream r) = as_incoming x @ []"
      "assoc_reach (zero_client\<lparr>DialTimeout := 5\<rparr>) (bringing (as_incoming x)) x"
      "length (ua_replies (as_assoc x)) = 1" "\<not> ua_closed (as_assoc x)" "as_recv x = VReading" by blast
  have o: "s_out (ur_stream (snd udp_example)) = []" by (simp add: udp_example_def)
  have src: "list_all (\<lambda>(a, d). IPv4_source a) (ur_arrived r)" unfolding r(2)
    by (auto simp: IPv4_source_def To4_def intro!: exI [of _ "[1, 1, 1, 1]"] exI [of _ "53 :: nat"])
  from udp_replies_in_order [OF r(4) udp_example_begun r(1) o r(3) src] obtain got tail k where
    g: "as_got x = List.map (\<lambda>(a, d). (Addr_String a, d)) got" "ur_arrived r = got @ tail"
      "list_all2 (\<lambda>b (a, d). parseSOCKS5UDPPacket b = Some (Inr (Addr_String a, d)))
        (List.map fst (ua_replies (as_assoc x))) (take k got)" by auto
  obtain m where m: "ua_replies (as_assoc x) = [m]" using r(5) by (auto simp: length_Suc_conv)
  have "length (take k got) = 1" using list_all2_lengthD [OF g(3)] r(5) by simp
  then have "take k got \<noteq> []" by auto
  with g(2) r(2) have got: "got = [(UDPAddr [1, 1, 1, 1] 53, [9])]" by (cases got) auto
  with g(3) m have "parseSOCKS5UDPPacket (fst m) = Some (Inr (Addr_String (UDPAddr [1, 1, 1, 1] 53), [9]))"
    by (cases k) auto
  with m g(1) got show ?thesis by (intro exI [of _ x]) simp
qed

end
