(* ===== verification/HttpProxy.thy ===== *)
theory HttpProxy
  imports Socks5 Base64 ProxyConn
begin

text \<open>
  The client's HTTP proxy, \<^verbatim>\<open>cmd/client/main.go\<close>: authentication, target and the opening of the
  stream. Parsing a request and writing it back are those of \<^verbatim>\<open>net/http\<close> and stay parameters: a request is
  its method, its host, its \<^verbatim>\<open>Proxy-Authorization\<close> header (empty when there is none) and the bytes
  \<^verbatim>\<open>req.Write\<close> gives for it.
\<close>

record http_request =
  hr_method :: string
  hr_host :: string
  hr_auth :: string
  hr_wire :: bytes

text \<open>\<^verbatim>\<open>runHTTP\<close> up to its accept loop; here the error of the address is dropped.\<close>

definition runHTTP :: "(string \<Rightarrow> go_error option) \<Rightarrow> string \<Rightarrow> proxy_start" where
  "runHTTP listen addr = (if addr = [] then NotStarted
     else case (case parseAuthAndAddr (TrimPrefix addr ''http://'') of
         Inl e \<Rightarrow> ([], [], []) | Inr r \<Rightarrow> r) of
       (h, u, p) \<Rightarrow> (case listen h of
         Some e \<Rightarrow> Fatal e
       | None \<Rightarrow> Serving \<lparr>Username = u, Password = p, Host = h\<rparr>))"

definition http_authorised :: "ProxyConfig \<Rightarrow> string \<Rightarrow> bool" where
  "http_authorised cfgp auth \<longleftrightarrow> HasPrefix auth ''Basic '' \<and>
     (let p = fst (StdDecode (TrimPrefix auth ''Basic ''));
          pair = SplitN2 (CHR '':'') (bytes_str p)
      in length pair = 2 \<and> pair ! 0 = Username cfgp \<and> pair ! 1 = Password cfgp)"

definition http_target :: "http_request \<Rightarrow> string" where
  "http_target req = (let target = hr_host req in
     if CHR '':'' \<in> set target then target
     else if hr_method req = ''CONNECT'' then target @ '':443'' else target @ '':80'')"

text \<open>The two texts written to the client, UTF-8 with their line ends.\<close>

definition reply_407 :: bytes where
  "reply_407 = str_bytes ''HTTP/1.1 407 ''
     @ [0xE9, 0x9C, 0x80, 0xE8, 0xA6, 0x81, 0xE8, 0xAE, 0xA4, 0xE8, 0xAF, 0x81, 0x0D, 0x0A]
     @ str_bytes ''Proxy-Authenticate: Basic realm='' @ [0x22, 0xE4, 0xBB, 0xA3, 0xE7, 0x90, 0x86, 0x22]
     @ [0x0D, 0x0A, 0x0D, 0x0A]"

definition reply_200 :: bytes where
  "reply_200 = str_bytes ''HTTP/1.1 200 ''
     @ [0xE8, 0xBF, 0x9E, 0xE6, 0x8E, 0xA5, 0xE5, 0xB7, 0xB2, 0xE5, 0xBB, 0xBA, 0xE7, 0xAB, 0x8B]
     @ [0x0D, 0x0A, 0x0D, 0x0A]"

text \<open>
  \<^verbatim>\<open>handleHTTP\<close> up to \<^verbatim>\<open>proxyConn\<close>: the stream to be proxied and its channel, if it gets there, and the
  pool; \<^verbatim>\<open>None\<close> is the panic of the channel selection. \<open>read_request\<close> takes the request off the
  connection. The stream a failing write closes is dropped.
\<close>

definition http_open ::
  "(stream \<Rightarrow> http_request res \<times> stream) \<Rightarrow> 'a CommonConfig_scheme \<Rightarrow> smux_session option list
     \<Rightarrow> ECHPool \<Rightarrow> ProxyConfig \<Rightarrow> stream \<Rightarrow> ((stream \<times> nat) option \<times> ECHPool) option \<times> stream"
where
  "http_open read_request conf slots p cfgp c =
    (case read_request (SetDeadline (DialTimeout conf) c) of
       (Inl e, c1) \<Rightarrow> (Some (None, p), c1)
     | (Inr req, c1) \<Rightarrow>
         let c2 = ClearDeadline c1
         in if Username cfgp \<noteq> [] \<and> \<not> http_authorised cfgp (hr_auth req) then
              (Some (None, p), snd (Write reply_407 c2))
            else if hr_host req = [] then (Some (None, p), c2)
            else let c3 = (if hr_method req = ''CONNECT'' then snd (Write reply_200 c2) else c2);
                     first = (if hr_method req = ''CONNECT'' then [] else hr_wire req)
                 in case openTCPStream (IPStrategy conf) (DialTimeout conf) slots (http_target req) p of
                      None \<Rightarrow> (None, c3)
                    | Some (Inl e, _, p1) \<Rightarrow> (Some (None, p1), c3)
                    | Some (Inr (s, ch), _, p1) \<Rightarrow>
                        (if length first > 0 then
                           (case Write first s of
                              (Inl e, s1) \<Rightarrow> (Some (None, p1), c3)
                            | (Inr _, s1) \<Rightarrow> (Some (Some (s1, ch), p1), c3))
                         else (Some (Some (s, ch), p1), c3)))"

text \<open>\<^verbatim>\<open>handleHTTP\<close> with \<^verbatim>\<open>proxyConn\<close> as argument and its deferred close.\<close>

definition handleHTTP ::
  "(stream \<Rightarrow> stream \<Rightarrow> stream) \<Rightarrow> (stream \<Rightarrow> http_request res \<times> stream) \<Rightarrow> 'a CommonConfig_scheme
     \<Rightarrow> smux_session option list \<Rightarrow> ECHPool \<Rightarrow> ProxyConfig \<Rightarrow> stream \<Rightarrow> ECHPool option \<times> stream"
where
  "handleHTTP proxy read_request conf slots p cfgp c =
    (case http_open read_request conf slots p cfgp c of
       (None, c1) \<Rightarrow> (None, Close c1)
     | (Some (None, p1), c1) \<Rightarrow> (Some p1, Close c1)
     | (Some (Some (s, ch), p1), c1) \<Rightarrow> (Some p1, Close (proxy c1 s)))"

section \<open>Facts\<close>

lemma basic_prefix: "TrimPrefix (''Basic '' @ s) ''Basic '' = s" "HasPrefix (''Basic '' @ s) ''Basic ''"
  by (rule TrimPrefix_append) (simp add: HasPrefix_def)

section \<open>Properties\<close>

text \<open>
  The right credentials are accepted. A user name without a colon and any password, joined by a
  colon, encoded in base64 behind \<^verbatim>\<open>Basic\<close>, authorise the request; and when decoding succeeds on the
  whole text, nothing else does.
\<close>

theorem http_auth_exact:
  assumes "CHR '':'' \<notin> set (Username cfgp)"
  shows "http_authorised cfgp (''Basic '' @ StdEncode (str_bytes (Username cfgp @ '':'' @ Password cfgp)))
    \<and> (\<forall>x. http_authorised cfgp (''Basic '' @ StdEncode x) \<longrightarrow> x = str_bytes (Username cfgp @ '':'' @ Password cfgp))"
proof -
  have split: "length (SplitN2 c s) = 2 \<Longrightarrow> s = SplitN2 c s ! 0 @ c # SplitN2 c s ! 1" for c s
    by (auto simp: SplitN2_def dest!: split_list_first split: if_splits simp: takeWhile_sep dropWhile_sep)
  have "x = str_bytes (Username cfgp @ '':'' @ Password cfgp)" if "http_authorised cfgp (''Basic '' @ StdEncode x)" for x
  proof -
    from that have p: "length (SplitN2 (CHR '':'') (bytes_str x)) = 2" "SplitN2 (CHR '':'') (bytes_str x) ! 0 = Username cfgp"
      "SplitN2 (CHR '':'') (bytes_str x) ! 1 = Password cfgp"
      unfolding http_authorised_def basic_prefix StdDecode_Encode fst_conv Let_def by auto
    from split [OF p(1)] p(2,3) have "bytes_str x = Username cfgp @ '':'' @ Password cfgp" by simp
    then show ?thesis by (metis str_bytes_inverse)
  qed
  moreover have "http_authorised cfgp (''Basic '' @ StdEncode (str_bytes (Username cfgp @ '':'' @ Password cfgp)))"
    unfolding http_authorised_def basic_prefix StdDecode_Encode fst_conv Let_def using assms by (simp add: HasPrefix_def)
  ultimately show ?thesis by blast
qed

theorem http_auth_exact_witness:
  "http_authorised \<lparr>Username = ''u'', Password = ''p'', Host = []\<rparr> (''Basic '' @ StdEncode (str_bytes ''u:p''))"
  using http_auth_exact [of "\<lparr>Username = ''u'', Password = ''p'', Host = []\<rparr>"] by simp

text \<open>
  Malformed credentials are accepted. The error of the base64 decoder is dropped, so the valid
  text may be followed by any character outside the alphabet and by anything behind it.
\<close>

theorem http_auth_accepts_malformed:
  assumes "CHR '':'' \<notin> set (Username cfgp)" "std_val x = None" "\<not> is_newline x"
  shows "http_authorised cfgp (''Basic '' @ StdEncode (str_bytes (Username cfgp @ '':'' @ Password cfgp)) @ x # junk)
    \<and> snd (StdDecode (StdEncode (str_bytes (Username cfgp @ '':'' @ Password cfgp)) @ x # junk))"
  unfolding http_authorised_def basic_prefix StdDecode_junk [OF assms(2,3)] fst_conv Let_def
  using assms(1) by (simp add: HasPrefix_def)

theorem http_auth_accepts_malformed_witness:
  "http_authorised \<lparr>Username = ''u'', Password = ''p'', Host = []\<rparr>
     (''Basic '' @ StdEncode (str_bytes ''u:p'') @ ''!rest'')"
  using http_auth_accepts_malformed [of "\<lparr>Username = ''u'', Password = ''p'', Host = []\<rparr>" "CHR ''!''" "''rest''"]
  by (simp add: std_val_def is_newline_def ord_of_def)

text \<open>
  C20: a request is proxied only with authorisation, and as it was made. When \<^verbatim>\<open>handleHTTP\<close> reaches
  \<^verbatim>\<open>proxyConn\<close>, there is no user name or the header authorises, and what has been written to the fresh stream
  is the open header for the target with its default port, followed by the request itself unless the
  method is CONNECT.
\<close>

theorem http_request_end_to_end:
  assumes "http_open read_request conf slots p cfgp c = (Some (Some (s', ch), p1), c')"
    "read_request (SetDeadline (DialTimeout conf) c) = (Inr req, c1)"
    "openBestStream (DialTimeout conf) slots p = Some (Inr (s, ch), p1)" "s_wr s = []" "s_out s = []"
  shows "(Username cfgp = [] \<or> http_authorised cfgp (hr_auth req)) \<and> length (http_target req) \<le> 65535
    \<and> (\<forall>r. s_in r = s_out s' \<longrightarrow> (\<exists>r'. HandleSmuxStream tcp udp r = Close (tcp (http_target req) (IPStrategy conf) r')
         \<and> s_in r' = (if hr_method req = ''CONNECT'' then [] else hr_wire req)))"
proof -
  let ?c = "ClearDeadline c1"
  have auth: "Username cfgp = [] \<or> http_authorised cfgp (hr_auth req)" and host: "hr_host req \<noteq> []"
    using assms(1,2) by (auto simp: http_open_def Let_def split: if_splits)
  obtain s1 x where open1: "openTCPStream (IPStrategy conf) (DialTimeout conf) slots (http_target req) p
      = Some (Inr (s1, ch), x, p1)"
    and s': "if hr_method req = ''CONNECT'' \<or> hr_wire req = [] then s' = s1 else \<exists>n. Write (hr_wire req) s1 = (Inr n, s')"
    using assms(1,2) auth host
    by (auto simp: http_open_def Let_def split: if_splits option.splits prod.splits sum.splits)
  note hdr = tcp_open.opened_target [OF assms(3-5) open1]
  then have len: "length (http_target req) \<le> 65535" by blast
  have out: "s_out s' = header_enc (StreamKindTCP, IPStrategy conf, http_target req)
      @ (if hr_method req = ''CONNECT'' then [] else hr_wire req)"
    using s' hdr by (auto simp: Write_ok split: if_splits)
  have "\<exists>r'. HandleSmuxStream tcp udp r = Close (tcp (http_target req) (IPStrategy conf) r')
      \<and> s_in r' = (if hr_method req = ''CONNECT'' then [] else hr_wire req)" if "s_in r = s_out s'" for r
    using tcp_open.relay_dispatches [of r "IPStrategy conf" "http_target req"
        "if hr_method req = ''CONNECT'' then [] else hr_wire req" tcp udp] that len unfolding out by blast
  with auth len show ?thesis by blast
qed

theorem http_request_end_to_end_witness:
  "let req = \<lparr>hr_method = ''GET'', hr_host = ''h'', hr_auth = [], hr_wire = [7, 7]\<rparr>;
     out = http_open (\<lambda>c. (Inr req, c)) (zero_client\<lparr>DialTimeout := 5\<rparr>) one_slot one_channel
       \<lparr>Username = [], Password = [], Host = []\<rparr> (fresh_stream [])
   in \<exists>s' p1. fst out = Some (Some (s', 1), p1) \<and> (\<exists>r'. HandleSmuxStream (\<lambda>t st s. s) (\<lambda>t st s. s) (fresh_stream (s_out s'))
        = Close r' \<and> s_in r' = [7, 7])"
proof -
  let ?conf = "zero_client\<lparr>DialTimeout := 5\<rparr>" and ?cfg = "\<lparr>Username = [], Password = [], Host = []\<rparr>"
  let ?req = "\<lparr>hr_method = ''GET'', hr_host = ''h'', hr_auth = [], hr_wire = [7, 7]\<rparr>"
  let ?rd = "\<lambda>c. (Inr ?req, c)"
  have o: "openBestStream (DialTimeout ?conf) one_slot one_channel
      = Some (Inr (fresh_stream [], 1), one_channel\<lparr>selectCounter := 1\<rparr>)" using open_one_channel by simp
  obtain s' c' where h: "http_open ?rd ?conf one_slot one_channel ?cfg (fresh_stream [])
      = (Some (Some (s', 1), one_channel\<lparr>selectCounter := 1\<rparr>), c')"
    using o by (simp add: http_open_def openTCPStream_def open_kind_def writeSmuxOpenHeader_def http_target_def
        Write_ok Let_def)
  have f: "s_wr (fresh_stream []) = []" "s_out (fresh_stream []) = []" by simp_all
  have "s_in (fresh_stream (s_out s')) = s_out s'" by simp
  with http_request_end_to_end [OF h refl o f, of "\<lambda>t st s. s" "\<lambda>t st s. s"] h show ?thesis
    unfolding Let_def by auto
qed

end
