(* ===== verification/SendQueue.thy ===== *)
theory SendQueue
  imports Prelude
begin

text \<open>
  The contract of a buffering writer, shared by the upload side (\<^verbatim>\<open>WSNetConn\<close>) and the download
  side (\<^verbatim>\<open>DnAggregator\<close>): bytes a successful \<^verbatim>\<open>Write\<close> accepts are on the wire or pending, in the
  order of the calls, and a successful flush leaves nothing pending.
\<close>

text \<open>The copy loop that joins the queued chunks into a buffer of \<open>total\<close> bytes.\<close>

fun copy_chunks :: "bytes \<Rightarrow> nat \<Rightarrow> bytes list \<Rightarrow> bytes" where
  "copy_chunks buf off [] = buf"
| "copy_chunks buf off (chunk # cs) =
     copy_chunks (take off buf @ take (length buf - off) chunk @ drop (off + length chunk) buf)
       (off + length chunk) cs"

lemma copy_chunks_append:
  "length (concat cs) \<le> length rest \<Longrightarrow>
     copy_chunks (pre @ rest) (length pre) cs = pre @ concat cs @ drop (length (concat cs)) rest"
proof (induction cs arbitrary: pre rest)
  case Nil
  then show ?case by simp
next
  case (Cons ch cs)
  have "copy_chunks (pre @ rest) (length pre) (ch # cs)
      = copy_chunks ((pre @ ch) @ drop (length ch) rest) (length (pre @ ch)) cs"
    using Cons.prems by simp
  also have "\<dots> = (pre @ ch) @ concat cs @ drop (length (concat cs)) (drop (length ch) rest)"
    using Cons.prems by (intro Cons.IH) simp
  finally show ?case by (simp add: add.commute)
qed

lemma copy_chunks_concat:
  "n = length (concat cs) \<Longrightarrow> copy_chunks (replicate n 0) 0 cs = concat cs"
  using copy_chunks_append [of cs "replicate n 0" "[]"] by simp

lemma concat_pos: "[] \<notin> set xs \<Longrightarrow> (concat xs = []) = (xs = [])"
  by (cases xs) auto

fun write_seq :: "(bytes \<Rightarrow> 's \<Rightarrow> nat res \<times> 's) \<Rightarrow> bytes list \<Rightarrow> 's \<Rightarrow> nat res \<times> 's" where
  "write_seq wr [] s = (Inr 0, s)"
| "write_seq wr (b # bs) s = (case wr b s of
     (Inl e, s') \<Rightarrow> (Inl e, s')
   | (Inr n, s') \<Rightarrow> (case write_seq wr bs s' of
        (Inl e, s'') \<Rightarrow> (Inl e, s'')
      | (Inr m, s'') \<Rightarrow> (Inr (n + m), s'')))"

locale send_queue =
  fixes wr :: "bytes \<Rightarrow> 's \<Rightarrow> nat res \<times> 's"
    and flush :: "'s \<Rightarrow> go_error option \<times> 's"
    and inv :: "'s \<Rightarrow> bool"
    and wire :: "'s \<Rightarrow> bytes"
    and pending :: "'s \<Rightarrow> bytes"
  assumes wr_ok: "inv s \<Longrightarrow> wr b s = (Inr n, s') \<Longrightarrow>
      inv s' \<and> n = length b \<and> wire s' @ pending s' = wire s @ pending s @ b"
    and flush_ok: "inv s \<Longrightarrow> flush s = (None, s') \<Longrightarrow>
      inv s' \<and> wire s' = wire s @ pending s \<and> pending s' = []"
begin

lemma write_seq_ok:
  "inv s \<Longrightarrow> write_seq wr bs s = (Inr n, s') \<Longrightarrow>
     inv s' \<and> n = length (concat bs) \<and> wire s' @ pending s' = wire s @ pending s @ concat bs"
proof (induction bs arbitrary: s n s')
  case Nil
  then show ?case by simp
next
  case (Cons b bs)
  from Cons.prems(2) obtain k s1 m where
    w: "wr b s = (Inr k, s1)" "write_seq wr bs s1 = (Inr m, s')" "n = k + m"
    by (auto split: prod.splits sum.splits)
  from wr_ok [OF Cons.prems(1) w(1)] have
    1: "inv s1" "k = length b" "wire s1 @ pending s1 = wire s @ pending s @ b" by auto
  from Cons.IH [OF 1(1) w(2)] 1 w(3) show ?case
    by (metis append.assoc concat.simps(2) length_append)
qed

text \<open>Nothing is lost, duplicated or reordered between the writes and a flush.\<close>

lemma write_seq_flush:
  assumes "inv s" "write_seq wr bs s = (Inr n, s1)" "flush s1 = (None, s2)"
  shows "wire s2 = wire s @ pending s @ concat bs \<and> pending s2 = []"
  using write_seq_ok [OF assms(1,2)] flush_ok [of s1 s2] assms(3) by auto

end

end
