(* ===== verification/ByteSource.thy ===== *)
theory ByteSource
  imports Prelude
begin

text \<open>
  The contract of \<^verbatim>\<open>io.Reader\<close>: \<open>rd n s\<close> is a \<^verbatim>\<open>Read\<close> into a buffer of \<open>n\<close> bytes, with the
  bytes read, the error and the next state; what it returns comes off the front of the source's
  contents. A \<^verbatim>\<open>message_source\<close> moreover is used up when it reports the end of file.
\<close>

fun read_calls :: "(nat \<Rightarrow> 's \<Rightarrow> bytes \<times> go_error option \<times> 's) \<Rightarrow> nat list \<Rightarrow> 's \<Rightarrow> bytes \<times> 's" where
  "read_calls rd [] s = ([], s)"
| "read_calls rd (n # ns) s = (case rd n s of (b, _, s') \<Rightarrow>
     (case read_calls rd ns s' of (bs, s'') \<Rightarrow> (b @ bs, s'')))"

locale byte_source =
  fixes rd :: "nat \<Rightarrow> 's \<Rightarrow> bytes \<times> go_error option \<times> 's" and contents :: "'s \<Rightarrow> bytes"
  assumes rd_front: "rd n s = (b, e, s') \<Longrightarrow> contents s = b @ contents s'"
    and rd_bound: "rd n s = (b, e, s') \<Longrightarrow> length b \<le> n"
begin

lemma read_calls_front: "read_calls rd ns s = (bs, s') \<Longrightarrow> contents s = bs @ contents s'"
proof (induction ns arbitrary: s bs)
  case Nil
  then show ?case by simp
next
  case (Cons n ns)
  then obtain b e s1 bs1 where "rd n s = (b, e, s1)" "read_calls rd ns s1 = (bs1, s')" "bs = b @ bs1"
    by (auto split: prod.splits)
  with Cons.IH rd_front show ?case by fastforce
qed

end

locale message_source = byte_source +
  assumes rd_eof: "rd n s = (b, Some EOF, s') \<Longrightarrow> contents s' = []"

end
