(* ===== verification/WSConn.thy ===== *)
theory WSConn
  imports SendQueue Lifecycle ByteSource
begin

text \<open>
  The WebSocket connection as a byte stream, \<^verbatim>\<open>internal/transport/wsconn.go\<close>: writes are gathered
  and sent as binary messages, reads concatenate the binary messages received.

  The WebSocket library is a parameter: \<^verbatim>\<open>ws_script\<close> says how each attempt to send a message
  ends (an exhausted script succeeds), \<^verbatim>\<open>ws_close_err\<close> what closing it returns, \<^verbatim>\<open>ws_in\<close> what
  \<^verbatim>\<open>NextReader\<close> returns call by call and \<^verbatim>\<open>ws_in_end\<close> its error when that is used up. A message
  reader is a value of a type of its own and is read by the argument \<open>rread\<close>.

  \<^verbatim>\<open>upMu\<close> and \<^verbatim>\<open>writeMu\<close> make the locked sections atomic; \<^verbatim>\<open>timer\<close> says whether the
  \<^verbatim>\<open>AfterFunc\<close> is pending.
\<close>

datatype ws_out = OutOk | OutNextWriter go_error | OutWrite nat go_error | OutClose go_error

datatype 'r ws_event = WsMessage bool 'r | WsFail go_error

record 'r wsconn =
  ws_sent :: "bytes list"
  ws_script :: "ws_out list"
  ws_in :: "'r ws_event list"
  ws_in_end :: go_error
  ws_closed :: bool
  ws_close_err :: "go_error option"
  reader :: "'r option"
  deadCh :: bool
  deadErr :: "go_error option"
  closed :: bool
  upQueue :: "bytes list"
  upSize :: int
  upPack :: int
  chunkMs :: int
  timer :: bool
  maxQueue :: int

section \<open>Construction and the death signal\<close>

text \<open>The third-party part of a fresh connection: script, incoming events, errors.\<close>

definition NewWSNetConn ::
  "ws_out list \<Rightarrow> 'r ws_event list \<Rightarrow> go_error \<Rightarrow> go_error option \<Rightarrow> int \<Rightarrow> int \<Rightarrow> int \<Rightarrow> 'r wsconn" where
  "NewWSNetConn script inp in_end close_err upPack0 chunkMs0 maxQueue0 =
    (let upPack1 = (if upPack0 \<le> 0 then 20 * 1024 else upPack0);
         chunkMs1 = (if chunkMs0 \<le> 0 then 20 else chunkMs0);
         maxQueue1 = (if maxQueue0 \<le> 0 then 128 * 1024 else maxQueue0)
     in \<lparr>ws_sent = [], ws_script = script, ws_in = inp, ws_in_end = in_end, ws_closed = False,
         ws_close_err = close_err, reader = None, deadCh = False, deadErr = None, closed = False,
         upQueue = [], upSize = 0, upPack = upPack1, chunkMs = chunkMs1, timer = False,
         maxQueue = maxQueue1\<rparr>)"

definition signalDead :: "go_error option \<Rightarrow> 'r wsconn \<Rightarrow> 'r wsconn" where
  "signalDead err c = (case err of
     None \<Rightarrow> c
   | Some e \<Rightarrow> c\<lparr>deadErr := (case deadErr c of None \<Rightarrow> Some e | Some e0 \<Rightarrow> Some e0), deadCh := True\<rparr>)"

definition Dead :: "'r wsconn \<Rightarrow> bool" where
  "Dead c = deadCh c"

definition DeadErr :: "'r wsconn \<Rightarrow> go_error option" where
  "DeadErr c = deadErr c"

definition isClosed :: "'r wsconn \<Rightarrow> bool" where
  "isClosed c = closed c"

section \<open>Writing\<close>

text \<open>
  \<^verbatim>\<open>NextWriter\<close>, \<^verbatim>\<open>Write\<close> and \<^verbatim>\<open>Close\<close> of one binary message: the number of bytes written, the
  error, and the connection; every error is signalled.
\<close>

definition ws_send :: "bytes \<Rightarrow> 'r wsconn \<Rightarrow> nat \<times> go_error option \<times> 'r wsconn" where
  "ws_send b c = (case ws_script c of
     [] \<Rightarrow> (length b, None, c\<lparr>ws_sent := ws_sent c @ [b]\<rparr>)
   | OutOk # rest \<Rightarrow> (length b, None, c\<lparr>ws_sent := ws_sent c @ [b], ws_script := rest\<rparr>)
   | OutNextWriter e # rest \<Rightarrow> (0, Some e, signalDead (Some e) (c\<lparr>ws_script := rest\<rparr>))
   | OutWrite n e # rest \<Rightarrow> (n, Some e, signalDead (Some e) (c\<lparr>ws_script := rest\<rparr>))
   | OutClose e # rest \<Rightarrow> (length b, Some e, signalDead (Some e) (c\<lparr>ws_script := rest\<rparr>)))"

definition writeDirect :: "bytes \<Rightarrow> 'r wsconn \<Rightarrow> nat res \<times> 'r wsconn" where
  "writeDirect p c = (case ws_send p c of
     (n, None, c1) \<Rightarrow> (Inr n, c1)
   | (n, Some e, c1) \<Rightarrow> (Inl e, c1))"

definition flushLocked :: "'r wsconn \<Rightarrow> go_error option \<times> 'r wsconn" where
  "flushLocked c =
    (if upSize c = 0 then (None, c)
     else let c1 = c\<lparr>timer := False\<rparr>;
              buf = copy_chunks (replicate (nat (upSize c1)) 0) 0 (upQueue c1);
              c2 = c1\<lparr>upQueue := [], upSize := 0\<rparr>
          in if isClosed c2 then (Some NetErrClosed, c2)
             else case ws_send buf c2 of (_, err, c3) \<Rightarrow> (err, c3))"

text \<open>The part of \<^verbatim>\<open>Write\<close> that holds \<^verbatim>\<open>upMu\<close>, for a non-empty \<open>p\<close>.\<close>

definition enqueue :: "bytes \<Rightarrow> 'r wsconn \<Rightarrow> nat res \<times> 'r wsconn" where
  "enqueue p c =
    (let c1 = c\<lparr>upQueue := upQueue c @ [p], upSize := upSize c + int (length p)\<rparr>
     in if upSize c1 \<ge> upPack c1 then
          (case flushLocked c1 of
             (Some e, c2) \<Rightarrow> (Inl e, c2)
           | (None, c2) \<Rightarrow> (Inr (length p), c2))
        else if chunkMs c1 > 0 then (Inr (length p), c1\<lparr>timer := True\<rparr>)
        else (Inr (length p), c1))"

definition Write_locked :: "bytes \<Rightarrow> 'r wsconn \<Rightarrow> nat res \<times> 'r wsconn" where
  "Write_locked p c =
    (if upSize c + int (length p) > maxQueue c then
       (case flushLocked c of
          (Some e, c1) \<Rightarrow> (Inl e, c1)
        | (None, c1) \<Rightarrow>
            if int (length p) \<ge> upPack c1 then writeDirect p c1
            else if int (length p) > maxQueue c1 then writeDirect p c1
            else enqueue p c1)
     else enqueue p c)"

definition WS_Write :: "bytes \<Rightarrow> 'r wsconn \<Rightarrow> nat res \<times> 'r wsconn" where
  "WS_Write p c =
    (if isClosed c then (Inl NetErrClosed, c)
     else if length p = 0 then (Inr 0, c)
     else Write_locked p c)"

text \<open>The timer's callback.\<close>

definition timer_fired :: "'r wsconn \<Rightarrow> 'r wsconn" where
  "timer_fired c = snd (flushLocked (c\<lparr>timer := False\<rparr>))"

section \<open>Closing\<close>

definition WS_Close :: "'r wsconn \<Rightarrow> go_error option \<times> 'r wsconn" where
  "WS_Close c =
    (if closed c then (Some NetErrClosed, c)
     else let c1 = c\<lparr>closed := True\<rparr>;
              c3 = (case flushLocked c1 of
                 (Some e, c2) \<Rightarrow> signalDead (Some e) c2
               | (None, c2) \<Rightarrow> c2);
              c4 = c3\<lparr>ws_closed := True\<rparr>
          in case ws_close_err c4 of
               Some e \<Rightarrow> (Some e, signalDead (Some e) c4)
             | None \<Rightarrow> (None, signalDead (Some EOF) c4))"

section \<open>Reading\<close>

text \<open>
  The loop of \<^verbatim>\<open>Read\<close> for a buffer of \<open>n\<close> bytes. Every round without a message reader takes the
  next incoming event, so the rounds are bounded by the events left.
\<close>

fun read_loop ::
  "(nat \<Rightarrow> 'r \<Rightarrow> bytes \<times> go_error option \<times> 'r) \<Rightarrow> nat \<Rightarrow> 'r ws_event list \<Rightarrow> 'r wsconn
     \<Rightarrow> bytes \<times> go_error option \<times> 'r wsconn"
where
  "read_loop rread n [] c =
     ([], Some (ws_in_end c), signalDead (Some (ws_in_end c)) (c\<lparr>ws_in := []\<rparr>))"
| "read_loop rread n (WsFail e # es) c = ([], Some e, signalDead (Some e) (c\<lparr>ws_in := es\<rparr>))"
| "read_loop rread n (WsMessage binary r # es) c =
     (if \<not> binary then read_loop rread n es c
      else case rread n r of (b, err, r') \<Rightarrow>
        if err = Some EOF then
          (if length b > 0 then (b, None, c\<lparr>ws_in := es, reader := None\<rparr>)
           else read_loop rread n es (c\<lparr>reader := None\<rparr>))
        else (b, err, signalDead err (c\<lparr>ws_in := es, reader := Some r'\<rparr>)))"

text \<open>A round that starts with a message reader in place.\<close>

definition read_reader ::
  "(nat \<Rightarrow> 'r \<Rightarrow> bytes \<times> go_error option \<times> 'r) \<Rightarrow> nat \<Rightarrow> 'r \<Rightarrow> 'r wsconn
     \<Rightarrow> bytes \<times> go_error option \<times> 'r wsconn"
where
  "read_reader rread n r c = (case rread n r of (b, err, r') \<Rightarrow>
     if err = Some EOF then
       (if length b > 0 then (b, None, c\<lparr>reader := None\<rparr>)
        else read_loop rread n (ws_in c) (c\<lparr>reader := None\<rparr>))
     else (b, err, signalDead err (c\<lparr>reader := Some r'\<rparr>)))"

definition WS_Read ::
  "(nat \<Rightarrow> 'r \<Rightarrow> bytes \<times> go_error option \<times> 'r) \<Rightarrow> nat \<Rightarrow> 'r wsconn \<Rightarrow> bytes \<times> go_error option \<times> 'r wsconn"
where
  "WS_Read rread n c =
    (if isClosed c then ([], Some NetErrClosed, c)
     else case reader c of
       None \<Rightarrow> read_loop rread n (ws_in c) c
     | Some r \<Rightarrow> read_reader rread n r c)"

text \<open>
  The deadline calls: refused when closed, otherwise the library's own results \<open>rd\<close> and \<open>wd\<close> for
  its read and write deadline.
\<close>

definition WS_SetDeadline :: "go_error option \<Rightarrow> go_error option \<Rightarrow> 'r wsconn \<Rightarrow> go_error option" where
  "WS_SetDeadline rd wd c =
    (if isClosed c then Some NetErrClosed
     else case rd of Some e \<Rightarrow> Some e | None \<Rightarrow> (case wd of Some e \<Rightarrow> Some e | None \<Rightarrow> None))"

definition WS_SetReadDeadline :: "go_error option \<Rightarrow> 'r wsconn \<Rightarrow> go_error option" where
  "WS_SetReadDeadline rd c = (if isClosed c then Some NetErrClosed else rd)"

definition WS_SetWriteDeadline :: "go_error option \<Rightarrow> 'r wsconn \<Rightarrow> go_error option" where
  "WS_SetWriteDeadline wd c = (if isClosed c then Some NetErrClosed else wd)"

text \<open>The address calls: the underlying connection's address, else \<^verbatim>\<open>0.0.0.0:0\<close>.\<close>

definition WS_LocalAddr :: "'a option \<Rightarrow> 'a \<Rightarrow> 'a" where
  "WS_LocalAddr underlying zero = (case underlying of Some a \<Rightarrow> a | None \<Rightarrow> zero)"

definition WS_RemoteAddr :: "'a option \<Rightarrow> 'a \<Rightarrow> 'a" where
  "WS_RemoteAddr underlying zero = (case underlying of Some a \<Rightarrow> a | None \<Rightarrow> zero)"

section \<open>Invariant\<close>

text \<open>
  The size counter is the number of queued bytes, no chunk is empty, what is queued is below the
  packing threshold and within the queue limit and always has a pending timer, and the death
  channel is closed exactly when an error is recorded.
\<close>

definition ws_inv :: "'r wsconn \<Rightarrow> bool" where
  "ws_inv c \<longleftrightarrow> upSize c = int (length (concat (upQueue c))) \<and> [] \<notin> set (upQueue c)
     \<and> 0 < upPack c \<and> 0 < chunkMs c \<and> 0 < maxQueue c
     \<and> upSize c < upPack c \<and> upSize c \<le> maxQueue c
     \<and> (upQueue c \<noteq> [] \<longrightarrow> timer c)
     \<and> (deadCh c \<longleftrightarrow> deadErr c \<noteq> None)"

text \<open>The bytes sent and the bytes queued.\<close>

definition ws_wire :: "'r wsconn \<Rightarrow> bytes" where
  "ws_wire c = concat (ws_sent c)"

definition ws_pending :: "'r wsconn \<Rightarrow> bytes" where
  "ws_pending c = concat (upQueue c)"

lemma signalDead_sel [simp]:
  "ws_sent (signalDead e c) = ws_sent c" "upQueue (signalDead e c) = upQueue c"
  "upSize (signalDead e c) = upSize c" "upPack (signalDead e c) = upPack c"
  "chunkMs (signalDead e c) = chunkMs c" "maxQueue (signalDead e c) = maxQueue c"
  "timer (signalDead e c) = timer c" "closed (signalDead e c) = closed c"
  "ws_closed (signalDead e c) = ws_closed c" "ws_script (signalDead e c) = ws_script c"
  "ws_close_err (signalDead e c) = ws_close_err c" "reader (signalDead e c) = reader c"
  "ws_in (signalDead e c) = ws_in c" "ws_in_end (signalDead e c) = ws_in_end c"
  "deadCh (signalDead e c) = (e \<noteq> None \<or> deadCh c)"
  "(deadErr (signalDead e c) = None) = (e = None \<and> deadErr c = None)"
  by (auto simp: signalDead_def split: option.splits)

lemma deadErr_signalDead_Some [simp]: "\<exists>y. deadErr (signalDead (Some e) c) = Some y"
  by (auto simp: signalDead_def split: option.splits)

lemma deadErr_signalDead: "deadErr c \<noteq> None \<Longrightarrow> deadErr (signalDead e c) = deadErr c"
  by (auto simp: signalDead_def split: option.splits)

text \<open>Sending a message touches only the wire, the script and the death signal.\<close>

lemma ws_send_cases:
  assumes "ws_send b c = (n, err, c')"
  obtains (sent) "err = None" "n = length b" "ws_sent c' = ws_sent c @ [b]"
      "deadErr c' = deadErr c" "deadCh c' = deadCh c"
  | (failed) e where "err = Some e" "ws_sent c' = ws_sent c" "deadCh c'" "deadErr c' \<noteq> None"
  using assms
  by (auto simp: ws_send_def split: list.splits ws_out.splits)

lemma ws_send_frame:
  assumes "ws_send b c = (n, err, c')"
  shows "upQueue c' = upQueue c \<and> upSize c' = upSize c \<and> upPack c' = upPack c \<and> chunkMs c' = chunkMs c
    \<and> maxQueue c' = maxQueue c \<and> timer c' = timer c \<and> closed c' = closed c \<and> reader c' = reader c
    \<and> ws_in c' = ws_in c \<and> ws_closed c' = ws_closed c \<and> ws_in_end c' = ws_in_end c"
  using assms by (auto simp: ws_send_def split: list.splits ws_out.splits)

text \<open>
  What a flush does under the invariant: everything queued leaves the queue; it reaches the wire
  as one message exactly when no error is returned.
\<close>

lemma flushLocked_cases:
  assumes "flushLocked c = (err, c')" "upSize c = int (length (concat (upQueue c)))" "[] \<notin> set (upQueue c)"
  obtains (empty) "upQueue c = []" "err = None" "c' = c"
  | (sent) "upQueue c \<noteq> []" "\<not> closed c" "err = None" "ws_sent c' = ws_sent c @ [concat (upQueue c)]"
      "deadErr c' = deadErr c" "deadCh c' = deadCh c" "upQueue c' = []" "upSize c' = 0" "\<not> timer c'"
  | (failed) e where "upQueue c \<noteq> []" "\<not> closed c" "err = Some e" "ws_sent c' = ws_sent c"
      "deadCh c'" "deadErr c' \<noteq> None" "upQueue c' = []" "upSize c' = 0" "\<not> timer c'"
  | (refused) "upQueue c \<noteq> []" "closed c" "err = Some NetErrClosed"
      "c' = c\<lparr>timer := False, upQueue := [], upSize := 0\<rparr>"
proof (cases "upQueue c = []")
  case True
  with assms(1,2) show thesis
    by (intro empty) (simp_all add: flushLocked_def)
next
  case False
  then have "concat (upQueue c) \<noteq> []" using concat_pos [OF assms(3)] by blast
  then have size: "upSize c \<noteq> 0" using assms(2) by simp
  let ?c2 = "c\<lparr>timer := False, upQueue := [], upSize := 0\<rparr>"
  have buf: "copy_chunks (replicate (nat (upSize c)) 0) 0 (upQueue c) = concat (upQueue c)"
    using assms(2) by (intro copy_chunks_concat) simp
  show thesis
  proof (cases "closed c")
    case True
    with False assms(1) size show thesis
      by (intro refused) (auto simp: flushLocked_def isClosed_def Let_def)
  next
    case open_: False
    obtain n where send: "ws_send (concat (upQueue c)) ?c2 = (n, err, c')"
      using assms(1) size open_ buf
      by (auto simp: flushLocked_def isClosed_def Let_def split: prod.splits)
    from ws_send_frame [OF send] have fr: "upQueue c' = []" "upSize c' = 0" "\<not> timer c'" by auto
    from send show thesis
    proof (cases rule: ws_send_cases)
      case sent
      with that(2) False open_ fr show thesis by simp
    next
      case (failed e)
      with that(3) False open_ fr show thesis by simp
    qed
  qed
qed

lemma flushLocked_frame:
  assumes "flushLocked c = (err, c')"
  shows "upPack c' = upPack c \<and> chunkMs c' = chunkMs c \<and> maxQueue c' = maxQueue c \<and> closed c' = closed c
    \<and> reader c' = reader c \<and> ws_in c' = ws_in c \<and> ws_closed c' = ws_closed c"
  using assms ws_send_frame
  by (fastforce simp: flushLocked_def Let_def split: if_splits prod.splits)

lemma flushLocked_inv: "ws_inv c \<Longrightarrow> flushLocked c = (err, c') \<Longrightarrow> ws_inv c'"
proof -
  assume inv: "ws_inv c" and fl: "flushLocked c = (err, c')"
  from inv have "upSize c = int (length (concat (upQueue c)))" "[] \<notin> set (upQueue c)"
    by (auto simp: ws_inv_def)
  from fl this show "ws_inv c'"
    by (cases rule: flushLocked_cases) (use inv flushLocked_frame [OF fl] in \<open>auto simp: ws_inv_def\<close>)
qed

text \<open>The same for a flush whose result is known.\<close>

lemma flushLocked_None:
  assumes "ws_inv c" "flushLocked c = (None, c')"
  shows "ws_inv c' \<and> upQueue c' = [] \<and> upSize c' = 0 \<and> ws_wire c' = ws_wire c @ ws_pending c
    \<and> ws_sent c' = ws_sent c @ (if upQueue c = [] then [] else [concat (upQueue c)])"
proof -
  from assms(1) have q: "upSize c = int (length (concat (upQueue c)))" "[] \<notin> set (upQueue c)"
    by (auto simp: ws_inv_def)
  from assms(2) q show ?thesis
    by (cases rule: flushLocked_cases)
       (use flushLocked_inv [OF assms] assms q in \<open>auto simp: ws_wire_def ws_pending_def\<close>)
qed

text \<open>
  A chunk that fits: afterwards it is on the wire behind what was queued, or queued. The queue's
  size alone may reach the packing threshold before the flush.
\<close>

lemma enqueue_inv:
  assumes "ws_inv c" "p \<noteq> []" "upSize c + int (length p) \<le> maxQueue c" "enqueue p c = (r, c')"
  shows "ws_inv c' \<and> closed c' = closed c
    \<and> (\<forall>f \<in> set (ws_sent c'). f \<in> set (ws_sent c) \<or> int (length f) \<le> maxQueue c)
    \<and> (\<forall>n. r = Inr n \<longrightarrow> n = length p \<and> ws_wire c' @ ws_pending c' = ws_wire c @ ws_pending c @ p)"
proof -
  let ?c1 = "c\<lparr>upQueue := upQueue c @ [p], upSize := upSize c + int (length p)\<rparr>"
  have q: "upSize ?c1 = int (length (concat (upQueue ?c1)))" "[] \<notin> set (upQueue ?c1)"
    using assms(1,2) by (auto simp: ws_inv_def)
  show ?thesis
  proof (cases "upSize ?c1 \<ge> upPack ?c1")
    case True
    obtain err c2 where fl: "flushLocked ?c1 = (err, c2)" by fastforce
    with True assms(4) have c': "c' = c2" "r = (case err of Some e \<Rightarrow> Inl e | None \<Rightarrow> Inr (length p))"
      by (auto simp: enqueue_def Let_def split: option.splits)
    from fl q show ?thesis
      by (cases rule: flushLocked_cases)
         (use assms(1,3) c' flushLocked_frame [OF fl] in
           \<open>auto simp: ws_inv_def ws_wire_def ws_pending_def\<close>)
  next
    case False
    with assms(4) have "c' = ?c1\<lparr>timer := True\<rparr>" "r = Inr (length p)"
      using assms(1) by (auto simp: enqueue_def Let_def ws_inv_def split: if_splits)
    with False assms q show ?thesis
      by (auto simp: ws_inv_def ws_wire_def ws_pending_def)
  qed
qed

lemma ws_inv_clear_timer: "ws_inv c \<Longrightarrow> upQueue c = [] \<Longrightarrow> ws_inv (c\<lparr>timer := b\<rparr>)"
  by (simp add: ws_inv_def)

lemma ws_send_inv:
  assumes "ws_inv c" "ws_send b c = (n, err, c')"
  shows "ws_inv c'"
  using assms(2)
proof (cases rule: ws_send_cases)
  case sent
  with assms(1) ws_send_frame [OF assms(2)] show ?thesis by (simp add: ws_inv_def)
next
  case (failed e)
  with assms(1) ws_send_frame [OF assms(2)] show ?thesis by (simp add: ws_inv_def)
qed

lemma Write_locked_inv:
  assumes "ws_inv c" "p \<noteq> []" "Write_locked p c = (r, c')"
  shows "ws_inv c' \<and> closed c' = closed c
    \<and> (\<forall>f \<in> set (ws_sent c'). f \<in> set (ws_sent c) \<or> int (length f) \<le> max (maxQueue c) (int (length p)))
    \<and> (\<forall>n. r = Inr n \<longrightarrow> n = length p \<and> ws_wire c' @ ws_pending c' = ws_wire c @ ws_pending c @ p)"
proof (cases "upSize c + int (length p) > maxQueue c")
  case False
  with assms have "enqueue p c = (r, c')" by (simp add: Write_locked_def)
  with enqueue_inv [OF assms(1,2) _ this] False show ?thesis by fastforce
next
  case True
  obtain err c1 where fl: "flushLocked c = (err, c1)" by fastforce
  note inv1 = flushLocked_inv [OF assms(1) fl] and fr = flushLocked_frame [OF fl]
  have q: "upSize c = int (length (concat (upQueue c)))" "[] \<notin> set (upQueue c)"
    and small: "upSize c \<le> maxQueue c" using assms(1) by (auto simp: ws_inv_def)
  have sent1: "\<forall>f \<in> set (ws_sent c1). f \<in> set (ws_sent c) \<or> int (length f) \<le> maxQueue c"
    using fl q by (cases rule: flushLocked_cases) (use q small in auto)
  show ?thesis
  proof (cases err)
    case (Some e)
    with True fl assms(3) have "r = Inl e" "c' = c1" by (auto simp: Write_locked_def)
    with inv1 fr sent1 show ?thesis by fastforce
  next
    case None
    with flushLocked_None [OF assms(1)] fl
    have c1: "upQueue c1 = []" "upSize c1 = 0" "ws_wire c1 = ws_wire c @ ws_pending c" by auto
    show ?thesis
    proof (cases "int (length p) \<ge> upPack c1 \<or> int (length p) > maxQueue c1")
      case True
      with \<open>upSize c + _ > _\<close> fl None assms(3) have "writeDirect p c1 = (r, c')"
        by (auto simp: Write_locked_def split: if_splits)
      then obtain n err' where send: "ws_send p c1 = (n, err', c')"
          and r: "r = (case err' of None \<Rightarrow> Inr n | Some e \<Rightarrow> Inl e)"
        by (auto simp: writeDirect_def split: prod.splits option.splits)
      from send ws_send_inv [OF inv1 send] ws_send_frame [OF send] show ?thesis
        by (cases rule: ws_send_cases)
           (use r c1 sent1 fr in \<open>auto simp: ws_wire_def ws_pending_def le_max_iff_disj\<close>)
    next
      case False
      with \<open>upSize c + _ > _\<close> fl None assms(3) have "enqueue p c1 = (r, c')"
        by (auto simp: Write_locked_def)
      from enqueue_inv [OF inv1 assms(2) _ this] False c1 fr sent1 show ?thesis
        by (auto simp: ws_pending_def le_max_iff_disj)
    qed
  qed
qed

lemma WS_Write_inv:
  assumes "ws_inv c" "WS_Write p c = (r, c')"
  shows "ws_inv c' \<and> closed c' = closed c
    \<and> (\<forall>f \<in> set (ws_sent c'). f \<in> set (ws_sent c) \<or> int (length f) \<le> max (maxQueue c) (int (length p)))
    \<and> (\<forall>n. r = Inr n \<longrightarrow> n = length p \<and> ws_wire c' @ ws_pending c' = ws_wire c @ ws_pending c @ p)"
proof (cases "closed c \<or> p = []")
  case True
  with assms show ?thesis by (auto simp: WS_Write_def isClosed_def split: if_splits)
next
  case False
  with assms(2) have "Write_locked p c = (r, c')" by (simp add: WS_Write_def isClosed_def)
  with Write_locked_inv [OF assms(1) _ this] False show ?thesis by simp
qed

interpretation upq: send_queue WS_Write flushLocked ws_inv ws_wire ws_pending
proof unfold_locales
  fix s :: "'r wsconn" and b n s'
  assume "ws_inv s" "WS_Write b s = (Inr n, s')"
  then show "ws_inv s' \<and> n = length b \<and> ws_wire s' @ ws_pending s' = ws_wire s @ ws_pending s @ b"
    using WS_Write_inv by fastforce
next
  fix s s' :: "'r wsconn"
  assume "ws_inv s" "flushLocked s = (None, s')"
  from flushLocked_None [OF this]
  show "ws_inv s' \<and> ws_wire s' = ws_wire s @ ws_pending s \<and> ws_pending s' = []"
    by (simp add: ws_pending_def)
qed

section \<open>Closing and reading under the invariant\<close>

lemma WS_Close_inv:
  assumes "ws_inv c" "WS_Close c = (r, c')"
  shows "ws_inv c' \<and> closed c' \<and> ws_sent c' = ws_sent c"
proof (cases "closed c")
  case True
  with assms show ?thesis by (auto simp: WS_Close_def)
next
  case False
  let ?c1 = "c\<lparr>closed := True\<rparr>"
  obtain err c2 where fl: "flushLocked ?c1 = (err, c2)" by fastforce
  have inv1: "ws_inv ?c1" using assms(1) by (simp add: ws_inv_def)
  then have q: "upSize ?c1 = int (length (concat (upQueue ?c1)))" "[] \<notin> set (upQueue ?c1)"
    by (auto simp: ws_inv_def)
  have c2: "ws_inv c2" "closed c2" "ws_sent c2 = ws_sent c"
    using flushLocked_inv [OF inv1 fl] flushLocked_frame [OF fl] fl q
    by (auto elim: flushLocked_cases)
  have keep: "ws_inv (signalDead e d)" "ws_inv (d\<lparr>ws_closed := True\<rparr>)" if "ws_inv d" for e and d :: "'a wsconn"
    using that by (auto simp: ws_inv_def)
  from assms(2) False fl have "c' = signalDead (case ws_close_err c2 of Some e \<Rightarrow> Some e | None \<Rightarrow> Some EOF)
      ((case err of Some e \<Rightarrow> signalDead (Some e) c2 | None \<Rightarrow> c2)\<lparr>ws_closed := True\<rparr>)"
    by (auto simp: WS_Close_def Let_def split: option.splits)
  with c2 show ?thesis
    by (auto intro!: keep split: option.splits)
qed

lemma WS_Close_again: "closed c \<Longrightarrow> WS_Close c = (Some NetErrClosed, c)"
  by (simp add: WS_Close_def)

lemma WS_Close_closes: "closed (snd (WS_Close c))"
proof (cases "closed c")
  case False
  obtain err c2 where fl: "flushLocked (c\<lparr>closed := True\<rparr>) = (err, c2)" by fastforce
  with flushLocked_frame [OF fl] False show ?thesis
    by (auto simp: WS_Close_def Let_def split: option.splits)
qed (simp add: WS_Close_again)

interpretation ws_lifecycle: closable "\<lambda>c. snd (WS_Close c)" closed
  by unfold_locales (simp_all add: WS_Close_closes WS_Close_again)

lemma ws_inv_read [simp]:
  "ws_inv (c\<lparr>ws_in := es\<rparr>) = ws_inv c" "ws_inv (c\<lparr>reader := r\<rparr>) = ws_inv c"
  by (simp_all add: ws_inv_def)

lemma ws_inv_signalDead: "ws_inv c \<Longrightarrow> ws_inv (signalDead e c)"
  by (auto simp: ws_inv_def)

lemma read_loop_frame:
  "read_loop rread n es c = (b, e, c') \<Longrightarrow>
     ws_sent c' = ws_sent c \<and> closed c' = closed c \<and> (ws_inv c \<longrightarrow> ws_inv c')"
proof (induction es arbitrary: c)
  case Nil
  then show ?case by (auto simp: ws_inv_signalDead)
next
  case (Cons ev es)
  show ?case
  proof (cases ev)
    case (WsMessage binary r)
    obtain b1 e1 r1 where "rread n r = (b1, e1, r1)" by (metis prod_cases3)
    with Cons.IH [of c] Cons.IH [of "c\<lparr>reader := None\<rparr>"] Cons.prems WsMessage show ?thesis
      by (auto simp: ws_inv_signalDead split: if_splits)
  next
    case (WsFail e')
    with Cons.prems show ?thesis by (auto simp: ws_inv_signalDead)
  qed
qed

lemma WS_Read_frame:
  assumes "WS_Read rread n c = (b, e, c')"
  shows "ws_sent c' = ws_sent c \<and> closed c' = closed c \<and> (ws_inv c \<longrightarrow> ws_inv c')"
proof (cases "closed c \<or> reader c = None")
  case True
  with assms read_loop_frame [of rread n "ws_in c" c] show ?thesis
    by (auto simp: WS_Read_def isClosed_def split: if_splits)
next
  case False
  then obtain r where r: "reader c = Some r" "\<not> closed c" by auto
  obtain b1 e1 r1 where r1: "rread n r = (b1, e1, r1)" by (metis prod_cases3)
  show ?thesis
  proof (cases "e1 = Some EOF \<and> b1 = []")
    case True
    with assms r r1 have "read_loop rread n (ws_in c) (c\<lparr>reader := None\<rparr>) = (b, e, c')"
      by (simp add: WS_Read_def isClosed_def read_reader_def)
    from read_loop_frame [OF this] show ?thesis by simp
  next
    case False
    with assms r r1 show ?thesis
      by (auto simp: WS_Read_def isClosed_def read_reader_def ws_inv_signalDead split: if_splits)
  qed
qed

text \<open>The bytes still to be read: the current message's rest and the binary messages to come.\<close>

definition event_bytes :: "('r \<Rightarrow> bytes) \<Rightarrow> 'r ws_event \<Rightarrow> bytes" where
  "event_bytes rc ev = (case ev of WsMessage True r \<Rightarrow> rc r | _ \<Rightarrow> [])"

definition ws_contents :: "('r \<Rightarrow> bytes) \<Rightarrow> 'r wsconn \<Rightarrow> bytes" where
  "ws_contents rc c = (case reader c of None \<Rightarrow> [] | Some r \<Rightarrow> rc r)
     @ concat (List.map (event_bytes rc) (ws_in c))"

lemma event_bytes_simps [simp]:
  "event_bytes rc (WsMessage True r) = rc r" "event_bytes rc (WsMessage False r) = []"
  "event_bytes rc (WsFail e) = []"
  by (simp_all add: event_bytes_def)

context message_source begin

lemma read_loop_contents:
  "read_loop rd n es c = (b, e, c') \<Longrightarrow> reader c = None \<Longrightarrow>
     concat (List.map (event_bytes contents) es) = b @ ws_contents contents c' \<and> length b \<le> n"
proof (induction es arbitrary: c)
  case Nil
  then show ?case by (auto simp: ws_contents_def)
next
  case (Cons ev es)
  show ?case
  proof (cases ev)
    case (WsMessage binary r)
    obtain b1 e1 r1 where r1: "rd n r = (b1, e1, r1)" by (metis prod_cases3)
    note front = rd_front [OF r1] and bound = rd_bound [OF r1]
    have eof: "e1 = Some EOF \<Longrightarrow> contents r1 = []" using rd_eof r1 by blast
    show ?thesis
      using Cons.IH [of c] Cons.IH [of "c\<lparr>reader := None\<rparr>"] Cons.prems WsMessage r1 front bound eof
      by (auto simp: ws_contents_def split: if_splits)
  next
    case (WsFail e')
    with Cons.prems show ?thesis by (auto simp: ws_contents_def)
  qed
qed

lemma WS_Read_contents:
  assumes "WS_Read rd n c = (b, e, c')"
  shows "ws_contents contents c = b @ ws_contents contents c' \<and> length b \<le> n"
proof (cases "closed c \<or> reader c = None")
  case True
  with assms read_loop_contents [of n "ws_in c" c] show ?thesis
    by (auto simp: WS_Read_def isClosed_def ws_contents_def split: if_splits)
next
  case False
  then obtain r where r: "reader c = Some r" "\<not> closed c" by auto
  obtain b1 e1 r1 where r1: "rd n r = (b1, e1, r1)" by (metis prod_cases3)
  have eof: "e1 = Some EOF \<Longrightarrow> contents r1 = []" using rd_eof r1 by blast
  show ?thesis
    using assms r r1 rd_front [OF r1] rd_bound [OF r1] eof
      read_loop_contents [of n "ws_in c" "c\<lparr>reader := None\<rparr>"]
    by (auto simp: WS_Read_def isClosed_def read_reader_def ws_contents_def split: if_splits)
qed

end

sublocale message_source \<subseteq> ws: byte_source "WS_Read rd" "ws_contents contents"
  by unfold_locales (simp_all add: WS_Read_contents)

text \<open>A message reader over the bytes of one message, as the WebSocket library documents it.\<close>

definition msg_read :: "nat \<Rightarrow> bytes \<Rightarrow> bytes \<times> go_error option \<times> bytes" where
  "msg_read n r = (if r = [] then ([], Some EOF, []) else (take n r, None, drop n r))"

interpretation msg: message_source msg_read "\<lambda>r. r"
  by unfold_locales (auto simp: msg_read_def split: if_splits)

section \<open>Runs\<close>

text \<open>
  One operation of any goroutine that shares the connection: the multiplexer's writes and reads,
  the timer, a close. A run is an interleaving of them.
\<close>

datatype ws_op = OpWrite bytes | OpTimer | OpClose | OpRead nat

fun ws_do :: "(nat \<Rightarrow> 'r \<Rightarrow> bytes \<times> go_error option \<times> 'r) \<Rightarrow> ws_op \<Rightarrow> 'r wsconn \<Rightarrow> 'r wsconn" where
  "ws_do rread (OpWrite p) c = snd (WS_Write p c)"
| "ws_do rread OpTimer c = timer_fired c"
| "ws_do rread OpClose c = snd (WS_Close c)"
| "ws_do rread (OpRead n) c = snd (snd (WS_Read rread n c))"

definition ws_run :: "(nat \<Rightarrow> 'r \<Rightarrow> bytes \<times> go_error option \<times> 'r) \<Rightarrow> ws_op list \<Rightarrow> 'r wsconn \<Rightarrow> 'r wsconn" where
  "ws_run rread ops c = foldl (\<lambda>c op. ws_do rread op c) c ops"

lemma timer_fired_inv:
  assumes "ws_inv c"
  shows "ws_inv (timer_fired c) \<and> closed (timer_fired c) = closed c
    \<and> (closed c \<longrightarrow> ws_sent (timer_fired c) = ws_sent c)"
proof -
  let ?c1 = "c\<lparr>timer := False\<rparr>"
  obtain err c2 where fl: "flushLocked ?c1 = (err, c2)" by fastforce
  then have t: "timer_fired c = c2" by (simp add: timer_fired_def)
  have q: "upSize ?c1 = int (length (concat (upQueue ?c1)))" "[] \<notin> set (upQueue ?c1)"
    using assms by (auto simp: ws_inv_def)
  from fl q show ?thesis
    by (cases rule: flushLocked_cases)
       (use t assms flushLocked_frame [OF fl] in \<open>auto simp: ws_inv_def\<close>)
qed

lemma ws_do_inv:
  assumes "ws_inv c"
  shows "ws_inv (ws_do rread op c)"
proof (cases op)
  case (OpWrite p)
  obtain r c' where "WS_Write p c = (r, c')" by fastforce
  with WS_Write_inv [OF assms this] OpWrite show ?thesis by simp
next
  case OpTimer
  with timer_fired_inv [OF assms] show ?thesis by simp
next
  case OpClose
  obtain r c' where "WS_Close c = (r, c')" by fastforce
  with WS_Close_inv [OF assms this] OpClose show ?thesis by simp
next
  case (OpRead n)
  obtain b e c' where "WS_Read rread n c = (b, e, c')" by (metis prod_cases3)
  with WS_Read_frame [OF this] assms OpRead show ?thesis by simp
qed

lemma ws_do_closed:
  assumes "closed c" "ws_inv c"
  shows "closed (ws_do rread op c) \<and> ws_sent (ws_do rread op c) = ws_sent c"
proof (cases op)
  case (OpWrite p)
  with assms show ?thesis by (simp add: WS_Write_def isClosed_def)
next
  case OpTimer
  with timer_fired_inv [OF assms(2)] assms(1) show ?thesis by simp
next
  case OpClose
  with assms show ?thesis by (simp add: WS_Close_again)
next
  case (OpRead n)
  with assms show ?thesis by (simp add: WS_Read_def isClosed_def)
qed

lemma ws_run_inv_from: "ws_inv c \<Longrightarrow> ws_inv (ws_run rread ops c)"
  by (induction ops arbitrary: c) (simp_all add: ws_run_def ws_do_inv)

lemma ws_run_closed:
  "closed c \<Longrightarrow> ws_inv c \<Longrightarrow> closed (ws_run rread ops c) \<and> ws_sent (ws_run rread ops c) = ws_sent c"
  by (induction ops arbitrary: c) (simp_all add: ws_run_def ws_do_inv ws_do_closed)

lemma NewWSNetConn_inv: "ws_inv (NewWSNetConn script inp in_end ce u ch m)"
  by (simp add: NewWSNetConn_def ws_inv_def Let_def)

lemma NewWSNetConn_empty [simp]:
  "ws_wire (NewWSNetConn script inp in_end ce u ch m) = []"
  "ws_pending (NewWSNetConn script inp in_end ce u ch m) = []"
  "ws_sent (NewWSNetConn script inp in_end ce u ch m) = []"
  by (simp_all add: NewWSNetConn_def ws_wire_def ws_pending_def Let_def)

section \<open>Properties\<close>

text \<open>
  C1: in every interleaving of writes, reads, timer callbacks and closes, whatever the WebSocket
  library answers, the connection keeps its bookkeeping: the byte counter is the size of the queue,
  less than the packing threshold and at most the queue limit is pending, anything pending has its
  timer armed, and the death channel is closed exactly when an error is recorded.
\<close>

theorem ws_run_invariant:
  "ws_inv (ws_run rread ops (NewWSNetConn script inp in_end ce u ch m))"
  by (rule ws_run_inv_from, rule NewWSNetConn_inv)

text \<open>
  When a sequence of writes on a fresh connection succeeds and the flush behind it does, the
  messages sent, joined, are exactly the bytes written, in order: batching, oversized writes that
  bypass the queue and timers change message boundaries and nothing else.
\<close>

theorem ws_upload_in_order:
  assumes "write_seq WS_Write bs (NewWSNetConn script inp in_end ce u ch m) = (Inr n, c1)"
    and "flushLocked c1 = (None, c2)"
  shows "concat (ws_sent c2) = concat bs \<and> n = length (concat bs) \<and> upQueue c2 = []"
  using upq.write_seq_flush [OF NewWSNetConn_inv assms] upq.write_seq_ok [OF NewWSNetConn_inv assms(1)]
    flushLocked_None [of c1 c2] assms(2)
  by (simp add: ws_wire_def)

theorem ws_upload_in_order_witness:
  "\<exists>c1 c2. write_seq WS_Write [[1, 2], [3, 4, 5], [6]]
       (NewWSNetConn [] ([] :: bytes ws_event list) EOF None 4 20 8) = (Inr 6, c1)
     \<and> flushLocked c1 = (None, c2) \<and> concat (ws_sent c2) = [1, 2, 3, 4, 5, 6]"
proof -
  let ?c = "NewWSNetConn [] ([] :: bytes ws_event list) EOF None 4 20 8"
  have w: "write_seq WS_Write [[1, 2], [3, 4, 5], [6]] ?c
      = (Inr 6, snd (write_seq WS_Write [[1, 2], [3, 4, 5], [6]] ?c))"
    by code_simp
  have f: "flushLocked (snd (write_seq WS_Write [[1, 2], [3, 4, 5], [6]] ?c))
      = (None, snd (flushLocked (snd (write_seq WS_Write [[1, 2], [3, 4, 5], [6]] ?c))))"
    by code_simp
  from ws_upload_in_order [OF w f] w f show ?thesis by auto
qed

text \<open>
  C40: one write never produces a message longer than the larger of the queue limit and the write
  itself, and what it leaves queued is below the packing threshold with a timer armed.
\<close>

theorem ws_write_bounds:
  assumes "ws_inv c" "WS_Write p c = (r, c')"
  shows "(\<forall>f \<in> set (ws_sent c'). f \<in> set (ws_sent c) \<or> int (length f) \<le> max (maxQueue c) (int (length p)))
    \<and> int (length (concat (upQueue c'))) < upPack c' \<and> (upQueue c' \<noteq> [] \<longrightarrow> timer c')"
  using WS_Write_inv [OF assms] by (auto simp: ws_inv_def)

theorem ws_write_bounds_witness:
  "int (length (concat (upQueue (snd (WS_Write [1, 2, 3]
      (NewWSNetConn [] ([] :: bytes ws_event list) EOF None 4 20 8)))))) < 4"
  using ws_write_bounds [OF NewWSNetConn_inv, of "[1, 2, 3]" "[]" "[] :: bytes ws_event list" EOF None 4 20 8
      "fst (WS_Write [1, 2, 3] (NewWSNetConn [] ([] :: bytes ws_event list) EOF None 4 20 8))"
      "snd (WS_Write [1, 2, 3] (NewWSNetConn [] ([] :: bytes ws_event list) EOF None 4 20 8))"]
  by (simp add: WS_Write_def Write_locked_def enqueue_def NewWSNetConn_def isClosed_def)

text \<open>
  Closing discards what is pending. \<^verbatim>\<open>Close\<close> sets the closed flag before it flushes, and the
  flush refuses to send on a closed connection, so whatever the WebSocket library would answer the
  bytes accepted by earlier writes are dropped, the reported death cause is \<^verbatim>\<open>net.ErrClosed\<close>, and
  no later operation sends anything.
\<close>

theorem ws_close_drops_pending:
  assumes "ws_inv c" "\<not> closed c" "upQueue c \<noteq> []" "deadErr c = None" "WS_Close c = (r, c')"
  shows "ws_sent (ws_run rread ops c') = ws_sent c \<and> upQueue c' = [] \<and> deadErr c' = Some NetErrClosed"
proof -
  let ?c1 = "c\<lparr>closed := True\<rparr>"
  obtain err c2 where fl: "flushLocked ?c1 = (err, c2)" by fastforce
  have q: "upSize ?c1 = int (length (concat (upQueue ?c1)))" "[] \<notin> set (upQueue ?c1)"
    using assms(1) by (auto simp: ws_inv_def)
  from fl q have "err = Some NetErrClosed" "c2 = ?c1\<lparr>timer := False, upQueue := [], upSize := 0\<rparr>"
    by (cases rule: flushLocked_cases; use assms(3) in simp)+
  with fl assms(2,4,5) have "upQueue c' = []" "deadErr c' = Some NetErrClosed"
    by (auto simp: WS_Close_def signalDead_def Let_def split: option.splits)
  with WS_Close_inv [OF assms(1,5)] ws_run_closed [of c'] show ?thesis by simp
qed

theorem ws_close_drops_pending_witness:
  "concat (ws_sent (ws_run msg_read [OpTimer] (snd (WS_Close (snd (WS_Write [1, 2, 3]
      (NewWSNetConn [] [] EOF None 4 20 8))))))) = []"
proof -
  let ?c = "snd (WS_Write [1, 2, 3] (NewWSNetConn [] ([] :: bytes ws_event list) EOF None 4 20 8))"
  have c: "?c = (NewWSNetConn [] ([] :: bytes ws_event list) EOF None 4 20 8)
      \<lparr>upQueue := [[1, 2, 3]], upSize := 3, timer := True\<rparr>"
    by (simp add: WS_Write_def Write_locked_def enqueue_def NewWSNetConn_def isClosed_def)
  have "ws_inv ?c" "\<not> closed ?c" "upQueue ?c \<noteq> []" "deadErr ?c = None" "ws_sent ?c = []"
    unfolding c by (simp_all add: NewWSNetConn_def ws_inv_def)
  with ws_close_drops_pending [of ?c "fst (WS_Close ?c)" "snd (WS_Close ?c)" msg_read "[OpTimer]"]
  show ?thesis by simp
qed

text \<open>
  Reading the connection reads the incoming binary messages as one byte stream. For any message
  reader that keeps the \<^verbatim>\<open>io.Reader\<close> contract, any sequence of reads returns, joined, a prefix of
  the joined binary messages, each read at most what its buffer holds, and what the connection still
  holds is the rest; text messages contribute nothing.
\<close>

theorem ws_download_in_order:
  assumes "\<And>n r b e r'. rread n r = (b, e, r') \<Longrightarrow>
      rc r = b @ rc r' \<and> length b \<le> n \<and> (e = Some EOF \<longrightarrow> rc r' = [])"
    and "read_calls (WS_Read rread) ns (NewWSNetConn script inp in_end ce u ch m) = (bs, c')"
  shows "concat (List.map (event_bytes rc) inp) = bs @ ws_contents rc c'"
proof -
  have ms: "message_source rread rc"
    using assms(1) by unfold_locales blast+
  have "byte_source (WS_Read rread) (ws_contents rc)"
    by (rule byte_source.intro; drule message_source.WS_Read_contents [OF ms]; simp)
  from byte_source.read_calls_front [OF this assms(2)] show ?thesis
    by (simp add: ws_contents_def NewWSNetConn_def Let_def)
qed

theorem ws_download_in_order_witness:
  "fst (read_calls (WS_Read msg_read) [2, 5, 5]
     (NewWSNetConn [] [WsMessage True [1, 2, 3], WsMessage False [9], WsMessage True [4]] EOF None 4 20 8))
   = [1, 2, 3, 4]"
proof -
  let ?inp = "[WsMessage True [1, 2, 3], WsMessage False [9], WsMessage True [4]]"
  let ?c = "NewWSNetConn [] ?inp EOF None 4 20 8"
  obtain bs c' where r: "read_calls (WS_Read msg_read) [2, 5, 5] ?c = (bs, c')" by fastforce
  have law: "msg_read n r = (b, e, r') \<Longrightarrow> r = b @ r' \<and> length b \<le> n \<and> (e = Some EOF \<longrightarrow> r' = [])"
    for n r b e r'
    by (auto simp: msg_read_def split: if_splits)
  have "concat (List.map (event_bytes (\<lambda>r. r)) ?inp) = bs @ ws_contents (\<lambda>r. r) c'"
    by (rule ws_download_in_order [OF law r])
  moreover have "ws_contents (\<lambda>r. r) (snd (read_calls (WS_Read msg_read) [2, 5, 5] ?c)) = []"
    by (simp add: NewWSNetConn_def WS_Read_def isClosed_def msg_read_def read_reader_def
        ws_contents_def signalDead_def)
  ultimately show ?thesis using r by simp
qed

end
