(* ===== verification/Tunnel.thy ===== *)
theory Tunnel
  imports WSConn
begin

text \<open>
  What a WebSocket connection promises the multiplexer, as an abstract pipe, and that \<^verbatim>\<open>wsconn.go\<close> refines it; then
  two connections back to back.

  A \<open>pipe\<close> is the bytes that have left, the bytes accepted and pending, and whether it is closed or has failed.
\<close>

record pipe =
  p_wire :: bytes
  p_pending :: bytes
  p_closed :: bool
  p_dead :: bool

definition pipe_empty :: pipe where
  "pipe_empty = \<lparr>p_wire = [], p_pending = [], p_closed = False, p_dead = False\<rparr>"

text \<open>
  The operations: a write is accepted, and any part of what is then pending may leave, in order; or it fails, and what
  is pending has left or is lost. The timer lets everything leave or loses it. A close loses what is pending. A
  read changes nothing unless it fails.
\<close>

inductive pipe_step :: "ws_op \<Rightarrow> pipe \<Rightarrow> pipe \<Rightarrow> bool" where
  pipe_refuses: "p_closed x \<Longrightarrow> pipe_step (OpWrite b) x x"
| pipe_accepts: "\<not> p_closed x \<Longrightarrow> p_pending x @ b = t @ q \<Longrightarrow>
    pipe_step (OpWrite b) x (x\<lparr>p_wire := p_wire x @ t, p_pending := q\<rparr>)"
| pipe_fails: "\<not> p_closed x \<Longrightarrow> t = [] \<or> t = p_pending x \<Longrightarrow>
    pipe_step (OpWrite b) x (x\<lparr>p_wire := p_wire x @ t, p_pending := [], p_dead := True\<rparr>)"
| pipe_drains: "\<not> p_closed x \<Longrightarrow>
    pipe_step OpTimer x (x\<lparr>p_wire := p_wire x @ p_pending x, p_pending := []\<rparr>)"
| pipe_timer_fails: "\<not> p_closed x \<Longrightarrow> pipe_step OpTimer x (x\<lparr>p_pending := [], p_dead := True\<rparr>)"
| pipe_timer_closed: "p_closed x \<Longrightarrow> pipe_step OpTimer x (x\<lparr>p_pending := []\<rparr>)"
| pipe_closes: "\<not> p_closed x \<Longrightarrow> pipe_step OpClose x (x\<lparr>p_pending := [], p_closed := True, p_dead := True\<rparr>)"
| pipe_closed: "p_closed x \<Longrightarrow> pipe_step OpClose x x"
| pipe_reads: "pipe_step (OpRead n) x (x\<lparr>p_dead := d \<or> p_dead x\<rparr>)"

inductive_cases pipe_stepE: "pipe_step op x y"

fun pipe_run :: "ws_op list \<Rightarrow> pipe \<Rightarrow> pipe \<Rightarrow> bool" where
  "pipe_run [] x y \<longleftrightarrow> x = y"
| "pipe_run (op # ops) x y \<longleftrightarrow> (\<exists>z. pipe_step op x z \<and> pipe_run ops z y)"

fun written :: "ws_op list \<Rightarrow> bytes list" where
  "written [] = []"
| "written (OpWrite b # ops) = b # written ops"
| "written (op # ops) = written ops"

text \<open>The specification's promise: a pipe that has not failed has all that was written, in order.\<close>

lemma pipe_alive_before: "pipe_step op x y \<Longrightarrow> \<not> p_dead y \<Longrightarrow> \<not> p_dead x"
  by (auto elim: pipe_stepE)

lemma pipe_run_alive:
  "pipe_run ops x y \<Longrightarrow> \<not> p_dead y \<Longrightarrow> (p_closed x \<longrightarrow> p_dead x) \<Longrightarrow>
     \<not> p_dead x \<and> p_wire y @ p_pending y = p_wire x @ p_pending x @ concat (written ops)"
proof (induction ops arbitrary: x)
  case Nil
  then show ?case by simp
next
  case (Cons op ops)
  then obtain z where z: "pipe_step op x z" "pipe_run ops z y" by auto
  have "p_closed z \<longrightarrow> p_dead z" using z(1) Cons.prems(3) by (auto elim: pipe_stepE)
  with Cons.IH [OF z(2) Cons.prems(2)]
  have IH: "\<not> p_dead z" "p_wire y @ p_pending y = p_wire z @ p_pending z @ concat (written ops)" by auto
  from z(1) IH Cons.prems(3) show ?case
    by cases auto
qed

section \<open>Refinement\<close>

definition ws_pipe :: "'r wsconn \<Rightarrow> pipe" where
  "ws_pipe c = \<lparr>p_wire = ws_wire c, p_pending = ws_pending c, p_closed = closed c, p_dead = deadCh c\<rparr>"

text \<open>
  What a result says about the connection: success leaves the death signal alone and only lengthens the wire;
  an error sets it and empties the queue, and what was pending has left or not.
\<close>

definition write_outcome :: "'a res \<Rightarrow> 'r wsconn \<Rightarrow> 'r wsconn \<Rightarrow> bool" where
  "write_outcome r c c' \<longleftrightarrow> (case r of
     Inr n \<Rightarrow> deadCh c' = deadCh c \<and> (\<exists>t. ws_wire c' = ws_wire c @ t)
   | Inl e \<Rightarrow> deadCh c' \<and> ws_pending c' = [] \<and> (ws_wire c' = ws_wire c \<or> ws_wire c' = ws_wire c @ ws_pending c))"

lemma flushLocked_outcome:
  assumes "flushLocked c = (err, c')" "upSize c = int (length (concat (upQueue c)))" "[] \<notin> set (upQueue c)" "\<not> closed c"
  shows "(err = None \<longrightarrow> deadCh c' = deadCh c \<and> ws_wire c' = ws_wire c @ ws_pending c \<and> ws_pending c' = [])
    \<and> (err \<noteq> None \<longrightarrow> deadCh c' \<and> ws_wire c' = ws_wire c \<and> ws_pending c' = [])"
  using assms(1-3)
  by (cases rule: flushLocked_cases) (use assms(4) in \<open>auto simp: ws_wire_def ws_pending_def\<close>)

lemma enqueue_outcome:
  assumes "ws_inv c" "\<not> closed c" "p \<noteq> []" "enqueue p c = (r, c')"
  shows "write_outcome r c c'"
proof -
  let ?c1 = "c\<lparr>upQueue := upQueue c @ [p], upSize := upSize c + int (length p)\<rparr>"
  have q: "upSize ?c1 = int (length (concat (upQueue ?c1)))" "[] \<notin> set (upQueue ?c1)" "\<not> closed ?c1"
    using assms(1-3) by (auto simp: ws_inv_def)
  obtain err c2 where fl: "flushLocked ?c1 = (err, c2)" by fastforce
  from flushLocked_outcome [OF fl q] assms(4) fl show ?thesis
    by (auto simp: enqueue_def write_outcome_def Let_def ws_wire_def ws_pending_def split: if_splits option.splits)
qed

lemma Write_locked_outcome:
  assumes "ws_inv c" "\<not> closed c" "p \<noteq> []" "Write_locked p c = (r, c')"
  shows "write_outcome r c c'"
proof (cases "upSize c + int (length p) > maxQueue c")
  case False
  with assms have "enqueue p c = (r, c')" by (simp add: Write_locked_def)
  with assms(1-3) show ?thesis by (rule enqueue_outcome)
next
  case True
  obtain err c1 where fl: "flushLocked c = (err, c1)" by fastforce
  have q: "upSize c = int (length (concat (upQueue c)))" "[] \<notin> set (upQueue c)" using assms(1) by (auto simp: ws_inv_def)
  note o1 = flushLocked_outcome [OF fl q assms(2)] and inv1 = flushLocked_inv [OF assms(1) fl]
  show ?thesis
  proof (cases err)
    case (Some e)
    with True fl assms(4) o1 show ?thesis by (auto simp: Write_locked_def write_outcome_def)
  next
    case None
    then consider "writeDirect p c1 = (r, c')" | "enqueue p c1 = (r, c')"
      using True fl assms(4) by (auto simp: Write_locked_def split: if_splits)
    then show ?thesis
    proof cases
      case 1
      obtain n err' where send: "ws_send p c1 = (n, err', c')"
          and r: "r = (case err' of None \<Rightarrow> Inr n | Some e \<Rightarrow> Inl e)"
        using 1 by (auto simp: writeDirect_def split: prod.splits option.splits)
      from send show ?thesis
        by (cases rule: ws_send_cases)
           (use r o1 None ws_send_frame [OF send] in \<open>auto simp: write_outcome_def ws_wire_def ws_pending_def\<close>)
    next
      case 2
      from flushLocked_frame [OF fl] assms(2) have "\<not> closed c1" by simp
      from enqueue_outcome [OF inv1 this assms(3) 2] o1 None show ?thesis
        by (auto simp: write_outcome_def split: sum.splits)
    qed
  qed
qed

lemma WS_Write_refines:
  assumes "ws_inv c" "WS_Write p c = (r, c')"
  shows "pipe_step (OpWrite p) (ws_pipe c) (ws_pipe c')"
proof -
  consider "closed c" | "\<not> closed c" "p = []" | "\<not> closed c" "p \<noteq> []" by blast
  then show ?thesis
  proof cases
    case 1
    with assms(2) pipe_refuses [of "ws_pipe c" p] show ?thesis by (simp add: WS_Write_def isClosed_def ws_pipe_def)
  next
    case 2
    with assms(2) pipe_accepts [of "ws_pipe c" "[]" "[]" "ws_pending c"] show ?thesis
      by (simp add: WS_Write_def isClosed_def ws_pipe_def)
  next
    case 3
    with assms(2) have w: "Write_locked p c = (r, c')" by (simp add: WS_Write_def isClosed_def)
    note inv = WS_Write_inv [OF assms] and out = Write_locked_outcome [OF assms(1) 3 w]
    show ?thesis
    proof (cases r)
      case (Inr n)
      with out obtain t where t: "ws_wire c' = ws_wire c @ t" "deadCh c' = deadCh c" by (auto simp: write_outcome_def)
      with inv Inr have "ws_pending c @ p = t @ ws_pending c'" by simp
      with pipe_accepts [of "ws_pipe c" p t "ws_pending c'"] 3 t inv show ?thesis by (simp add: ws_pipe_def)
    next
      case (Inl e)
      with out obtain t where "t = [] \<or> t = ws_pending c" "ws_wire c' = ws_wire c @ t" "deadCh c'" "ws_pending c' = []"
        by (auto simp: write_outcome_def)
      with pipe_fails [of "ws_pipe c" t p] 3 inv show ?thesis by (simp add: ws_pipe_def)
    qed
  qed
qed

lemma timer_fired_refines:
  assumes "ws_inv c"
  shows "pipe_step OpTimer (ws_pipe c) (ws_pipe (timer_fired c))"
proof -
  let ?c1 = "c\<lparr>timer := False\<rparr>"
  obtain err c2 where fl: "flushLocked ?c1 = (err, c2)" by fastforce
  have q: "upSize ?c1 = int (length (concat (upQueue ?c1)))" "[] \<notin> set (upQueue ?c1)"
    using assms by (auto simp: ws_inv_def)
  have p: "ws_pipe ?c1 = ws_pipe c" by (simp add: ws_pipe_def ws_wire_def ws_pending_def)
  show ?thesis
  proof (cases "closed c")
    case True
    have "ws_pipe c2 = (ws_pipe c)\<lparr>p_pending := []\<rparr>"
      using fl q by (cases rule: flushLocked_cases) (use True in \<open>auto simp: ws_pipe_def ws_wire_def ws_pending_def\<close>)
    with pipe_timer_closed [of "ws_pipe c"] True fl show ?thesis by (simp add: timer_fired_def ws_pipe_def)
  next
    case False
    with flushLocked_outcome [OF fl q] flushLocked_frame [OF fl] p
      pipe_drains [of "ws_pipe c"] pipe_timer_fails [of "ws_pipe c"] fl
    show ?thesis by (cases err) (simp_all add: timer_fired_def ws_pipe_def)
  qed
qed

lemma WS_Close_refines:
  assumes "ws_inv c"
  shows "pipe_step OpClose (ws_pipe c) (ws_pipe (snd (WS_Close c)))"
proof (cases "closed c")
  case True
  with pipe_closed [of "ws_pipe c"] show ?thesis by (simp add: WS_Close_again ws_pipe_def)
next
  case False
  let ?c1 = "c\<lparr>closed := True\<rparr>"
  obtain err c2 where fl: "flushLocked ?c1 = (err, c2)" by fastforce
  have q: "upSize ?c1 = int (length (concat (upQueue ?c1)))" "[] \<notin> set (upQueue ?c1)"
    using assms by (auto simp: ws_inv_def)
  from fl q have "ws_wire c2 = ws_wire c" "ws_pending c2 = []" "closed c2"
    by (cases rule: flushLocked_cases; simp add: ws_wire_def ws_pending_def)+
  then have "ws_pipe (snd (WS_Close c)) = (ws_pipe c)\<lparr>p_pending := [], p_closed := True, p_dead := True\<rparr>"
    using False fl by (auto simp: WS_Close_def Let_def ws_pipe_def ws_wire_def ws_pending_def split: option.splits)
  with pipe_closes [of "ws_pipe c"] False show ?thesis by (simp add: ws_pipe_def)
qed

lemma read_loop_queue: "read_loop rread n es c = (b, e, c') \<Longrightarrow> upQueue c' = upQueue c \<and> (deadCh c \<longrightarrow> deadCh c')"
proof (induction es arbitrary: c)
  case Nil
  then show ?case by auto
next
  case (Cons ev es)
  show ?case
  proof (cases ev)
    case (WsMessage binary r)
    obtain b1 e1 r1 where "rread n r = (b1, e1, r1)" by (metis prod_cases3)
    with Cons.IH [of c] Cons.IH [of "c\<lparr>reader := None\<rparr>"] Cons.prems WsMessage show ?thesis
      by (auto split: if_splits)
  next
    case (WsFail e')
    with Cons.prems show ?thesis by auto
  qed
qed

lemma WS_Read_refines:
  assumes "WS_Read rread n c = (b, e, c')"
  shows "pipe_step (OpRead n) (ws_pipe c) (ws_pipe c')"
proof -
  have "upQueue c' = upQueue c \<and> (deadCh c \<longrightarrow> deadCh c')"
  proof (cases "reader c")
    case None
    with assms read_loop_queue [of rread n "ws_in c" c] show ?thesis by (auto simp: WS_Read_def split: if_splits)
  next
    case (Some r)
    obtain b1 e1 r1 where "rread n r = (b1, e1, r1)" by (metis prod_cases3)
    with Some assms read_loop_queue [of rread n "ws_in c" "c\<lparr>reader := None\<rparr>"] show ?thesis
      by (auto simp: WS_Read_def read_reader_def split: if_splits)
  qed
  with WS_Read_frame [OF assms] have "ws_pipe c' = (ws_pipe c)\<lparr>p_dead := deadCh c' \<or> p_dead (ws_pipe c)\<rparr>"
    by (auto simp: ws_pipe_def ws_wire_def ws_pending_def)
  then show ?thesis using pipe_reads by metis
qed

lemma ws_do_refines: "ws_inv c \<Longrightarrow> pipe_step op (ws_pipe c) (ws_pipe (ws_do rread op c))"
proof (cases op)
  case (OpWrite p)
  assume "ws_inv c"
  from WS_Write_refines [OF this prod.collapse [symmetric]] OpWrite show ?thesis by simp
next
  case (OpRead n)
  from WS_Read_refines [of rread n c "fst (WS_Read rread n c)" "fst (snd (WS_Read rread n c))"] OpRead
  show ?thesis by simp
qed (use timer_fired_refines WS_Close_refines in \<open>auto\<close>)

lemma ws_run_refines: "ws_inv c \<Longrightarrow> pipe_run ops (ws_pipe c) (ws_pipe (ws_run rread ops c))"
proof (induction ops arbitrary: c)
  case (Cons op ops)
  from Cons.IH [OF ws_do_inv [OF Cons.prems, of rread op]] ws_do_refines [OF Cons.prems, of op rread] show ?case
    by (auto simp: ws_run_def)
qed (simp add: ws_run_def)

lemma ws_pipe_new: "ws_pipe (NewWSNetConn script inp in_end ce u ch m) = pipe_empty"
  by (simp add: ws_pipe_def pipe_empty_def) (simp add: NewWSNetConn_def Let_def)

lemma ws_alive:
  assumes "c = ws_run rread ops (NewWSNetConn script inp in_end ce u ch m)" "\<not> Dead c"
  shows "ws_wire c @ ws_pending c = concat (written ops)"
  using pipe_run_alive [OF ws_run_refines [OF NewWSNetConn_inv, of ops script inp in_end ce u ch m rread]] assms
  unfolding ws_pipe_new by (simp add: pipe_empty_def ws_pipe_def Dead_def)

section \<open>Properties\<close>

text \<open>
  C2: the connection refines a pipe. Every run of writes, timer callbacks, closes and reads, in any interleaving
  and whatever the WebSocket library answers, is a run of the abstract pipe with the same
  operations; and as long as the connection does not report its death, the messages sent, joined, and the queue behind
  them are exactly all the bytes written, in order.
\<close>

theorem ws_refines_pipe:
  "let c = ws_run rread ops (NewWSNetConn script inp in_end ce u ch m)
   in pipe_run ops pipe_empty (ws_pipe c)
    \<and> (\<not> Dead c \<longrightarrow> concat (ws_sent c) @ concat (upQueue c) = concat (written ops))"
  using ws_run_refines [OF NewWSNetConn_inv, of ops script inp in_end ce u ch m rread] ws_alive [OF refl, of rread ops script inp in_end ce u ch m]
  by (simp add: Let_def ws_pipe_new ws_wire_def ws_pending_def)

theorem ws_refines_pipe_witness:
  "concat (ws_sent (ws_run msg_read [OpWrite [1, 2], OpTimer, OpRead 3, OpWrite [3]]
     (NewWSNetConn [] [WsMessage True [9]] EOF None 4 20 8))) = [1, 2]"
proof -
  let ?c = "ws_run msg_read [OpWrite [1, 2], OpTimer, OpRead 3, OpWrite [3]]
     (NewWSNetConn [] [WsMessage True [9 :: byte]] EOF None 4 20 8)"
  have "\<not> Dead ?c" "upQueue ?c = [[3]]" by code_simp+
  with ws_refines_pipe [of msg_read "[OpWrite [1, 2], OpTimer, OpRead 3, OpWrite [3]]" "[]" "[WsMessage True [9]]" EOF None 4 20 8] show ?thesis by (simp add: Let_def)
qed

text \<open>
  C3: the tunnel end to end. Let one end write, flush and read in any interleaving without reporting its death, and
  let the WebSocket deliver its messages to the other end, each by a reader of its bytes. Then what any sequence of reads at the other end
  returns, what it still holds, and what is pending at the first end are together exactly the bytes written, in order.
\<close>

theorem ws_tunnel_end_to_end:
  assumes "c = ws_run rread ops (NewWSNetConn script inp in_end ce u ch m)" "\<not> Dead c"
    and "\<And>n r b e r'. rread2 n r = (b, e, r') \<Longrightarrow> rc r = b @ rc r' \<and> length b \<le> n \<and> (e = Some EOF \<longrightarrow> rc r' = [])"
    and "\<And>f. rc (deliver f) = f"
    and "read_calls (WS_Read rread2) ns
      (NewWSNetConn script2 (List.map (\<lambda>f. WsMessage True (deliver f)) (ws_sent c)) in_end2 ce2 u2 ch2 m2) = (rs, d)"
  shows "rs @ ws_contents rc d @ ws_pending c = concat (written ops)"
proof -
  have "message_source rread2 rc" using assms(3) by unfold_locales blast+
  then have "byte_source (WS_Read rread2) (ws_contents rc)"
    by (intro byte_source.intro; drule message_source.WS_Read_contents) simp_all
  from byte_source.read_calls_front [OF this assms(5)] have "ws_wire c = rs @ ws_contents rc d"
    by (simp add: ws_contents_def NewWSNetConn_def Let_def comp_def assms(4) ws_wire_def)
  with ws_alive [OF assms(1,2)] show ?thesis by simp
qed

theorem ws_tunnel_end_to_end_witness:
  "let c = ws_run msg_read [OpWrite [1, 2], OpWrite [3, 4, 5], OpTimer, OpWrite [6]] (NewWSNetConn [] [] EOF None 4 20 8);
     r = read_calls (WS_Read msg_read) [1, 9, 9] (NewWSNetConn [] (List.map (WsMessage True) (ws_sent c)) EOF None 4 20 8)
   in fst r @ ws_contents (\<lambda>b. b) (snd r) @ ws_pending c = [1, 2, 3, 4, 5, 6]"
proof -
  let ?c = "ws_run msg_read [OpWrite [1, 2], OpWrite [3, 4, 5], OpTimer, OpWrite [6]]
      (NewWSNetConn [] ([] :: bytes ws_event list) EOF None 4 20 8)"
  have alive: "\<not> Dead ?c" by code_simp
  have law: "msg_read n r = (b, e, r') \<Longrightarrow> r = b @ r' \<and> length b \<le> n \<and> (e = Some EOF \<longrightarrow> r' = [])" for n r b e r'
    by (auto simp: msg_read_def split: if_splits)
  obtain rs d where r: "read_calls (WS_Read msg_read) [1, 9, 9]
      (NewWSNetConn [] (List.map (\<lambda>f. WsMessage True f) (ws_sent ?c)) EOF None 4 20 8) = (rs, d)" by fastforce
  from ws_tunnel_end_to_end [where deliver = "\<lambda>f. f", OF refl alive law refl r] r
  show ?thesis by (simp add: Let_def)
qed

end
