(* ===== verification/DnAgg.thy ===== *)
theory DnAgg
  imports SendQueue Lifecycle GoIO
begin

text \<open>
  The download aggregator, \<^verbatim>\<open>internal/transport/dnagg.go\<close>: writes are queued and a goroutine of
  its own (the flusher) sends them packed on a stream.

  \<^verbatim>\<open>dnagg\<close> is the shared state, \<^verbatim>\<open>dn_sys\<close> adds where the flusher and the writer stand, and
  \<^verbatim>\<open>dn_step\<close> is their interleaving: the sections under \<^verbatim>\<open>a.mu\<close> are atomic, what happens outside
  the lock (the write on the stream, the direct write, the steps of \<^verbatim>\<open>Close\<close>) are steps of their
  own. \<^verbatim>\<open>Write\<close> calls a method \<^verbatim>\<open>flushLocked\<close> that the package does not define; it is the
  argument \<open>fl\<close> of the definitions that use it.
\<close>

record dnagg =
  dn_stream :: stream
  dn_queue :: "bytes list"
  dn_total :: int
  dn_pack :: int
  dn_tail :: int
  dn_qr :: int
  dn_closed :: bool
  dn_stopped :: bool
  dn_maxQueue :: int
  dn_chunkMs :: int

definition NewDnAggregator :: "stream \<Rightarrow> int \<Rightarrow> int \<Rightarrow> int \<Rightarrow> int \<Rightarrow> dnagg" where
  "NewDnAggregator strm pack0 tail0 qr0 max0 =
    (let pack1 = (if pack0 \<le> 0 then 32768 else pack0);
         tail1 = (if tail0 \<le> 0 then 512 else tail0);
         qr1 = (if qr0 \<le> 0 then 4 else qr0);
         max1 = (if max0 \<le> 0 then pack1 * 4 else max0)
     in \<lparr>dn_stream = strm, dn_queue = [], dn_total = 0, dn_pack = pack1, dn_tail = tail1,
         dn_qr = qr1, dn_closed = False, dn_stopped = False, dn_maxQueue = max1, dn_chunkMs = 20\<rparr>)"

section \<open>Writing\<close>

definition dn_writeDirect :: "bytes \<Rightarrow> dnagg \<Rightarrow> nat res \<times> dnagg" where
  "dn_writeDirect p a = (case Write p (dn_stream a) of
     (Inl e, st) \<Rightarrow> (Inl e, a\<lparr>dn_stream := st, dn_closed := True\<rparr>)
   | (Inr _, st) \<Rightarrow> (Inr (length p), a\<lparr>dn_stream := st\<rparr>))"

text \<open>
  The locked section of \<^verbatim>\<open>Write\<close> ends with a result, or leaves the lock to write directly; the
  flag says whether the condition is signalled afterwards.
\<close>

datatype dn_outcome = DnReturn "nat res" | DnDirect bytes

definition dn_enqueue :: "bytes \<Rightarrow> dnagg \<Rightarrow> dn_outcome \<times> bool \<times> dnagg" where
  "dn_enqueue data a =
    (let a1 = a\<lparr>dn_queue := dn_queue a @ [data], dn_total := dn_total a + int (length data)\<rparr>;
         shouldSignal = (dn_total a1 \<ge> dn_pack a1 \<or> int (length (dn_queue a1)) \<ge> dn_qr a1)
     in (DnReturn (Inr (length data)), shouldSignal, a1))"

definition dn_Write_locked ::
  "(dnagg \<Rightarrow> go_error option \<times> dnagg) \<Rightarrow> bytes \<Rightarrow> dnagg \<Rightarrow> dn_outcome \<times> bool \<times> dnagg"
where
  "dn_Write_locked fl data a =
    (if dn_closed a then (DnReturn (Inl ErrClosedPipe), False, a)
     else if dn_total a + int (length data) > dn_maxQueue a then
       (case fl a of
          (Some e, a1) \<Rightarrow> (DnReturn (Inl e), False, a1)
        | (None, a1) \<Rightarrow>
            if int (length data) \<ge> dn_pack a1 then (DnDirect data, False, a1)
            else if int (length data) > dn_maxQueue a1 then (DnDirect data, False, a1)
            else dn_enqueue data a1)
     else dn_enqueue data a)"

text \<open>\<^verbatim>\<open>Write\<close> when no other goroutine takes a step in between.\<close>

definition dn_Write ::
  "(dnagg \<Rightarrow> go_error option \<times> dnagg) \<Rightarrow> bytes \<Rightarrow> dnagg \<Rightarrow> nat res \<times> dnagg"
where
  "dn_Write fl data a =
    (if length data = 0 then (Inr 0, a)
     else case dn_Write_locked fl data a of
       (DnReturn r, _, a1) \<Rightarrow> (r, a1)
     | (DnDirect p, _, a1) \<Rightarrow> dn_writeDirect p a1)"

definition copyQueueLocked :: "dnagg \<Rightarrow> bytes list" where
  "copyQueueLocked a = (if dn_total a = 0 then [] else dn_queue a)"

text \<open>
  \<^verbatim>\<open>writeQueue\<close> in its two steps: the write on the stream without the lock, and the locked end,
  which clears the queue whatever it holds by then.
\<close>

definition writeQueue_write :: "bytes list \<Rightarrow> dnagg \<Rightarrow> go_error option \<times> dnagg" where
  "writeQueue_write q a =
    (let totalSize = sum_list (List.map length q);
         buf = copy_chunks (replicate totalSize 0) 0 q
     in case Write buf (dn_stream a) of
          (Inl e, st) \<Rightarrow> (Some e, a\<lparr>dn_stream := st\<rparr>)
        | (Inr _, st) \<Rightarrow> (None, a\<lparr>dn_stream := st\<rparr>))"

definition writeQueue_clear :: "go_error option \<Rightarrow> dnagg \<Rightarrow> dnagg" where
  "writeQueue_clear err a =
    a\<lparr>dn_closed := (dn_closed a \<or> err \<noteq> None), dn_queue := [], dn_total := 0\<rparr>"

text \<open>A flush that nothing interrupts.\<close>

definition dn_flush :: "dnagg \<Rightarrow> go_error option \<times> dnagg" where
  "dn_flush a = (let q = copyQueueLocked a
     in if length q = 0 then (None, a)
        else case writeQueue_write q a of (err, a1) \<Rightarrow> (err, writeQueue_clear err a1))"

text \<open>The part of \<^verbatim>\<open>Close\<close> before it waits for the flusher; the signal is in \<^verbatim>\<open>dn_step\<close>.\<close>

definition dn_Close :: "dnagg \<Rightarrow> dnagg" where
  "dn_Close a = (if dn_closed a then a else a\<lparr>dn_closed := True, dn_stopped := True\<rparr>)"

section \<open>The flusher\<close>

text \<open>
  Where the flusher stands: before the lock at the head of its loop; holding the lock, about to
  wait on the condition; waiting; about to write a copied queue; about to clear the queue; in the
  \<^verbatim>\<open>select\<close>; returned. A \<^verbatim>\<open>fcont\<close> is what follows a \<^verbatim>\<open>writeQueue\<close>.
\<close>

datatype fcont = ResetAndLoop | Loop | Return

datatype fpc = FTop | FAboutToWait | FWait | FWrite "bytes list" fcont
  | FClear "go_error option" fcont | FSelect | FDone

record dn_sys =
  agg :: dnagg
  fl_pc :: fpc
  fl_timer :: bool
  fl_qr :: int
  wr_pc :: "bytes option"

definition dn_start :: "dnagg \<Rightarrow> dn_sys" where
  "dn_start a = \<lparr>agg = a, fl_pc = FTop, fl_timer = False, fl_qr = 0, wr_pc = None\<rparr>"

definition fl_low :: "dnagg \<Rightarrow> int" where
  "fl_low a = (if dn_tail a * 12 < 4096 then 4096 else dn_tail a * 12)"

definition fl_continue :: "fcont \<Rightarrow> dn_sys \<Rightarrow> dn_sys" where
  "fl_continue k s = (case k of
     ResetAndLoop \<Rightarrow> s\<lparr>fl_qr := 0, fl_pc := FTop\<rparr>
   | Loop \<Rightarrow> s\<lparr>fl_pc := FTop\<rparr>
   | Return \<Rightarrow> s\<lparr>fl_pc := FDone\<rparr>)"

text \<open>The locked section at the head of the loop.\<close>

definition fl_top :: "dn_sys \<Rightarrow> dn_sys" where
  "fl_top s = (let a = agg s in
     if \<not> dn_closed a \<and> dn_queue a = [] then s\<lparr>fl_pc := FAboutToWait\<rparr>
     else if dn_closed a \<and> dn_queue a = [] then s\<lparr>fl_pc := FDone\<rparr>
     else if dn_total a \<ge> dn_pack a \<or> int (length (dn_queue a)) \<ge> dn_qr a then
       s\<lparr>fl_pc := FWrite (copyQueueLocked a) ResetAndLoop\<rparr>
     else if dn_pack a - dn_total a < dn_tail a then
       s\<lparr>fl_pc := FWrite (copyQueueLocked a) ResetAndLoop\<rparr>
     else if \<not> fl_timer s then s\<lparr>fl_timer := True, fl_qr := 0, fl_pc := FSelect\<rparr>
     else s\<lparr>fl_pc := FSelect\<rparr>)"

text \<open>The two cases of the \<^verbatim>\<open>select\<close>, up to the end of their locked sections.\<close>

definition fl_timer_case :: "dn_sys \<Rightarrow> dn_sys" where
  "fl_timer_case s0 = (let s = s0\<lparr>fl_timer := False\<rparr>; a = agg s in
     if dn_closed a then
       (if length (dn_queue a) > 0 then s\<lparr>fl_pc := FWrite (copyQueueLocked a) Loop\<rparr>
        else s\<lparr>fl_pc := FTop\<rparr>)
     else if length (dn_queue a) = 0 then s\<lparr>fl_pc := FTop\<rparr>
     else if dn_total a \<ge> dn_pack a \<or> int (length (dn_queue a)) \<ge> dn_qr a then
       s\<lparr>fl_pc := FWrite (copyQueueLocked a) ResetAndLoop\<rparr>
     else if dn_total a \<ge> fl_low a \<or> fl_qr s \<ge> dn_qr a then
       s\<lparr>fl_pc := FWrite (copyQueueLocked a) ResetAndLoop\<rparr>
     else let s1 = s\<lparr>fl_qr := fl_qr s + 1\<rparr> in
       if fl_qr s1 < dn_qr a then s1\<lparr>fl_pc := FTop\<rparr>
       else s1\<lparr>fl_pc := FWrite (copyQueueLocked a) ResetAndLoop\<rparr>)"

definition fl_stop_case :: "dn_sys \<Rightarrow> dn_sys" where
  "fl_stop_case s0 = (let s = s0\<lparr>fl_timer := False\<rparr>; a = agg s in
     if length (dn_queue a) > 0 then s\<lparr>fl_pc := FWrite (copyQueueLocked a) Return\<rparr>
     else s\<lparr>fl_pc := FDone\<rparr>)"

definition fl_write :: "bytes list \<Rightarrow> fcont \<Rightarrow> dn_sys \<Rightarrow> dn_sys" where
  "fl_write q k s =
    (if length q = 0 then fl_continue k s
     else case writeQueue_write q (agg s) of (err, a) \<Rightarrow> s\<lparr>agg := a, fl_pc := FClear err k\<rparr>)"

definition fl_clear :: "go_error option \<Rightarrow> fcont \<Rightarrow> dn_sys \<Rightarrow> dn_sys" where
  "fl_clear err k s = fl_continue k (s\<lparr>agg := writeQueue_clear err (agg s)\<rparr>)"

definition dn_signal :: "dn_sys \<Rightarrow> dn_sys" where
  "dn_signal s = (if fl_pc s = FWait then s\<lparr>fl_pc := FTop\<rparr> else s)"

text \<open>The flusher's steps.\<close>

inductive fl_step :: "dn_sys \<Rightarrow> dn_sys \<Rightarrow> bool" where
  fl_at_top: "fl_pc s = FTop \<Longrightarrow> fl_step s (fl_top s)"
| fl_at_wait: "fl_pc s = FAboutToWait \<Longrightarrow> fl_step s (s\<lparr>fl_pc := FWait\<rparr>)"
| fl_at_write: "fl_pc s = FWrite q k \<Longrightarrow> fl_step s (fl_write q k s)"
| fl_at_clear: "fl_pc s = FClear err k \<Longrightarrow> fl_step s (fl_clear err k s)"
| fl_at_timer: "fl_pc s = FSelect \<Longrightarrow> fl_step s (fl_timer_case s)"
| fl_at_stop: "fl_pc s = FSelect \<Longrightarrow> dn_stopped (agg s) \<Longrightarrow> fl_step s (fl_stop_case s)"

text \<open>
  The whole system. The writer needs the lock, which the flusher holds when about to wait;
  \<^verbatim>\<open>Close\<close> does not take it.
\<close>

inductive dn_step :: "(dnagg \<Rightarrow> go_error option \<times> dnagg) \<Rightarrow> dn_sys \<Rightarrow> dn_sys \<Rightarrow> bool"
  for fl where
  flusher: "fl_step s s' \<Longrightarrow> dn_step fl s s'"
| write_returns: "wr_pc s = None \<Longrightarrow> fl_pc s \<noteq> FAboutToWait \<Longrightarrow> data \<noteq> [] \<Longrightarrow>
    dn_Write_locked fl data (agg s) = (DnReturn r, sig, a) \<Longrightarrow>
    dn_step fl s (if sig then dn_signal (s\<lparr>agg := a\<rparr>) else s\<lparr>agg := a\<rparr>)"
| write_leaves: "wr_pc s = None \<Longrightarrow> fl_pc s \<noteq> FAboutToWait \<Longrightarrow> data \<noteq> [] \<Longrightarrow>
    dn_Write_locked fl data (agg s) = (DnDirect p, sig, a) \<Longrightarrow>
    dn_step fl s (s\<lparr>agg := a, wr_pc := Some p\<rparr>)"
| write_direct: "wr_pc s = Some p \<Longrightarrow>
    dn_step fl s (s\<lparr>agg := snd (dn_writeDirect p (agg s)), wr_pc := None\<rparr>)"
| close: "\<not> dn_closed (agg s) \<Longrightarrow> dn_step fl s (dn_signal (s\<lparr>agg := dn_Close (agg s)\<rparr>))"

inductive dn_reach :: "(dnagg \<Rightarrow> go_error option \<times> dnagg) \<Rightarrow> dnagg \<Rightarrow> dn_sys \<Rightarrow> bool"
  for fl a where
  start: "dn_reach fl a (dn_start a)"
| step: "dn_reach fl a s \<Longrightarrow> dn_step fl s s' \<Longrightarrow> dn_reach fl a s'"

inductive_cases fl_stepE: "fl_step s s'"
inductive_cases dn_stepE: "dn_step fl s s'"

section \<open>Sequential behaviour\<close>

definition dn_wire :: "dnagg \<Rightarrow> bytes" where
  "dn_wire a = s_out (dn_stream a)"

definition dn_pending :: "dnagg \<Rightarrow> bytes" where
  "dn_pending a = concat (dn_queue a)"

definition dn_inv :: "dnagg \<Rightarrow> bool" where
  "dn_inv a \<longleftrightarrow> dn_total a = int (length (concat (dn_queue a))) \<and> [] \<notin> set (dn_queue a)
     \<and> 0 < dn_pack a \<and> 0 < dn_tail a \<and> 0 < dn_qr a \<and> 0 < dn_maxQueue a \<and> dn_total a \<le> dn_maxQueue a"

text \<open>
  What the call of the missing method relies on: it keeps the invariant and the limit, and when it
  reports no error everything queued has gone to the stream.
\<close>

definition flush_law :: "(dnagg \<Rightarrow> go_error option \<times> dnagg) \<Rightarrow> bool" where
  "flush_law fl \<longleftrightarrow> (\<forall>a e a'. dn_inv a \<longrightarrow> fl a = (e, a') \<longrightarrow>
     dn_inv a' \<and> dn_maxQueue a' = dn_maxQueue a
     \<and> (e = None \<longrightarrow> dn_wire a' = dn_wire a @ dn_pending a \<and> dn_pending a' = []))"

lemma NewDnAggregator_inv: "dn_inv (NewDnAggregator st p t q m)"
  by (simp add: dn_inv_def NewDnAggregator_def Let_def)

lemma sum_list_length_concat: "sum_list (List.map length q) = length (concat q)"
  by (simp add: length_concat)

lemma writeQueue_buf:
  "copy_chunks (replicate (sum_list (List.map length q)) 0) 0 q = concat q"
  by (simp add: sum_list_length_concat copy_chunks_concat)

lemma writeQueue_write_cases:
  assumes "writeQueue_write q a = (err, a')"
  obtains (written) "err = None" "dn_wire a' = dn_wire a @ concat q" "a' = a\<lparr>dn_stream := dn_stream a'\<rparr>"
  | (failed) e where "err = Some e" "a' = a\<lparr>dn_stream := dn_stream a'\<rparr>"
proof (cases "Write (concat q) (dn_stream a)")
  case (Pair r st)
  show thesis
  proof (cases r)
    case (Inl e)
    with assms Pair show thesis
      by (intro failed [of e]) (auto simp: writeQueue_write_def Let_def writeQueue_buf)
  next
    case (Inr n)
    with assms Pair Write_Inr [of "concat q" "dn_stream a" n st] show thesis
      by (intro written) (auto simp: writeQueue_write_def Let_def writeQueue_buf dn_wire_def)
  qed
qed

lemma copyQueueLocked_inv: "dn_inv a \<Longrightarrow> copyQueueLocked a = dn_queue a"
  using concat_pos [of "dn_queue a"] by (auto simp: copyQueueLocked_def dn_inv_def)

lemma dn_flush_law: "flush_law dn_flush"
  unfolding flush_law_def
proof (intro allI impI)
  fix a e a'
  assume inv: "dn_inv a" and fl: "dn_flush a = (e, a')"
  show "dn_inv a' \<and> dn_maxQueue a' = dn_maxQueue a
     \<and> (e = None \<longrightarrow> dn_wire a' = dn_wire a @ dn_pending a \<and> dn_pending a' = [])"
  proof (cases "dn_queue a = []")
    case True
    with inv fl show ?thesis
      by (auto simp: dn_flush_def copyQueueLocked_inv dn_pending_def)
  next
    case False
    obtain err a1 where w: "writeQueue_write (dn_queue a) a = (err, a1)" by fastforce
    with False inv fl have a': "e = err" "a' = writeQueue_clear err a1"
      by (auto simp: dn_flush_def copyQueueLocked_inv)
    from w show ?thesis
    proof (cases rule: writeQueue_write_cases)
      case written
      have "dn_queue a1 = dn_queue a" "dn_maxQueue a1 = dn_maxQueue a" "dn_pack a1 = dn_pack a"
        "dn_tail a1 = dn_tail a" "dn_qr a1 = dn_qr a"
        by (subst written(3), simp)+
      with written inv a' show ?thesis
        by (simp add: dn_inv_def writeQueue_clear_def dn_wire_def dn_pending_def)
    next
      case (failed e0)
      have "dn_queue a1 = dn_queue a" "dn_maxQueue a1 = dn_maxQueue a" "dn_pack a1 = dn_pack a"
        "dn_tail a1 = dn_tail a" "dn_qr a1 = dn_qr a"
        by (subst failed(2), simp)+
      with failed inv a' show ?thesis
        by (simp add: dn_inv_def writeQueue_clear_def)
    qed
  qed
qed

lemma dn_enqueue_inv:
  assumes "dn_inv a" "p \<noteq> []" "dn_total a + int (length p) \<le> dn_maxQueue a"
    "dn_enqueue p a = (out, sig, a')"
  shows "out = DnReturn (Inr (length p)) \<and> dn_inv a' \<and> dn_wire a' = dn_wire a
    \<and> dn_pending a' = dn_pending a @ p
    \<and> sig = (dn_total a' \<ge> dn_pack a' \<or> int (length (dn_queue a')) \<ge> dn_qr a')"
  using assms by (auto simp: dn_enqueue_def Let_def dn_inv_def dn_wire_def dn_pending_def)

lemma dn_inv_stream: "dn_inv a \<Longrightarrow> dn_inv (a\<lparr>dn_stream := st, dn_closed := c\<rparr>)"
  by (simp add: dn_inv_def)

lemma dn_writeDirect_inv: "dn_inv a \<Longrightarrow> dn_inv (snd (dn_writeDirect p a))"
  by (auto simp: dn_writeDirect_def dn_inv_def split: prod.splits sum.splits)

lemma dn_writeDirect_Inr:
  assumes "dn_writeDirect p a = (Inr n, a')"
  shows "n = length p \<and> dn_wire a' = dn_wire a @ p \<and> dn_queue a' = dn_queue a"
proof -
  from assms obtain k st where w: "Write p (dn_stream a) = (Inr k, st)" and
    r: "n = length p" "a' = a\<lparr>dn_stream := st\<rparr>"
    by (auto simp: dn_writeDirect_def split: prod.splits sum.splits)
  from Write_Inr [OF w] r show ?thesis by (simp add: dn_wire_def)
qed

text \<open>What the locked section of a write does to the queue and to the wire.\<close>

lemma dn_Write_locked_cases:
  assumes "flush_law fl" "dn_inv a" "p \<noteq> []" "dn_Write_locked fl p a = (out, sig, a')"
  obtains (refused) e where "out = DnReturn (Inl e)" "dn_inv a'" "\<not> sig"
  | (queued) "out = DnReturn (Inr (length p))" "dn_inv a'"
      "dn_wire a' @ dn_pending a' = dn_wire a @ dn_pending a @ p"
  | (direct) "out = DnDirect p" "dn_inv a'" "dn_wire a' = dn_wire a @ dn_pending a" "dn_pending a' = []"
      "\<not> sig"
proof -
  consider (closed) "dn_closed a" | (fits) "\<not> dn_closed a" "dn_total a + int (length p) \<le> dn_maxQueue a"
    | (full) "\<not> dn_closed a" "\<not> dn_total a + int (length p) \<le> dn_maxQueue a" by blast
  then show thesis
  proof cases
    case closed
    with assms(2,4) show thesis by (intro refused) (auto simp: dn_Write_locked_def)
  next
    case fits
    with assms have "dn_enqueue p a = (out, sig, a')" by (simp add: dn_Write_locked_def)
    from dn_enqueue_inv [OF assms(2,3) fits(2) this] show thesis
      by (intro queued) auto
  next
    case full
    obtain e a1 where f: "fl a = (e, a1)" by fastforce
    with assms(1,2) have law: "dn_inv a1" "dn_maxQueue a1 = dn_maxQueue a"
      "e = None \<Longrightarrow> dn_wire a1 = dn_wire a @ dn_pending a \<and> dn_pending a1 = []"
      unfolding flush_law_def by blast+
    show thesis
    proof (cases e)
      case (Some e0)
      with full f assms(4) law(1) show thesis by (intro refused) (auto simp: dn_Write_locked_def)
    next
      case None
      with law(3) have l3: "dn_wire a1 = dn_wire a @ dn_pending a" "dn_pending a1 = []" by auto
      with law(1) have t: "dn_total a1 = 0" by (simp add: dn_inv_def dn_pending_def)
      show thesis
      proof (cases "int (length p) \<ge> dn_pack a1 \<or> int (length p) > dn_maxQueue a1")
        case True
        with full f None assms(4) have "out = DnDirect p" "sig = False" "a' = a1"
          by (auto simp: dn_Write_locked_def split: if_splits)
        with law(1) l3 show thesis by (intro direct) auto
      next
        case False
        with full f None assms(4) have enq: "dn_enqueue p a1 = (out, sig, a')"
          by (auto simp: dn_Write_locked_def split: if_splits)
        from False t have "dn_total a1 + int (length p) \<le> dn_maxQueue a1" by simp
        from dn_enqueue_inv [OF law(1) assms(3) this enq] l3 show thesis
          by (intro queued) auto
      qed
    qed
  qed
qed

lemma dn_send_queue:
  assumes "flush_law fl"
  shows "send_queue (dn_Write fl) dn_flush dn_inv dn_wire dn_pending"
proof
  fix a p n a'
  assume inv: "dn_inv a" and w: "dn_Write fl p a = (Inr n, a')"
  show "dn_inv a' \<and> n = length p \<and> dn_wire a' @ dn_pending a' = dn_wire a @ dn_pending a @ p"
  proof (cases "p = []")
    case True
    with inv w show ?thesis by (simp add: dn_Write_def)
  next
    case False
    obtain out sig a1 where l: "dn_Write_locked fl p a = (out, sig, a1)"
      by (cases "dn_Write_locked fl p a")
    from assms inv False l show ?thesis
    proof (cases rule: dn_Write_locked_cases)
      case (refused e)
      with w l False show ?thesis by (simp add: dn_Write_def)
    next
      case queued
      with w l False show ?thesis by (simp add: dn_Write_def)
    next
      case direct
      with w l False have d: "dn_writeDirect p a1 = (Inr n, a')" by (simp add: dn_Write_def)
      from dn_writeDirect_Inr [OF d] dn_writeDirect_inv [OF direct(2), of p] d direct show ?thesis
        by (simp add: dn_pending_def)
    qed
  qed
next
  fix a a'
  assume "dn_inv a" "dn_flush a = (None, a')"
  with dn_flush_law show "dn_inv a' \<and> dn_wire a' = dn_wire a @ dn_pending a \<and> dn_pending a' = []"
    unfolding flush_law_def by blast
qed

interpretation dnq: send_queue "dn_Write dn_flush" dn_flush dn_inv dn_wire dn_pending
  by (rule dn_send_queue [OF dn_flush_law])

interpretation dnc: closable dn_Close dn_closed
  by unfold_locales (auto simp: dn_Close_def)

section \<open>The flusher beside the writer\<close>

text \<open>
  The timer runs exactly while the flusher is in the \<^verbatim>\<open>select\<close>, and then the round counter is 0:
  it is reset with every new timer.
\<close>

definition sys_inv :: "dn_sys \<Rightarrow> bool" where
  "sys_inv s \<longleftrightarrow> dn_inv (agg s) \<and> (fl_timer s \<longleftrightarrow> fl_pc s = FSelect) \<and> (fl_pc s = FSelect \<longrightarrow> fl_qr s = 0)
     \<and> (case wr_pc s of None \<Rightarrow> True | Some p \<Rightarrow> p \<noteq> [])"

lemma dn_signal_sel [simp]:
  "agg (dn_signal s) = agg s" "fl_timer (dn_signal s) = fl_timer s" "fl_qr (dn_signal s) = fl_qr s"
  "wr_pc (dn_signal s) = wr_pc s" "fl_pc (dn_signal s) = (if fl_pc s = FWait then FTop else fl_pc s)"
  by (simp_all add: dn_signal_def)

lemma fl_continue_sel [simp]:
  "agg (fl_continue k s) = agg s" "fl_timer (fl_continue k s) = fl_timer s"
  "wr_pc (fl_continue k s) = wr_pc s"
  "fl_pc (fl_continue k s) = (if k = Return then FDone else FTop)"
  by (simp_all add: fl_continue_def split: fcont.splits)

lemma writeQueue_write_frame:
  assumes "writeQueue_write q a = (err, a')"
  shows "dn_queue a' = dn_queue a \<and> dn_total a' = dn_total a \<and> dn_pack a' = dn_pack a
    \<and> dn_tail a' = dn_tail a \<and> dn_qr a' = dn_qr a \<and> dn_maxQueue a' = dn_maxQueue a
    \<and> dn_closed a' = dn_closed a \<and> dn_stopped a' = dn_stopped a"
  using assms by (auto simp: writeQueue_write_def Let_def split: prod.splits sum.splits)

lemma fl_step_inv:
  assumes "fl_step s s'" "sys_inv s"
  shows "sys_inv s'"
  using assms(1)
proof cases
  case fl_at_top
  with assms(2) show ?thesis by (auto simp: fl_top_def Let_def sys_inv_def)
next
  case fl_at_wait
  with assms(2) show ?thesis by (auto simp: sys_inv_def)
next
  case (fl_at_write q k)
  obtain err a where w: "writeQueue_write q (agg s) = (err, a)" by fastforce
  from writeQueue_write_frame [OF w] assms(2) fl_at_write w show ?thesis
    by (auto simp: fl_write_def sys_inv_def dn_inv_def)
next
  case (fl_at_clear err k)
  with assms(2) show ?thesis
    by (auto simp: fl_clear_def sys_inv_def writeQueue_clear_def dn_inv_def)
next
  case fl_at_timer
  with assms(2) show ?thesis by (auto simp: fl_timer_case_def Let_def sys_inv_def)
next
  case fl_at_stop
  with assms(2) show ?thesis by (auto simp: fl_stop_case_def Let_def sys_inv_def)
qed

lemma sys_inv_agg:
  "sys_inv s \<Longrightarrow> dn_inv a \<Longrightarrow> sys_inv (s\<lparr>agg := a\<rparr>)"
  by (simp add: sys_inv_def)

lemma sys_inv_signal: "sys_inv s \<Longrightarrow> sys_inv (dn_signal s)"
  by (auto simp: sys_inv_def)

lemma dn_Write_locked_inv:
  assumes "flush_law fl" "dn_inv a" "p \<noteq> []" "dn_Write_locked fl p a = (out, sig, a')"
  shows "dn_inv a' \<and> (\<forall>q. out = DnDirect q \<longrightarrow> q = p)"
  using assms by (cases rule: dn_Write_locked_cases) auto

lemma dn_step_inv:
  assumes "dn_step fl s s'" "flush_law fl" "sys_inv s"
  shows "sys_inv s'"
  using assms(1)
proof cases
  case flusher
  with assms(3) show ?thesis by (rule fl_step_inv [rotated])
next
  case (write_returns data r sig a)
  from dn_Write_locked_inv [OF assms(2) _ write_returns(4,5)] assms(3)
  have "dn_inv a" by (simp add: sys_inv_def)
  with write_returns assms(3) show ?thesis by (auto intro!: sys_inv_agg sys_inv_signal)
next
  case (write_leaves data p sig a)
  from dn_Write_locked_inv [OF assms(2) _ write_leaves(4,5)] assms(3) write_leaves(4)
  have "dn_inv a" "p \<noteq> []" by (auto simp: sys_inv_def)
  with write_leaves assms(3) show ?thesis by (simp add: sys_inv_def)
next
  case (write_direct p)
  from assms(3) have "dn_inv (snd (dn_writeDirect p (agg s)))"
    by (intro dn_writeDirect_inv) (simp add: sys_inv_def)
  with write_direct assms(3) show ?thesis by (simp add: sys_inv_def)
next
  case close
  from assms(3) have "dn_inv (dn_Close (agg s))"
    by (simp add: sys_inv_def dn_Close_def dn_inv_def)
  with close assms(3) show ?thesis by (auto intro!: sys_inv_agg sys_inv_signal)
qed

lemma dn_start_inv: "sys_inv (dn_start (NewDnAggregator st p t q m))"
  by (simp add: sys_inv_def dn_start_def NewDnAggregator_inv)

lemma dn_reach_inv:
  assumes "dn_reach fl (NewDnAggregator st p t q m) s" "flush_law fl"
  shows "sys_inv s"
  using assms by (induction rule: dn_reach.induct) (auto intro: dn_start_inv dn_step_inv)

section \<open>Properties\<close>

text \<open>
  Sequentially, the aggregator neither loses, duplicates nor reorders: after any successful
  calls of \<^verbatim>\<open>Write\<close> and a successful flush, the stream has received what was pending before
  followed by the data of the calls in order, and nothing is pending. The method \<^verbatim>\<open>flushLocked\<close>,
  which the package does not define, is assumed to flush.
\<close>

theorem dn_download_in_order:
  assumes "flush_law fl" "dn_inv a"
    "write_seq (dn_Write fl) bs a = (Inr n, a1)" "dn_flush a1 = (None, a2)"
  shows "dn_wire a2 = dn_wire a @ dn_pending a @ concat bs \<and> dn_pending a2 = []"
  by (rule send_queue.write_seq_flush [OF dn_send_queue [OF assms(1)] assms(2-4)])

theorem dn_download_in_order_witness:
  "let a = NewDnAggregator (fresh_stream []) 4 1 2 8; w = write_seq (dn_Write dn_flush) [[1, 2], [3], [4, 5, 6, 7, 8, 9]] a;
       f = dn_flush (snd w)
   in dn_wire (snd f) = [1, 2, 3, 4, 5, 6, 7, 8, 9]"
proof -
  let ?a = "NewDnAggregator (fresh_stream []) 4 1 2 8"
  let ?w = "write_seq (dn_Write dn_flush) [[1, 2], [3], [4, 5, 6, 7, 8, 9]] ?a"
  note d = NewDnAggregator_def dn_Write_def dn_Write_locked_def dn_enqueue_def dn_flush_def Let_def
    copyQueueLocked_def writeQueue_write_def writeQueue_clear_def Write_def dn_writeDirect_def fresh_stream_def
  have w: "?w = (Inr 9, snd ?w)" by (simp add: d)
  have f: "dn_flush (snd ?w) = (None, snd (dn_flush (snd ?w)))" by (simp add: d)
  from dn_download_in_order [OF dn_flush_law NewDnAggregator_inv w f]
  show ?thesis by (simp add: Let_def dn_wire_def dn_pending_def NewDnAggregator_def)
qed

text \<open>
  C14: in every state any interleaving of the flusher, the writer and \<^verbatim>\<open>Close\<close> reaches, the size
  counter is the number of queued bytes, no queued chunk is empty, the queue is within its limit,
  the parameters are positive, and the flusher's timer runs exactly while it selects, with its
  round counter at 0.
\<close>

theorem dn_interleaving_invariant:
  assumes "dn_reach fl (NewDnAggregator st p t q m) s" "flush_law fl"
  shows "dn_total (agg s) = int (length (dn_pending (agg s))) \<and> [] \<notin> set (dn_queue (agg s))
    \<and> dn_total (agg s) \<le> dn_maxQueue (agg s) \<and> 0 < dn_pack (agg s) \<and> 0 < dn_qr (agg s)
    \<and> (fl_timer s \<longleftrightarrow> fl_pc s = FSelect) \<and> (fl_pc s = FSelect \<longrightarrow> fl_qr s = 0)"
  using dn_reach_inv [OF assms] by (simp add: sys_inv_def dn_inv_def dn_pending_def)

text \<open>A run used by the witnesses: the flusher waits, one byte is written, the flusher is not woken.\<close>

definition dn_example :: "dn_sys" where
  "dn_example = \<lparr>agg = (NewDnAggregator (fresh_stream []) 0 0 0 0)\<lparr>dn_queue := [[1]], dn_total := 1\<rparr>,
     fl_pc = FWait, fl_timer = False, fl_qr = 0, wr_pc = None\<rparr>"

lemma dn_waiting_reach:
  "dn_reach fl a (\<lparr>agg = a, fl_pc = FWait, fl_timer = False, fl_qr = 0, wr_pc = None\<rparr>)"
  if "\<not> dn_closed a" "dn_queue a = []"
proof -
  have "fl_top (dn_start a) = (dn_start a)\<lparr>fl_pc := FAboutToWait\<rparr>"
    using that by (simp add: fl_top_def dn_start_def)
  then have "dn_step fl (dn_start a) ((dn_start a)\<lparr>fl_pc := FAboutToWait\<rparr>)"
    by (metis dn_start_def dn_step.flusher dn_sys.select_convs(2) fl_at_top)
  then have 1: "dn_reach fl a ((dn_start a)\<lparr>fl_pc := FAboutToWait\<rparr>)"
    by (rule dn_reach.step [OF dn_reach.start])
  have "fl_step ((dn_start a)\<lparr>fl_pc := FAboutToWait\<rparr>) ((dn_start a)\<lparr>fl_pc := FAboutToWait\<rparr>\<lparr>fl_pc := FWait\<rparr>)"
    by (rule fl_at_wait) simp
  from dn_reach.step [OF 1 dn_step.flusher [OF this]] show ?thesis
    by (simp add: dn_start_def)
qed

lemma dn_example_reach:
  "dn_reach fl (NewDnAggregator (fresh_stream []) 0 0 0 0) dn_example"
proof -
  let ?a = "NewDnAggregator (fresh_stream []) 0 0 0 0"
  let ?s = "\<lparr>agg = ?a, fl_pc = FWait, fl_timer = False, fl_qr = 0, wr_pc = None\<rparr>"
  have w: "dn_Write_locked fl [1] (agg ?s) =
      (DnReturn (Inr 1), False, ?a\<lparr>dn_queue := [[1]], dn_total := 1\<rparr>)"
    by (simp add: dn_Write_locked_def dn_enqueue_def NewDnAggregator_def Let_def)
  have "dn_step fl ?s (?s\<lparr>agg := ?a\<lparr>dn_queue := [[1]], dn_total := 1\<rparr>\<rparr>)"
    using dn_step.write_returns [OF _ _ _ w] by simp
  then show ?thesis
    using dn_reach.step [OF dn_waiting_reach] by (fastforce simp: NewDnAggregator_def dn_example_def Let_def)
qed

text \<open>A little data queued, with no reason in the code to send it.\<close>

definition fl_small :: "dnagg \<Rightarrow> bool" where
  "fl_small a \<longleftrightarrow> dn_queue a \<noteq> [] \<and> \<not> dn_closed a \<and> \<not> dn_stopped a
     \<and> dn_total a < dn_pack a \<and> int (length (dn_queue a)) < dn_qr a
     \<and> dn_tail a \<le> dn_pack a - dn_total a \<and> dn_total a < fl_low a \<and> 2 \<le> dn_qr a"

lemma fl_small_step:
  assumes "fl_step s s'" "sys_inv s" "fl_small (agg s)" "fl_pc s \<in> {FTop, FSelect, FWait}"
  shows "agg s' = agg s \<and> fl_pc s' \<in> {FTop, FSelect, FWait}"
  using assms(1)
proof cases
  case fl_at_top
  with assms show ?thesis by (auto simp: fl_top_def fl_small_def Let_def)
next
  case fl_at_timer
  with assms show ?thesis by (auto simp: fl_timer_case_def fl_small_def sys_inv_def Let_def)
qed (use assms in \<open>auto simp: fl_small_def\<close>)

text \<open>
  C37: a small amount of data is never sent. When less than the packing size and less than the
  threshold of the timer is queued, in fewer than \<^verbatim>\<open>dnQr\<close> chunks, the flusher by itself changes
  nothing, however many steps it takes and however often its timer fires: the round counter that
  should end the waiting is reset with every timer, and a write that does not fill the queue does
  not wake a flusher that waits.
\<close>

theorem dn_small_data_stalls:
  assumes "dn_reach fl (NewDnAggregator st p t q m) s" "flush_law fl"
    "fl_small (agg s)" "fl_pc s \<in> {FTop, FSelect, FWait}" "fl_step\<^sup>*\<^sup>* s s'"
  shows "agg s' = agg s \<and> dn_pending (agg s') \<noteq> []"
proof -
  from assms(5) have "agg s' = agg s \<and> sys_inv s' \<and> fl_pc s' \<in> {FTop, FSelect, FWait}"
  proof (induction rule: rtranclp_induct)
    case base
    show ?case using assms(4) dn_reach_inv [OF assms(1,2)] by blast
  next
    case (step y z)
    with fl_small_step [of y z] fl_step_inv [of y z] assms(3) show ?case by auto
  qed
  moreover have "dn_pending (agg s) \<noteq> []"
    using assms(3) dn_reach_inv [OF assms(1,2)] concat_pos [of "dn_queue (agg s)"]
    by (auto simp: fl_small_def sys_inv_def dn_inv_def dn_pending_def)
  ultimately show ?thesis by simp
qed

theorem dn_small_data_stalls_witness:
  "dn_pending (agg dn_example) \<noteq> []"
proof -
  have "fl_small (agg dn_example)"
    by (simp add: fl_small_def dn_example_def NewDnAggregator_def Let_def fl_low_def)
  moreover have "fl_pc dn_example \<in> {FTop, FSelect, FWait}" by (simp add: dn_example_def)
  ultimately show ?thesis
    using dn_small_data_stalls [OF dn_example_reach dn_flush_law _ _ rtranclp.rtrancl_refl] by blast
qed

theorem dn_interleaving_invariant_witness:
  "dn_total (agg dn_example) = int (length (dn_pending (agg dn_example)))"
  using dn_interleaving_invariant [OF dn_example_reach dn_flush_law] by blast

text \<open>
  C30: data written while the flusher is sending is lost. Between the copy of the queue and the end
  of the write on the stream the lock is free; a \<^verbatim>\<open>Write\<close> that fits then succeeds, and the
  flusher's next locked section empties the whole queue, so that its data is neither pending nor on
  the stream.
\<close>

theorem dn_concurrent_write_lost:
  assumes "dn_reach fl (NewDnAggregator st p t q m) s" "flush_law fl"
    "fl_pc s = FClear err k" "\<not> dn_closed (agg s)" "wr_pc s = None" "data \<noteq> []"
    "dn_total (agg s) + int (length data) \<le> dn_maxQueue (agg s)"
  shows "\<exists>s1 s2. dn_step fl s s1 \<and> fl_step s1 s2
    \<and> dn_Write fl data (agg s) = (Inr (length data), agg s1)
    \<and> dn_pending (agg s1) = dn_pending (agg s) @ data
    \<and> dn_wire (agg s2) = dn_wire (agg s) \<and> dn_pending (agg s2) = []"
proof -
  obtain out sig a where w: "dn_Write_locked fl data (agg s) = (out, sig, a)"
    by (cases "dn_Write_locked fl data (agg s)")
  then have "dn_enqueue data (agg s) = (out, sig, a)"
    using assms(4,7) by (simp add: dn_Write_locked_def)
  moreover have "dn_inv (agg s)" using dn_reach_inv [OF assms(1,2)] by (simp add: sys_inv_def)
  ultimately have enq: "out = DnReturn (Inr (length data))" "dn_wire a = dn_wire (agg s)"
    "dn_pending a = dn_pending (agg s) @ data"
    using dn_enqueue_inv [OF _ assms(6,7)] by blast+
  define s1 where "s1 = (if sig then dn_signal (s\<lparr>agg := a\<rparr>) else s\<lparr>agg := a\<rparr>)"
  have s1: "agg s1 = a" "fl_pc s1 = FClear err k" by (simp_all add: s1_def assms(3))
  have step1: "dn_step fl s s1"
    unfolding s1_def by (rule dn_step.write_returns) (use assms w enq in auto)
  have step2: "fl_step s1 (fl_clear err k s1)" by (rule fl_at_clear) (rule s1)
  have end2: "dn_wire (agg (fl_clear err k s1)) = dn_wire (agg s)" "dn_pending (agg (fl_clear err k s1)) = []"
    by (simp_all add: fl_clear_def writeQueue_clear_def dn_wire_def dn_pending_def s1
        enq(2) [unfolded dn_wire_def])
  have "dn_Write fl data (agg s) = (Inr (length data), agg s1)"
    using w enq(1) assms(6) s1(1) by (simp add: dn_Write_def)
  with step1 step2 end2 enq(3) s1(1) show ?thesis by auto
qed

text \<open>A run in which the flusher has just sent one chunk.\<close>

definition dn_sending :: "dn_sys" where
  "dn_sending = \<lparr>agg = (NewDnAggregator (fresh_stream []) 4 1 1 8)\<lparr>dn_stream := (fresh_stream [])\<lparr>s_out := [7]\<rparr>,
       dn_queue := [[7]], dn_total := 1\<rparr>,
     fl_pc = FClear None ResetAndLoop, fl_timer = False, fl_qr = 0, wr_pc = None\<rparr>"

lemma dn_sending_reach:
  "dn_reach fl (NewDnAggregator (fresh_stream []) 4 1 1 8) dn_sending"
proof -
  let ?a = "NewDnAggregator (fresh_stream []) 4 1 1 8"
  let ?b = "?a\<lparr>dn_queue := [[7]], dn_total := 1\<rparr>"
  let ?s = "\<lambda>a pc. \<lparr>agg = a, fl_pc = pc, fl_timer = False, fl_qr = 0, wr_pc = None\<rparr>"
  note d = NewDnAggregator_def Let_def
  have r0: "dn_reach fl ?a (?s ?a FWait)" by (rule dn_waiting_reach) (simp_all add: d)
  have w: "dn_Write_locked fl [7] ?a = (DnReturn (Inr 1), True, ?b)"
    by (simp add: dn_Write_locked_def dn_enqueue_def d)
  have "dn_step fl (?s ?a FWait) (?s ?b FTop)"
    using dn_step.write_returns [of "?s ?a FWait" "[7]" fl "Inr 1" True ?b] w
    by (simp add: dn_signal_def)
  with r0 have r1: "dn_reach fl ?a (?s ?b FTop)" by (rule dn_reach.step)
  have "fl_top (?s ?b FTop) = ?s ?b (FWrite [[7]] ResetAndLoop)"
    by (simp add: fl_top_def d copyQueueLocked_def)
  then have "fl_step (?s ?b FTop) (?s ?b (FWrite [[7]] ResetAndLoop))"
    using fl_at_top [of "?s ?b FTop"] by simp
  from dn_reach.step [OF r1 dn_step.flusher [OF this]]
  have r2: "dn_reach fl ?a (?s ?b (FWrite [[7]] ResetAndLoop))" .
  have "fl_write [[7]] ResetAndLoop (?s ?b (FWrite [[7]] ResetAndLoop)) = dn_sending"
    by (simp add: fl_write_def dn_sending_def writeQueue_write_def d Write_def fresh_stream_def)
  then have "fl_step (?s ?b (FWrite [[7]] ResetAndLoop)) dn_sending"
    using fl_at_write [of "?s ?b (FWrite [[7]] ResetAndLoop)" "[[7]]" ResetAndLoop] by simp
  from dn_reach.step [OF r2 dn_step.flusher [OF this]] show ?thesis .
qed

theorem dn_concurrent_write_lost_witness:
  "\<exists>s1 s2. dn_step dn_flush dn_sending s1 \<and> fl_step s1 s2 \<and> dn_pending (agg s1) = [7, 9]
     \<and> dn_wire (agg s2) = [7] \<and> dn_pending (agg s2) = []"
proof -
  have "dn_pending (agg dn_sending) = [7]" "dn_wire (agg dn_sending) = [7]"
    by (simp_all add: dn_sending_def dn_pending_def dn_wire_def)
  then show ?thesis
    using dn_concurrent_write_lost [OF dn_sending_reach dn_flush_law, of None ResetAndLoop "[9]"]
    by (auto simp: dn_sending_def NewDnAggregator_def Let_def)
qed

text \<open>A flusher that sleeps with the aggregator closed: nothing wakes it.\<close>

lemma dn_asleep_step:
  assumes "dn_step fl s s'" "fl_pc s = FWait" "dn_closed (agg s)"
  shows "fl_pc s' = FWait \<and> dn_closed (agg s')"
  using assms(1)
proof cases
  case flusher
  then show ?thesis using assms(2) by cases simp_all
next
  case (write_returns data r sig a)
  then show ?thesis using assms(2,3) by (auto simp: dn_Write_locked_def)
next
  case (write_leaves data p sig a)
  then show ?thesis using assms(2,3) by (auto simp: dn_Write_locked_def)
next
  case (write_direct p)
  then show ?thesis using assms(2,3)
    by (auto simp: dn_writeDirect_def split: prod.splits sum.splits)
next
  case close
  with assms(3) show ?thesis by simp
qed

text \<open>
  \<^verbatim>\<open>Close\<close> can hang. It sets \<^verbatim>\<open>closed\<close> and signals without holding the lock, so both can fall
  between the flusher's check of \<^verbatim>\<open>closed\<close> and its registration on the condition: a state is
  reachable in which \<^verbatim>\<open>Close\<close> has signalled and waits for the flusher, while the flusher waits on
  the condition in every state that can follow.
\<close>

theorem dn_close_can_hang:
  "\<exists>s. dn_reach fl (NewDnAggregator st p t q m) s \<and> dn_stopped (agg s)
     \<and> (\<forall>s'. (dn_step fl)\<^sup>*\<^sup>* s s' \<longrightarrow> fl_pc s' = FWait)"
proof -
  let ?a = "NewDnAggregator st p t q m"
  let ?s1 = "(dn_start ?a)\<lparr>fl_pc := FAboutToWait\<rparr>"
  let ?s2 = "?s1\<lparr>agg := dn_Close ?a\<rparr>"
  let ?s3 = "?s2\<lparr>fl_pc := FWait\<rparr>"
  have a: "\<not> dn_closed ?a" "dn_queue ?a = []" by (simp_all add: NewDnAggregator_def Let_def)
  have "fl_top (dn_start ?a) = ?s1" using a by (simp add: fl_top_def dn_start_def)
  then have "fl_step (dn_start ?a) ?s1"
    using fl_at_top [of "dn_start ?a"] by (simp add: dn_start_def)
  from dn_reach.step [OF dn_reach.start dn_step.flusher [OF this]]
  have r1: "dn_reach fl ?a ?s1" .
  have "dn_step fl ?s1 ?s2"
    using dn_step.close [of ?s1 fl] a by (simp add: dn_start_def dn_signal_def)
  from dn_reach.step [OF r1 this] have r2: "dn_reach fl ?a ?s2" .
  have "fl_step ?s2 ?s3" by (rule fl_at_wait) simp
  from dn_reach.step [OF r2 dn_step.flusher [OF this]] have r3: "dn_reach fl ?a ?s3" .
  have c: "dn_stopped (dn_Close ?a)" "dn_closed (dn_Close ?a)" using a by (simp_all add: dn_Close_def)
  have "fl_pc s' = FWait" if "(dn_step fl)\<^sup>*\<^sup>* ?s3 s'" for s'
  proof -
    from that have "fl_pc s' = FWait \<and> dn_closed (agg s')"
      by (induction rule: rtranclp_induct) (use c dn_asleep_step in auto)
    then show ?thesis ..
  qed
  with r3 c show ?thesis by (intro exI [of _ ?s3]) simp
qed

text \<open>What is still to be sent while the flusher finishes after \<^verbatim>\<open>Close\<close>, and how many steps are left.\<close>

definition fl_draining :: "bytes \<Rightarrow> dn_sys \<Rightarrow> bool" where
  "fl_draining w s \<longleftrightarrow> dn_closed (agg s) \<and> dn_stopped (agg s) \<and> dn_inv (agg s)
     \<and> s_wr (dn_stream (agg s)) = [] \<and>
     (case fl_pc s of
        FTop \<Rightarrow> dn_wire (agg s) @ dn_pending (agg s) = w
      | FSelect \<Rightarrow> dn_wire (agg s) @ dn_pending (agg s) = w
      | FWrite q k \<Rightarrow> q = dn_queue (agg s) \<and> dn_wire (agg s) @ dn_pending (agg s) = w \<and> q \<noteq> []
      | FClear err k \<Rightarrow> err = None \<and> dn_wire (agg s) = w
      | FDone \<Rightarrow> dn_wire (agg s) = w \<and> dn_queue (agg s) = []
      | _ \<Rightarrow> False)"

definition fl_left :: "dn_sys \<Rightarrow> nat" where
  "fl_left s = (case fl_pc s of
     FTop \<Rightarrow> (if dn_queue (agg s) = [] then 1 else 6) | FSelect \<Rightarrow> 5 | FWrite q k \<Rightarrow> 3
   | FClear e k \<Rightarrow> 2 | _ \<Rightarrow> 0)"

lemma fl_draining_step:
  assumes "fl_step s s'" "fl_draining w s"
  shows "fl_draining w s' \<and> fl_left s' < fl_left s"
  using assms(1)
proof cases
  case fl_at_top
  with assms(2) show ?thesis
    by (auto simp: fl_top_def Let_def fl_draining_def fl_left_def copyQueueLocked_inv dn_pending_def)
next
  case fl_at_wait
  with assms(2) show ?thesis by (auto simp: fl_draining_def)
next
  case (fl_at_write q k)
  obtain err a where w: "writeQueue_write q (agg s) = (err, a)" by fastforce
  moreover have "err = None" "s_wr (dn_stream a) = []"
    using w assms(2)
    by (auto simp: writeQueue_write_def Let_def fl_draining_def Write_ok split: prod.splits sum.splits)
  moreover from this w have "dn_wire a = dn_wire (agg s) @ concat q"
    using writeQueue_write_cases [OF w] by auto
  ultimately show ?thesis
    using fl_at_write assms(2) writeQueue_write_frame [OF w]
    by (auto simp: fl_write_def fl_draining_def fl_left_def dn_inv_def dn_pending_def)
next
  case (fl_at_clear err k)
  with assms(2) show ?thesis
    by (auto simp: fl_clear_def fl_draining_def fl_left_def writeQueue_clear_def dn_inv_def dn_wire_def
        dn_pending_def split: fcont.splits)
next
  case fl_at_timer
  with assms(2) show ?thesis
    by (auto simp: fl_timer_case_def Let_def fl_draining_def fl_left_def copyQueueLocked_inv dn_pending_def)
next
  case fl_at_stop
  with assms(2) show ?thesis
    by (auto simp: fl_stop_case_def Let_def fl_draining_def fl_left_def copyQueueLocked_inv dn_pending_def)
qed

interpretation drain: converging fl_step "fl_draining w" fl_left for w
  by unfold_locales (use fl_draining_step in blast)


text \<open>The state of \<^term>\<open>dn_example\<close> after \<^verbatim>\<open>Close\<close>.\<close>

definition dn_example_closed :: "dn_sys" where
  "dn_example_closed = dn_example\<lparr>agg := dn_Close (agg dn_example), fl_pc := FTop\<rparr>"

lemma dn_example_closed_reach:
  "dn_reach fl (NewDnAggregator (fresh_stream []) 0 0 0 0) dn_example_closed"
proof -
  have "dn_step fl dn_example dn_example_closed"
    using dn_step.close [of dn_example fl]
    by (simp add: dn_example_closed_def dn_signal_def dn_example_def NewDnAggregator_def Let_def)
  with dn_example_reach show ?thesis by (rule dn_reach.step)
qed

lemma fl_done_stuck: "fl_pc s = FDone \<Longrightarrow> \<not> fl_step s s'"
  by (auto elim: fl_stepE)


end
