(* ===== verification/ProxyStream.thy ===== *)
theory ProxyStream
  imports DnAgg
begin

text \<open>
  \<^verbatim>\<open>ProxyConnStream\<close> of \<^verbatim>\<open>internal/transport/dnagg.go\<close>: the loop that forwards a connection \<^verbatim>\<open>c\<close> into
  an aggregator, the aggregator's flusher, and the goroutine that copies the stream back into \<^verbatim>\<open>c\<close>.

  The two lists hold what the reads of \<^verbatim>\<open>c\<close> and of the stream return until their end of file. The
  aggregator with its flusher is the \<^typ>\<open>dn_sys\<close> of theory \<^verbatim>\<open>DnAgg\<close>; the stream's other direction and
  its \<^verbatim>\<open>Close\<close> are kept beside it.
\<close>

text \<open>
  Where \<^verbatim>\<open>ProxyConnStream\<close> stands: at the read; with a chunk for \<^verbatim>\<open>agg.Write\<close>; in its direct
  write; at \<^verbatim>\<open>agg.Close\<close>, or waiting in it for the flusher; at \<^verbatim>\<open>stream.Close\<close>; returned. The
  flag tells the deferred \<^verbatim>\<open>agg.Close\<close> from the first.
\<close>

datatype ps_pc = PsRead | PsWrite bytes | PsDirect bytes | PsClose bool | PsWait bool | PsStream | PsReturned

record proxy_stream =
  ps_dn :: dn_sys
  ps_local :: "bytes list"
  ps_at :: ps_pc
  ps_remote :: "bytes list"
  ps_back :: bytes
  ps_copying :: bool
  ps_c_closed :: bool
  ps_s_closed :: bool

definition ps_start :: "dnagg \<Rightarrow> bytes list \<Rightarrow> bytes list \<Rightarrow> proxy_stream" where
  "ps_start a local remote = \<lparr>ps_dn = dn_start a, ps_local = local, ps_at = PsRead, ps_remote = remote,
     ps_back = [], ps_copying = True, ps_c_closed = False, ps_s_closed = False\<rparr>"

text \<open>What follows \<^verbatim>\<open>agg.Write\<close>, and what follows \<^verbatim>\<open>agg.Close\<close>.\<close>

definition ps_written :: "nat res \<Rightarrow> ps_pc" where
  "ps_written r = (case r of Inl _ \<Rightarrow> PsClose False | Inr _ \<Rightarrow> PsRead)"

definition ps_after :: "bool \<Rightarrow> ps_pc" where
  "ps_after deferred = (if deferred then PsReturned else PsStream)"

text \<open>
  \<^verbatim>\<open>agg.Close\<close> up to its wait: on an aggregator that is closed already it returns, without waiting.
\<close>

definition ps_agg_Close :: "bool \<Rightarrow> proxy_stream \<Rightarrow> proxy_stream" where
  "ps_agg_Close deferred x =
    (if dn_closed (agg (ps_dn x)) then x\<lparr>ps_at := ps_after deferred\<rparr>
     else x\<lparr>ps_dn := dn_signal ((ps_dn x)\<lparr>agg := dn_Close (agg (ps_dn x))\<rparr>), ps_at := PsWait deferred\<rparr>)"

text \<open>
  A flusher that still writes after \<^verbatim>\<open>stream.Close\<close> gets an error and sends nothing. A copy ends
  at the end of file, at a failing write (which may pass on a part), or once the stream or the connection
  is closed; then it closes the connection, which makes the reads of \<^verbatim>\<open>c\<close> fail.
\<close>

inductive ps_step :: "(dnagg \<Rightarrow> go_error option \<times> dnagg) \<Rightarrow> proxy_stream \<Rightarrow> proxy_stream \<Rightarrow> bool"
  for fl where
  flush: "fl_step (ps_dn x) d \<Longrightarrow> \<not> ps_s_closed x \<or> (\<nexists>q k. fl_pc (ps_dn x) = FWrite q k) \<Longrightarrow>
    ps_step fl x (x\<lparr>ps_dn := d\<rparr>)"
| flush_late: "fl_pc (ps_dn x) = FWrite q k \<Longrightarrow> ps_s_closed x \<Longrightarrow>
    ps_step fl x (x\<lparr>ps_dn := if q = [] then fl_continue k (ps_dn x)
      else (ps_dn x)\<lparr>fl_pc := FClear (Some ErrClosedPipe) k\<rparr>\<rparr>)"
| read: "ps_at x = PsRead \<Longrightarrow> \<not> ps_c_closed x \<Longrightarrow> ps_local x = b # bs \<Longrightarrow>
    ps_step fl x (x\<lparr>ps_local := bs, ps_at := if length b > 0 then PsWrite b else PsRead\<rparr>)"
| read_fails: "ps_at x = PsRead \<Longrightarrow> ps_c_closed x \<or> ps_local x = [] \<Longrightarrow>
    ps_step fl x (x\<lparr>ps_at := PsClose False\<rparr>)"
| wrote: "ps_at x = PsWrite b \<Longrightarrow> fl_pc (ps_dn x) \<noteq> FAboutToWait \<Longrightarrow>
    dn_Write_locked fl b (agg (ps_dn x)) = (DnReturn r, sig, a) \<Longrightarrow>
    ps_step fl x (x\<lparr>ps_dn := if sig then dn_signal ((ps_dn x)\<lparr>agg := a\<rparr>) else (ps_dn x)\<lparr>agg := a\<rparr>,
      ps_at := ps_written r\<rparr>)"
| left_lock: "ps_at x = PsWrite b \<Longrightarrow> fl_pc (ps_dn x) \<noteq> FAboutToWait \<Longrightarrow>
    dn_Write_locked fl b (agg (ps_dn x)) = (DnDirect p, sig, a) \<Longrightarrow>
    ps_step fl x (x\<lparr>ps_dn := (ps_dn x)\<lparr>agg := a, wr_pc := Some p\<rparr>, ps_at := PsDirect p\<rparr>)"
| direct: "ps_at x = PsDirect p \<Longrightarrow> dn_writeDirect p (agg (ps_dn x)) = (r, a) \<Longrightarrow>
    ps_step fl x (x\<lparr>ps_dn := (ps_dn x)\<lparr>agg := a, wr_pc := None\<rparr>, ps_at := ps_written r\<rparr>)"
| agg_close: "ps_at x = PsClose deferred \<Longrightarrow> ps_step fl x (ps_agg_Close deferred x)"
| flusher_done: "ps_at x = PsWait deferred \<Longrightarrow> fl_pc (ps_dn x) = FDone \<Longrightarrow>
    ps_step fl x (x\<lparr>ps_at := ps_after deferred\<rparr>)"
| stream_close: "ps_at x = PsStream \<Longrightarrow> ps_step fl x (x\<lparr>ps_s_closed := True, ps_at := PsClose True\<rparr>)"
| back_copy: "ps_copying x \<Longrightarrow> \<not> ps_s_closed x \<Longrightarrow> \<not> ps_c_closed x \<Longrightarrow> ps_remote x = b # bs \<Longrightarrow>
    ps_step fl x (x\<lparr>ps_remote := bs, ps_back := ps_back x @ b\<rparr>)"
| back_fails: "ps_copying x \<Longrightarrow> ps_remote x = b # bs \<Longrightarrow>
    ps_step fl x (x\<lparr>ps_remote := bs, ps_back := ps_back x @ take k b, ps_copying := False, ps_c_closed := True\<rparr>)"
| back_ends: "ps_copying x \<Longrightarrow> ps_remote x = [] \<or> ps_s_closed x \<or> ps_c_closed x \<Longrightarrow>
    ps_step fl x (x\<lparr>ps_copying := False, ps_c_closed := True\<rparr>)"

inductive_cases ps_stepE: "ps_step fl x y"

section \<open>The aggregator under it\<close>

text \<open>
  Until the stream is closed, what the three goroutines do to the aggregator is a run of
  \<^const>\<open>dn_step\<close>; the writer of that run is \<^verbatim>\<open>ProxyConnStream\<close>.
\<close>

definition ps_ok :: "(dnagg \<Rightarrow> go_error option \<times> dnagg) \<Rightarrow> dnagg \<Rightarrow> proxy_stream \<Rightarrow> bool" where
  "ps_ok fl a x \<longleftrightarrow> (\<not> ps_s_closed x \<longrightarrow> dn_reach fl a (ps_dn x))
     \<and> wr_pc (ps_dn x) = (case ps_at x of PsDirect p \<Rightarrow> Some p | _ \<Rightarrow> None)
     \<and> (\<forall>b. ps_at x = PsWrite b \<longrightarrow> b \<noteq> [])"

text \<open>
  What has been closed at each place, and that the flusher has returned where \<^verbatim>\<open>agg.Close\<close> has
  waited for it (\<^const>\<open>dn_stopped\<close> tells that it did).
\<close>

definition ps_closing :: "proxy_stream \<Rightarrow> bool" where
  "ps_closing x \<longleftrightarrow> (case ps_at x of
       PsWait d \<Rightarrow> \<not> d \<and> \<not> ps_s_closed x \<and> dn_closed (agg (ps_dn x))
     | PsStream \<Rightarrow> \<not> ps_s_closed x \<and> dn_closed (agg (ps_dn x))
         \<and> (dn_stopped (agg (ps_dn x)) \<longrightarrow> fl_pc (ps_dn x) = FDone)
     | PsReturned \<Rightarrow> ps_s_closed x \<and> dn_closed (agg (ps_dn x))
         \<and> (dn_stopped (agg (ps_dn x)) \<longrightarrow> fl_pc (ps_dn x) = FDone)
     | PsClose True \<Rightarrow> ps_s_closed x \<and> dn_closed (agg (ps_dn x))
         \<and> (dn_stopped (agg (ps_dn x)) \<longrightarrow> fl_pc (ps_dn x) = FDone)
     | _ \<Rightarrow> \<not> ps_s_closed x \<and> \<not> dn_stopped (agg (ps_dn x)))"

definition ps_copied :: "bytes list \<Rightarrow> proxy_stream \<Rightarrow> bool" where
  "ps_copied remote x \<longleftrightarrow> (\<exists>t. concat remote = ps_back x @ t)
     \<and> (ps_copying x \<longrightarrow> concat remote = ps_back x @ concat (ps_remote x))
     \<and> (ps_c_closed x \<longleftrightarrow> \<not> ps_copying x)"

text \<open>What the call of the missing method relies on: only \<^verbatim>\<open>Close\<close> closes \<^verbatim>\<open>stopCh\<close>.\<close>

definition flush_keeps_stop :: "(dnagg \<Rightarrow> go_error option \<times> dnagg) \<Rightarrow> bool" where
  "flush_keeps_stop fl \<longleftrightarrow> (\<forall>a. dn_stopped (snd (fl a)) = dn_stopped a)"

lemma dn_flush_keeps_stop: "flush_keeps_stop dn_flush"
proof -
  have "dn_stopped (snd (dn_flush a)) = dn_stopped a" for a
    using writeQueue_write_frame
    by (auto simp: dn_flush_def Let_def writeQueue_clear_def split: prod.splits)
  then show ?thesis by (simp add: flush_keeps_stop_def)
qed

lemma fl_continue_pc: "fl_pc (fl_continue k s) \<noteq> FWrite q k'"
  by simp

lemma fl_step_flags:
  assumes "fl_step s s'"
  shows "wr_pc s' = wr_pc s \<and> dn_stopped (agg s') = dn_stopped (agg s)
    \<and> (dn_closed (agg s) \<longrightarrow> dn_closed (agg s')) \<and> fl_pc s \<noteq> FDone"
  using assms
proof cases
  case (fl_at_write q k)
  with writeQueue_write_frame [of q "agg s"] show ?thesis
    by (auto simp: fl_write_def split: prod.splits)
qed (auto simp: fl_top_def fl_clear_def writeQueue_clear_def fl_timer_case_def fl_stop_case_def Let_def)

lemma dn_Write_locked_flags:
  assumes "dn_Write_locked fl p a = (out, sig, a')" "flush_keeps_stop fl"
  shows "dn_stopped a' = dn_stopped a" "dn_closed a \<Longrightarrow> out = DnReturn (Inl ErrClosedPipe) \<and> a' = a"
proof -
  from assms(2) have "dn_stopped a1 = dn_stopped a" if "fl a = (e, a1)" for e a1
    using that unfolding flush_keeps_stop_def by (metis snd_conv)
  with assms(1) show "dn_stopped a' = dn_stopped a"
    by (auto simp: dn_Write_locked_def dn_enqueue_def Let_def split: if_splits prod.splits option.splits)
qed (use assms(1) in \<open>auto simp: dn_Write_locked_def\<close>)

lemma dn_writeDirect_flags:
  "dn_writeDirect p a = (r, a') \<Longrightarrow> dn_stopped a' = dn_stopped a"
  by (auto simp: dn_writeDirect_def split: prod.splits sum.splits)

lemma dn_Write_locked_direct:
  "dn_Write_locked fl b a = (DnDirect p, sig, a') \<Longrightarrow> p = b"
  by (auto simp: dn_Write_locked_def dn_enqueue_def Let_def split: if_splits prod.splits option.splits)

lemma ps_step_ok:
  assumes "ps_step fl x y" "ps_ok fl a x" "ps_closing x"
  shows "ps_ok fl a y"
  using assms(1)
proof cases
  case (flush d)
  with assms(2) fl_step_flags [OF flush(2)] show ?thesis
    by (auto simp: ps_ok_def intro: dn_reach.step dn_step.flusher)
next
  case (wrote b r sig c)
  with assms(2) have "wr_pc (ps_dn x) = None" "b \<noteq> []" by (auto simp: ps_ok_def)
  from dn_step.write_returns [OF this(1) wrote(3) this(2) wrote(4)] wrote assms(2,3) show ?thesis
    by (auto simp: ps_ok_def ps_closing_def ps_written_def intro: dn_reach.step split: sum.splits)
next
  case (left_lock b p sig c)
  with assms(2) have "wr_pc (ps_dn x) = None" "b \<noteq> []" by (auto simp: ps_ok_def)
  from dn_step.write_leaves [OF this(1) left_lock(3) this(2) left_lock(4)] left_lock assms(2,3) show ?thesis
    by (auto simp: ps_ok_def ps_closing_def intro: dn_reach.step)
next
  case (direct p r c)
  with assms(2) have "wr_pc (ps_dn x) = Some p" by (auto simp: ps_ok_def)
  from dn_step.write_direct [OF this] direct assms(2,3) show ?thesis
    by (auto simp: ps_ok_def ps_closing_def ps_written_def intro: dn_reach.step split: sum.splits)
next
  case (agg_close d)
  show ?thesis
  proof (cases "dn_closed (agg (ps_dn x))")
    case False
    from dn_step.close [OF this] have "dn_step fl (ps_dn x) (ps_dn y)"
      using agg_close False by (simp add: ps_agg_Close_def)
    with agg_close assms(2) False show ?thesis
      by (auto simp: ps_ok_def ps_agg_Close_def intro: dn_reach.step)
  qed (use agg_close assms(2) in \<open>auto simp: ps_ok_def ps_agg_Close_def ps_after_def\<close>)
qed (use assms(2) in \<open>auto simp: ps_ok_def ps_after_def\<close>)

lemma ps_step_closing:
  assumes "ps_step fl x y" "flush_keeps_stop fl" "ps_closing x"
  shows "ps_closing y"
  using assms(1)
proof cases
  case (flush d)
  with assms(3) fl_step_flags [OF flush(2)] show ?thesis
    by (auto simp: ps_closing_def split: ps_pc.splits bool.splits)
next
  case (flush_late q k)
  with assms(3) show ?thesis
    by (auto simp: ps_closing_def split: ps_pc.splits bool.splits)
next
  case (wrote b r sig c)
  with assms(3) dn_Write_locked_flags(1) [OF wrote(4) assms(2)] show ?thesis
    by (auto simp: ps_closing_def ps_written_def split: sum.splits)
next
  case (left_lock b p sig c)
  with assms(3) dn_Write_locked_flags(1) [OF left_lock(4) assms(2)] show ?thesis
    by (auto simp: ps_closing_def)
next
  case (direct p r c)
  with assms(3) dn_writeDirect_flags [OF direct(3)] show ?thesis
    by (auto simp: ps_closing_def ps_written_def split: sum.splits)
next
  case (agg_close d)
  with assms(3) show ?thesis
    by (cases d) (auto simp: ps_closing_def ps_agg_Close_def ps_after_def dn_Close_def)
next
  case (flusher_done d)
  with assms(3) show ?thesis by (auto simp: ps_closing_def ps_after_def)
qed (use assms(3) in \<open>auto simp: ps_closing_def split: ps_pc.splits bool.splits\<close>)

lemma ps_step_copied: "ps_step fl x y \<Longrightarrow> ps_copied remote x \<Longrightarrow> ps_copied remote y"
  by (erule ps_stepE) (auto simp: ps_copied_def ps_agg_Close_def)

lemma ps_start_ok:
  "ps_ok fl a (ps_start a local remote)" "ps_copied remote (ps_start a local remote)"
  "\<not> dn_stopped a \<Longrightarrow> ps_closing (ps_start a local remote)"
  by (simp_all add: ps_ok_def ps_closing_def ps_copied_def ps_start_def dn_start_def dn_reach.start [unfolded dn_start_def])

lemma ps_run:
  assumes "(ps_step fl)\<^sup>*\<^sup>* (ps_start a local remote) x" "flush_keeps_stop fl" "\<not> dn_stopped a"
  shows "ps_ok fl a x \<and> ps_closing x \<and> ps_copied remote x"
  using assms(1)
proof (induction rule: rtranclp_induct)
  case (step y z)
  with assms(2) show ?case by (blast intro: ps_step_ok ps_step_closing ps_step_copied)
qed (use assms(3) ps_start_ok in blast)

text \<open>
  While the stream is open the aggregator is in a state its own step relation reaches, so that
  all that is shown of it holds under \<^verbatim>\<open>ProxyConnStream\<close>; the connection has been sent a prefix of what
  came on the stream; and when \<^verbatim>\<open>ProxyConnStream\<close> has returned, the stream and the aggregator are
  closed, with the flusher gone unless a failed write had closed the aggregator before.
\<close>

theorem proxy_stream_runs:
  assumes "(ps_step fl)\<^sup>*\<^sup>* (ps_start (NewDnAggregator st p t q m) local remote) x" "flush_keeps_stop fl"
  shows "(\<not> ps_s_closed x \<longrightarrow> dn_reach fl (NewDnAggregator st p t q m) (ps_dn x))
    \<and> (\<exists>rest. concat remote = ps_back x @ rest)
    \<and> (ps_at x = PsReturned \<longrightarrow> ps_s_closed x \<and> dn_closed (agg (ps_dn x))
         \<and> (dn_stopped (agg (ps_dn x)) \<longrightarrow> fl_pc (ps_dn x) = FDone))"
  using ps_run [OF assms] by (auto simp: ps_ok_def ps_closing_def ps_copied_def NewDnAggregator_def Let_def)

section \<open>A connection that is never given up\<close>

text \<open>
  A wait in \<^verbatim>\<open>agg.Close\<close> for a flusher that sleeps has no end; the stream stays open, and the copy
  back goes on.
\<close>

definition ps_hanging :: "proxy_stream \<Rightarrow> bool" where
  "ps_hanging x \<longleftrightarrow> ps_at x = PsWait False \<and> fl_pc (ps_dn x) = FWait \<and> \<not> ps_s_closed x"

lemma ps_hanging_step: "ps_step fl x y \<Longrightarrow> ps_hanging x \<Longrightarrow> ps_hanging y"
  by (erule ps_stepE) (auto simp: ps_hanging_def elim: fl_stepE)

text \<open>
  A peer that closes at once can leave \<^verbatim>\<open>ProxyConnStream\<close> waiting for ever: a state is reachable in which
  it waits for the flusher, and it still does, with the stream open, in every state that can follow.
\<close>

theorem proxy_stream_can_hang:
  "\<exists>x. (ps_step fl)\<^sup>*\<^sup>* (ps_start (NewDnAggregator st p t q m) [] remote) x
     \<and> (\<forall>y. (ps_step fl)\<^sup>*\<^sup>* x y \<longrightarrow> ps_at y = PsWait False \<and> fl_pc (ps_dn y) = FWait \<and> \<not> ps_s_closed y)"
proof -
  let ?a = "NewDnAggregator st p t q m"
  let ?x0 = "ps_start ?a [] remote"
  let ?x1 = "?x0\<lparr>ps_dn := (dn_start ?a)\<lparr>fl_pc := FAboutToWait\<rparr>\<rparr>"
  let ?x2 = "?x1\<lparr>ps_at := PsClose False\<rparr>"
  let ?x3 = "ps_agg_Close False ?x2"
  let ?x4 = "?x3\<lparr>ps_dn := (ps_dn ?x3)\<lparr>fl_pc := FWait\<rparr>\<rparr>"
  have a: "\<not> dn_closed ?a" "dn_queue ?a = []" by (simp_all add: NewDnAggregator_def Let_def)
  have "fl_step (dn_start ?a) ((dn_start ?a)\<lparr>fl_pc := FAboutToWait\<rparr>)"
    using fl_at_top [of "dn_start ?a"] a by (simp add: fl_top_def dn_start_def)
  then have 1: "ps_step fl ?x0 ?x1" using ps_step.flush [of ?x0] by (simp add: ps_start_def dn_start_def)
  have 2: "ps_step fl ?x1 ?x2" by (rule ps_step.read_fails) (simp_all add: ps_start_def)
  have 3: "ps_step fl ?x2 ?x3" by (rule ps_step.agg_close) simp
  have w: "fl_pc (ps_dn ?x3) = FAboutToWait" "\<not> ps_s_closed ?x3" "ps_at ?x3 = PsWait False"
    using a by (simp_all add: ps_agg_Close_def ps_start_def dn_start_def)
  from fl_at_wait [OF w(1)] have 4: "ps_step fl ?x3 ?x4" by (rule ps_step.flush) (simp add: w)
  have h: "ps_hanging ?x4" using w by (simp add: ps_hanging_def)
  have "ps_hanging y" if "(ps_step fl)\<^sup>*\<^sup>* ?x4 y" for y
    using that h by (induction rule: rtranclp_induct) (auto intro: ps_hanging_step)
  moreover from 1 2 3 4 have "(ps_step fl)\<^sup>*\<^sup>* ?x0 ?x4"
    by (meson converse_rtranclp_into_rtranclp r_into_rtranclp)
  ultimately show ?thesis unfolding ps_hanging_def by blast
qed

end
