(* ===== verification/Spec2Isabelle.thy ===== *)
theory Spec2Isabelle
  imports Processes UdpRelay UdpAssocRun EndToEnd HttpProxy Tunnel ProxyStream
begin

text \<open>
  A verification development for the Go proxy in this repository: a client that offers SOCKS5 and HTTP
  proxies on the local machine and carries their connections over a multiplexer (\<^verbatim>\<open>smux\<close>) on WebSocket
  connections to a server, which dials the targets.

  \<^bold>\<open>Parts, sources and theories.\<close>
  \<^item> \<^verbatim>\<open>Prelude\<close>, \<^verbatim>\<open>GoIO\<close>, \<^verbatim>\<open>GoStd\<close>, \<^verbatim>\<open>GoNet\<close>, \<^verbatim>\<open>Base64\<close>: bytes, errors and bounds-checked slices; connections as
    records with \<^verbatim>\<open>io.ReadFull\<close>, writes, deadlines; what the program uses of \<^verbatim>\<open>strings\<close>, \<^verbatim>\<open>strconv\<close>,
    \<^verbatim>\<open>encoding/hex\<close>, \<^verbatim>\<open>encoding/base64\<close> and of \<^verbatim>\<open>net\<close> on addresses.
  \<^item> \<^verbatim>\<open>Codec\<close>: the contract between a writer and a reader of a message format, as the locales \<^verbatim>\<open>message_codec\<close>
    and \<^verbatim>\<open>framed_codec\<close>; \<^verbatim>\<open>SendQueue\<close>, \<^verbatim>\<open>ByteSource\<close>, \<^verbatim>\<open>Lifecycle\<close>: the contracts of a flushed queue, of a source of
    bytes, of what runs or closes once, and of goroutines whose steps come to an end. The components interpret them on
    their own definitions.
  \<^item> \<^verbatim>\<open>Constants\<close>, \<^verbatim>\<open>Handshake\<close>, \<^verbatim>\<open>Framing\<close>: \<^verbatim>\<open>internal/constants\<close>, \<^verbatim>\<open>internal/protocol\<close> and the copies of the framing
    in \<^verbatim>\<open>cmd/client/main.go\<close> and \<^verbatim>\<open>internal/relay/tcp.go\<close>.
  \<^item> \<^verbatim>\<open>Config\<close>, \<^verbatim>\<open>Uuid\<close>: \<^verbatim>\<open>internal/config\<close> and \<^verbatim>\<open>internal/transport/uuid.go\<close>.
  \<^item> \<^verbatim>\<open>WSConn\<close>: \<^verbatim>\<open>internal/transport/wsconn.go\<close>, the byte stream over a WebSocket with its upload queue. \<^verbatim>\<open>Tunnel\<close>: the
    abstract pipe it refines, and two connections back to back.
  \<^item> \<^verbatim>\<open>DnAgg\<close>: \<^verbatim>\<open>internal/transport/dnagg.go\<close>, the download aggregator; its flusher is a step relation
    interleaved with \<^verbatim>\<open>Write\<close> and \<^verbatim>\<open>Close\<close>. \<^verbatim>\<open>ProxyStream\<close>: its \<^verbatim>\<open>ProxyConnStream\<close>, with the copy in the other direction.
  \<^item> \<^verbatim>\<open>ECH\<close>: \<^verbatim>\<open>internal/transport/ech.go\<close>, the DNS query and the two parsers, where \<^verbatim>\<open>None\<close> is a panic.
  \<^item> \<^verbatim>\<open>Dial\<close>: \<^verbatim>\<open>internal/relay/dial.go\<close> and the resolution of \<^verbatim>\<open>udp.go\<close>; the dial race is a step relation.
  \<^item> \<^verbatim>\<open>Relay\<close>: \<^verbatim>\<open>internal/relay/tcp.go\<close>; the TCP relay is a step relation over its four goroutines. \<^verbatim>\<open>UdpRelay\<close>: the UDP relay
    as a step relation over the relayer of \<^verbatim>\<open>internal/relay/udp.go\<close> and the buffers of \<^verbatim>\<open>internal/pool/pool.go\<close>.
  \<^item> \<^verbatim>\<open>Session\<close>: \<^verbatim>\<open>internal/session/session.go\<close> and the accept loops; the contract \<^verbatim>\<open>key_table\<close> of the tables.
  \<^item> \<^verbatim>\<open>Server\<close>, \<^verbatim>\<open>Client\<close>, \<^verbatim>\<open>Pool\<close>, \<^verbatim>\<open>Startup\<close>: \<^verbatim>\<open>cmd/server/main.go\<close>, and of \<^verbatim>\<open>cmd/client/main.go\<close> the connection, the pool of
    channels and the start. \<^verbatim>\<open>Pool\<close> holds the contract \<^verbatim>\<open>stream_opener\<close>, which the proxies use to
    open streams and to say what the relay reads from them.
  \<^item> \<^verbatim>\<open>PoolRun\<close>, \<^verbatim>\<open>Processes\<close>: the goroutines of the pool, the handlers of the server over its table of sessions, and both
    main routines with signals and shutdown, as step relations over the operations of the theories above.
  \<^item> \<^verbatim>\<open>Socks5\<close>, \<^verbatim>\<open>UdpAssoc\<close>, \<^verbatim>\<open>HttpProxy\<close>, \<^verbatim>\<open>ProxyConn\<close>: the two local proxies in \<^verbatim>\<open>cmd/client/main.go\<close>; \<^verbatim>\<open>UdpAssocRun\<close>: the
    goroutines of a UDP association; \<^verbatim>\<open>EndToEnd\<close>: a proxied TCP connection and the datagrams of an association, from the application to
    the target and back.

  Definitions carry the names of the functions they translate; a prefix distinguishes copies
  (\<^verbatim>\<open>client_\<close>, \<^verbatim>\<open>relay_\<close>, \<^verbatim>\<open>protocol_\<close>) and methods of the same name (\<^verbatim>\<open>WS_\<close>, \<^verbatim>\<open>dn_\<close>, \<^verbatim>\<open>CS_\<close>, \<^verbatim>\<open>ua_\<close>). State is passed
  explicitly, an error is the left side of a sum, a panic is \<^verbatim>\<open>None\<close>.

  \<^bold>\<open>How the parts interact.\<close> \<^verbatim>\<open>Startup\<close> loads a configuration and makes an identity, an ECH state and a pool. The
  server authenticates a connection by the handshake on its first stream (\<^verbatim>\<open>Server\<close>, \<^verbatim>\<open>Client\<close>, both over
  \<^verbatim>\<open>Handshake\<close>) and then hands every stream to \<^verbatim>\<open>HandleSmuxStream\<close>. The proxies open a stream on a channel of the
  pool with the open header of \<^verbatim>\<open>Framing\<close>, from which the relay takes kind, strategy and target, resolves
  and dials (\<^verbatim>\<open>Dial\<close>) and copies. The properties of this theory and the end-to-end properties of \<^verbatim>\<open>Socks5\<close>,
  \<^verbatim>\<open>UdpAssoc\<close>, \<^verbatim>\<open>HttpProxy\<close>, \<^verbatim>\<open>Relay\<close>, \<^verbatim>\<open>Pool\<close>, \<^verbatim>\<open>Tunnel\<close> and \<^verbatim>\<open>EndToEnd\<close> compose the two ends: what one has written is what the
  other reads.

  \<^bold>\<open>What is shown.\<close> Data arrives whole and in order (uploads, downloads, UDP in both directions, requests of both
  proxies, proxied connections); the parsers never panic; formats are round trips; the state of
  connection, aggregator, session, pool, association and server satisfies an invariant in every run or
  interleaving, and the start produces states that satisfy them; the connection refines an abstract pipe; both
  relays, dial race, association, proxied connection and flusher end, and a channel of the pool recovers; authentication is required;
  the choice of a channel is fast and fair. Several properties state defects: what is lost, dropped, stuck or
  accepted against the intention, each as a theorem about the code as it is.

  \<^bold>\<open>Bounds.\<close> Loops are structural or have a measure, so no fuel is used, but for \<^verbatim>\<open>ipv6_loop\<close>, whose number counts
  the eight groups of an address. Arithmetic on \<^verbatim>\<open>int\<close> and \<^verbatim>\<open>int64\<close> is that of the integers where the values are
  lengths in memory; the tie window of the pool, its counter, port fields, lengths in messages and channel
  identifiers are kept at their width.

  \<^bold>\<open>Not modelled.\<close> The multiplexer, the WebSocket and TLS libraries, \<^verbatim>\<open>net/http\<close>, \<^verbatim>\<open>net/url\<close>, the JSON tokeniser and
  the operating system's sockets are not under \<^verbatim>\<open>src/\<close> or are input and output: they are parameters, scripts of results or
  events; of \<^verbatim>\<open>net\<close> and \<^verbatim>\<open>sync\<close> the sockets and the pool of buffers are modelled where the code's own behaviour shows on them.
  Logging (\<^verbatim>\<open>clientSourceAddr\<close>, \<^verbatim>\<open>logClientConnEvent\<close> and the calls of \<^verbatim>\<open>log\<close>) has no state the rest depends on. In \<^verbatim>\<open>PoolRun\<close> the
  keep-alive interval is positive; what a negative one does is a theorem of \<^verbatim>\<open>Startup\<close>. As
  committed the program does not compile (\<^verbatim>\<open>DnAggregator\<close> has no \<^verbatim>\<open>flushLocked\<close>, \<^verbatim>\<open>parseStrategy\<close> gets a byte,
  \<^verbatim>\<open>transport.BufPool\<close> does not exist); at these places the model takes a parameter or the evident meaning, and
  says so where it does.
\<close>

section \<open>Both ends of a connection\<close>

text \<open>The client and the configuration read the text of an identity alike.\<close>

lemma decode_parse_uuid: "decode_auth_uuid t = Inr u \<longleftrightarrow> parse_uuid t = Inr u"
  by (auto simp: decode_auth_uuid_def parse_uuid_def Let_def split: option.split)

lemma auth_contains:
  assumes "decode_auth_uuids texts [] = Inr auth" "t \<in> set texts" "parse_uuid t = Inr u"
  shows "u \<in> set auth"
proof -
  have "list_all2 (\<lambda>s b. decode_auth_uuid s = Inr b) texts auth"
    using assms(1) by (simp add: decode_auth_uuids_acc)
  with assms(2,3) show ?thesis
    by (fastforce simp: list_all2_conv_all_nth in_set_conv_nth decode_parse_uuid)
qed

lemma client_handshake_run:
  assumes "GetUUIDBytes ids = Some u" "0 < DialTimeout conf" "s_wr c = []" "s_out c = []"
    "s_in c = [HandshakeResp, code]"
  shows "\<exists>c'. doHandshake conf ids (Inr c) =
      (if code = HandshakeOK then None
       else Some (Errorf (''handshake failed: code '' @ dec_of_nat (unat code))), Some c')
    \<and> s_out c' = HandshakeReq # u \<and> s_closed c'"
  using assms
  by (simp add: doHandshake_def handshake_defs deadline_defs Write_ok ReadFull_ok Let_def Close_def del: handshake_consts)

text \<open>
  C5: the two ends of the handshake agree. Let the client have read its identity from a text, and
  the server its list from texts; let each end read what the other has written on the first stream.
  Then the client's handshake succeeds exactly when the server counts it as connected, under its own
  identity, and exactly when that identity is in the list; it is when the texts contain the client's
  own. Otherwise the client reports the failure code and the server has refused.
\<close>

theorem handshake_end_to_end:
  assumes "InitUUID txt uuid_zero = (None, ids)" "decode_auth_uuids texts [] = Inr auth"
    and "0 < DialTimeout cconf" "0 < DialTimeout sconf"
    and "s_wr c = []" "s_out c = []" "s_wr s = []" "s_out s = []"
    and "handleWebSocket True True (Some s) sconf auth = (out, Some s')" "s_in c = s_out s'"
    and "doHandshake cconf ids (Inr c) = (r, Some c')" "s_in s = s_out c'"
  shows "\<exists>u. parse_uuid txt = Inr u \<and> (r = None \<longleftrightarrow> u \<in> set auth) \<and> (out = Connected (bytes_str u) \<longleftrightarrow> u \<in> set auth)
    \<and> (txt \<in> set texts \<longrightarrow> r = None) \<and> (r \<noteq> None \<longrightarrow> out = Refused)"
proof -
  from assms(1) obtain u where u: "parse_uuid txt = Inr u" "uuidBytes ids = Some u"
    by (auto simp: InitUUID_def uuid_zero_def split: sum.splits)
  then have len: "length u = 16" by (auto simp: parse_uuid_def Let_def split: if_splits option.splits)
  with u have get: "GetUUIDBytes ids = Some u" by (simp add: GetUUIDBytes_def)
  have req: "s_out c' = HandshakeReq # u"
    using assms(3,5,6,11) get
    by (auto simp: doHandshake_def handshake_defs deadline_defs Write_ok Let_def Close_def ReadFull_def
        ReadFull_into_def simp del: handshake_consts split: if_splits)
  from hsreq.rd_enc [of "DialTimeout sconf" u s "[]"] assms(4,12) len req
  have read: "fst (ReadHandshakeRequest (DialTimeout sconf) s) = Inr u" by auto
  from assms(9,7) show ?thesis
  proof (cases rule: handleWebSocket_cases)
    case (unread e)
    with read show ?thesis by simp
  next
    case (refused v)
    with read assms(8,10) have v: "v = u" "s_in c = [HandshakeResp, HandshakeFail]" by auto
    from client_handshake_run [OF get assms(3,5,6) v(2)] assms(11) have "r \<noteq> None" by auto
    moreover have "txt \<notin> set texts" using auth_contains [OF assms(2) _ u(1)] refused(2) v(1) by blast
    ultimately show ?thesis using u(1) refused v(1) by auto
  next
    case (accepted v)
    with read assms(8,10) have v: "v = u" "s_in c = [HandshakeResp, HandshakeOK]" by auto
    from client_handshake_run [OF get assms(3,5,6) v(2)] assms(11) have "r = None" by auto
    then show ?thesis using u(1) accepted v(1) by auto
  qed
qed

theorem handshake_end_to_end_witness:
  "\<exists>ids. InitUUID (uuid_text (replicate 16 7)) uuid_zero = (None, ids)
     \<and> fst (doHandshake (zero_client\<lparr>DialTimeout := 1\<rparr>) ids (Inr (fresh_stream [HandshakeResp, HandshakeOK]))) = None"
proof -
  let ?u = "replicate 16 7 :: bytes" and ?cc = "zero_client\<lparr>DialTimeout := 1\<rparr>" and ?sc = "zero_server\<lparr>DialTimeout := 1\<rparr>"
  let ?ids = "uuid_zero\<lparr>uuidOnce := True, uuidBytes := Some ?u\<rparr>"
  have p: "parse_uuid (uuid_text ?u) = Inr ?u" by (intro parse_uuid_text) simp
  then have i: "InitUUID (uuid_text ?u) uuid_zero = (None, ?ids)" by (simp add: InitUUID_def uuid_zero_def)
  have a: "decode_auth_uuids [uuid_text ?u] [] = Inr [?u]"
    using p [folded decode_parse_uuid] by simp
  let ?s = "fresh_stream (HandshakeReq # ?u)" and ?c = "fresh_stream [HandshakeResp, HandshakeOK]"
  have "s_in ?s = HandshakeReq # ?u" by simp
  obtain s' out where h: "handleWebSocket True True (Some ?s) ?sc [?u] = (out, Some s')" "s_out s' = s_in ?c"
    by (auto simp: handleWebSocket_def handshake_defs deadline_defs ReadFull_ok Write_ok Let_def)
  have t: "0 < DialTimeout ?cc" "0 < DialTimeout ?sc" "s_wr ?c = []" "s_out ?c = []" "s_wr ?s = []" "s_out ?s = []"
    by simp_all
  have g: "GetUUIDBytes ?ids = Some ?u" by (simp add: GetUUIDBytes_def)
  from client_handshake_run [OF g t(1,3,4), of HandshakeOK] obtain c' where
    d: "doHandshake ?cc ?ids (Inr ?c) = (None, Some c')" "s_out c' = HandshakeReq # ?u" by auto
  from handshake_end_to_end [OF i a t h(1) h(2) [symmetric] d(1)] d i show ?thesis by auto
qed

text \<open>
  C36: the server refuses every channel of the pool. The pool opens a stream with the open header of a
  ping, of TCP or of UDP and never performs the handshake; on the first stream of a connection the
  server expects the handshake, closes the stream without an answer and drops the connection.
\<close>

theorem pool_channels_refused:
  assumes "s_in s = header_enc (k, strategy, target) @ rest" "k \<in> {StreamKindPing, StreamKindTCP, StreamKindUDP}"
    "s_wr s = []" "handleWebSocket True True (Some s) conf auth = (out, s')"
  shows "out = Refused \<and> (\<exists>f. s' = Some f \<and> s_out f = s_out s \<and> s_closed f)"
proof -
  have no: "fst (ReadHandshakeRequest (DialTimeout conf) s) \<noteq> Inr u" for u
  proof
    assume "fst (ReadHandshakeRequest (DialTimeout conf) s) = Inr u"
    then have "\<exists>s'. ReadHandshakeRequest (DialTimeout conf) s = (Inr u, s')" by (metis prod.collapse)
    with assms(1,2) show False unfolding ReadHandshakeRequest_Inr_iff by (auto simp: header_enc_def)
  qed
  from assms(4,3) show ?thesis by (cases rule: handleWebSocket_cases) (use no in auto)
qed

theorem pool_channels_refused_witness:
  "fst (handleWebSocket True True (Some (fresh_stream [1, 0, 0, 0, 9])) zero_server [[7]]) = Refused"
proof -
  let ?s = "fresh_stream [1, 0, 0, 0, 9]"
  have h: "s_in ?s = header_enc (StreamKindPing, 0, []) @ [9]" by (simp add: header_enc_def put_u16_def)
  from pool_channels_refused [OF h _ _ prod.collapse [symmetric], of zero_server "[[7]]"] show ?thesis by simp
qed

end
